(* ===== verification/Prelude.thy ===== *)
theory Prelude
  imports
    Main
    "HOL-Library.Multiset"
    "HOL-Library.AList"
    "HOL-Library.Char_ord"
    "HOL-Library.List_Lexorder"
    "HOL-Library.Product_Lexorder"
    "HOL-Library.Option_ord"
begin

text \<open>
  Shared vocabulary of the development: the named collections the component proofs
  simplify with, the result type of fallible code, the parts of the Rust standard
  library the sources use (the ordered collections, \<^verbatim>\<open>Vec::dedup_by\<close>,
  \<^verbatim>\<open>slice::binary_search_by\<close>, \<^verbatim>\<open>str::parse\<close> for integers), and the generic list facts
  that several components need.
\<close>

named_theorems result_simps "unfolding of the result monad"
named_theorems kahn_simps "facts about the tables of Kahn's sort"
named_theorems auth_defs "definitions of the authorisation rules"

section \<open>Results\<close>

type_synonym ('e, 'a) result = "'e + 'a"

text \<open>The question-mark operator: propagate an error, continue with a value.\<close>

definition try_res :: "('e, 'a) result \<Rightarrow> ('a \<Rightarrow> ('e, 'b) result) \<Rightarrow> ('e, 'b) result" where
  "try_res r f = (case r of Inl e \<Rightarrow> Inl e | Inr a \<Rightarrow> f a)"

lemma try_res_simps [simp, result_simps]:
  "try_res (Inl e) f = Inl e"
  "try_res (Inr a) f = f a"
  by (simp_all add: try_res_def)

lemma try_res_eq_Inr [result_simps]:
  "try_res r f = Inr b \<longleftrightarrow> (\<exists>a. r = Inr a \<and> f a = Inr b)"
  by (cases r) auto

lemma try_res_eq_Inl [result_simps]:
  "try_res r f = Inl e \<longleftrightarrow> r = Inl e \<or> (\<exists>a. r = Inr a \<and> f a = Inl e)"
  by (cases r) auto

text \<open>\<^verbatim>\<open>Option::ok_or\<close> and \<^verbatim>\<open>Result::ok\<close>.\<close>

definition ok_or :: "'a option \<Rightarrow> 'e \<Rightarrow> ('e, 'a) result" where
  "ok_or x e = (case x of Some a \<Rightarrow> Inr a | None \<Rightarrow> Inl e)"

definition res_ok :: "('e, 'a) result \<Rightarrow> 'a option" where
  "res_ok r = (case r of Inl _ \<Rightarrow> None | Inr a \<Rightarrow> Some a)"

lemma ok_or_simps [simp]: "ok_or (Some a) e = Inr a" "ok_or None e = Inl e"
  by (simp_all add: ok_or_def)

lemma ok_or_eq_Inr [simp]: "ok_or x e = Inr a \<longleftrightarrow> x = Some a"
  by (cases x) auto

lemma res_ok_simps [simp]: "res_ok (Inr a) = Some a" "res_ok (Inl e) = None"
  by (simp_all add: res_ok_def)

text \<open>Mapping a fallible function over a list, stopping at the first error.\<close>

fun map_res :: "('a \<Rightarrow> ('e, 'b) result) \<Rightarrow> 'a list \<Rightarrow> ('e, 'b list) result" where
  "map_res f [] = Inr []"
| "map_res f (x # xs) = try_res (f x) (\<lambda>y. try_res (map_res f xs) (\<lambda>ys. Inr (y # ys)))"

lemma map_res_eq_Inr:
  "map_res f xs = Inr ys \<longleftrightarrow> list_all2 (\<lambda>x y. f x = Inr y) xs ys"
  by (induction xs arbitrary: ys) (auto simp: try_res_eq_Inr list_all2_Cons1)

section \<open>Ordered work lists\<close>

text \<open>
  Kahn's algorithm is written twice in the sources, once over
  \<^verbatim>\<open>BinaryHeap<Reverse<_>>\<close> and once over \<^verbatim>\<open>BTreeSet\<close>. Both are used through the same three
  operations: an empty collection, an insertion and the removal of a least element.
  The contract is stated on the set of stored elements; a heap may hold duplicates, so
  removing the least element may leave another copy of it behind.
\<close>

locale min_worklist =
  fixes wl_push :: "'a::linorder \<Rightarrow> 'q \<Rightarrow> 'q"
    and wl_pop :: "'q \<Rightarrow> ('a \<times> 'q) option"
    and wl_elems :: "'q \<Rightarrow> 'a set"
    and wl_inv :: "'q \<Rightarrow> bool"
  assumes inv_push: "wl_inv q \<Longrightarrow> wl_inv (wl_push x q)"
    and elems_push: "wl_inv q \<Longrightarrow> wl_elems (wl_push x q) = insert x (wl_elems q)"
    and pop_None: "wl_inv q \<Longrightarrow> wl_pop q = None \<longleftrightarrow> wl_elems q = {}"
    and inv_pop: "wl_inv q \<Longrightarrow> wl_pop q = Some (x, q') \<Longrightarrow> wl_inv q'"
    and pop_elem: "wl_inv q \<Longrightarrow> wl_pop q = Some (x, q') \<Longrightarrow> x \<in> wl_elems q"
    and pop_least: "wl_inv q \<Longrightarrow> wl_pop q = Some (x, q') \<Longrightarrow> y \<in> wl_elems q \<Longrightarrow> x \<le> y"
    and pop_keeps: "wl_inv q \<Longrightarrow> wl_pop q = Some (x, q') \<Longrightarrow> wl_elems q - {x} \<subseteq> wl_elems q'"
    and pop_subset: "wl_inv q \<Longrightarrow> wl_pop q = Some (x, q') \<Longrightarrow> wl_elems q' \<subseteq> wl_elems q"
begin

lemma inv_foldr_push: "wl_inv q \<Longrightarrow> wl_inv (foldr wl_push xs q)"
  by (induction xs) (auto intro: inv_push)

lemma elems_foldr_push: "wl_inv q \<Longrightarrow> wl_elems (foldr wl_push xs q) = set xs \<union> wl_elems q"
  by (induction xs) (auto simp: elems_push inv_foldr_push)

lemma pop_covers:
  assumes "wl_inv q" and "wl_pop q = Some (x, q')" and "y \<in> wl_elems q" and "y \<noteq> x"
  shows "y \<in> wl_elems q'"
  using pop_keeps [OF assms(1,2)] assms(3,4) by blast

end

text \<open>The heap is modelled by its sorted contents.\<close>

definition heap_push :: "'a::linorder \<Rightarrow> 'a list \<Rightarrow> 'a list" where
  "heap_push x q = insort x q"

definition heap_pop :: "'a list \<Rightarrow> ('a \<times> 'a list) option" where
  "heap_pop q = (case q of [] \<Rightarrow> None | x # q' \<Rightarrow> Some (x, q'))"

lemma length_heap_pop: "heap_pop q = Some (x, q') \<Longrightarrow> length q' < length q"
  by (auto simp: heap_pop_def split: list.splits)

interpretation bin_heap: min_worklist heap_push heap_pop set sorted
  by unfold_locales
    (auto simp: heap_push_def heap_pop_def sorted_insort set_insort_key split: list.splits)

text \<open>The B-tree set is modelled by its sorted, duplicate-free contents.\<close>

definition btree_insert :: "'a::linorder \<Rightarrow> 'a list \<Rightarrow> 'a list" where
  "btree_insert x q = (if x \<in> set q then q else insort x q)"

interpretation btree: min_worklist btree_insert heap_pop set sorted
  by unfold_locales
    (auto simp: btree_insert_def heap_pop_def sorted_insort set_insort_key split: list.splits)


section \<open>Binary search\<close>

text \<open>
  \<^verbatim>\<open>slice::binary_search_by\<close>: the loop halves the size of the window and keeps its base,
  then one comparison decides.
\<close>

function bs_loop :: "('a \<Rightarrow> 'k::linorder) \<Rightarrow> 'a list \<Rightarrow> 'k \<Rightarrow> nat \<Rightarrow> nat \<Rightarrow> nat" where
  "bs_loop f xs k base sz =
     (if sz \<le> 1 then base
      else let half = sz div 2; mid = base + half
           in bs_loop f xs k (if k < f (xs ! mid) then base else mid) (sz - half))"
  by pat_completeness auto
termination
  by (relation "measure (\<lambda>(f, xs, k, base, sz). sz)") auto

declare bs_loop.simps [simp del]

definition binary_search :: "('a \<Rightarrow> 'k::linorder) \<Rightarrow> 'a list \<Rightarrow> 'k \<Rightarrow> nat option" where
  "binary_search f xs k =
     (if xs = [] then None
      else let b = bs_loop f xs k 0 (length xs) in if f (xs ! b) = k then Some b else None)"

lemma bs_loop_window:
  "0 < sz \<Longrightarrow> base \<le> bs_loop f xs k base sz \<and> bs_loop f xs k base sz < base + sz"
proof (induction f xs k base sz rule: bs_loop.induct)
  case (1 f xs k base sz)
  show ?case
  proof (cases "sz \<le> 1")
    case True
    with "1.prems" show ?thesis by (simp add: bs_loop.simps [of f xs k base sz])
  next
    case False
    let ?b = "if k < f (xs ! (base + sz div 2)) then base else base + sz div 2"
    have "0 < sz - sz div 2" using False by simp
    then have "?b \<le> bs_loop f xs k ?b (sz - sz div 2) \<and>
        bs_loop f xs k ?b (sz - sz div 2) < ?b + (sz - sz div 2)"
      by (rule "1.IH" [OF False refl refl])
    moreover have "bs_loop f xs k base sz = bs_loop f xs k ?b (sz - sz div 2)"
      using False by (simp add: bs_loop.simps [of f xs k base sz] Let_def)
    ultimately show ?thesis using False
      by (cases "k < f (xs ! (base + sz div 2))") (simp_all, linarith+)
  qed
qed

lemma bs_loop_finds:
  assumes "sorted (map f xs)"
  shows "base + sz \<le> length xs \<Longrightarrow> i < base + sz \<Longrightarrow> base \<le> i \<Longrightarrow> f (xs ! i) = k \<Longrightarrow>
    f (xs ! bs_loop f xs k base sz) = k"
  using assms
proof (induction f xs k base sz arbitrary: i rule: bs_loop.induct)
  case (1 f xs k base sz)
  have mono: "f (xs ! i) \<le> f (xs ! j)" if "i \<le> j" "j < length xs" for i j
    using sorted_nth_mono [OF "1.prems"(5), of i j] that by simp
  show ?case
  proof (cases "sz \<le> 1")
    case True
    with "1.prems" have "i = base" by simp
    with True "1.prems" show ?thesis by (simp add: bs_loop.simps [of f xs k base sz])
  next
    case False
    let ?half = "sz div 2" and ?mid = "base + sz div 2"
    let ?b = "if k < f (xs ! ?mid) then base else ?mid"
    have step: "bs_loop f xs k base sz = bs_loop f xs k ?b (sz - ?half)"
      using False by (simp add: bs_loop.simps [of f xs k base sz] Let_def)
    have mid: "?mid < length xs" using "1.prems"(1) False by simp
    define j where "j = (if \<not> k < f (xs ! ?mid) \<and> i < ?mid then ?mid else i)"
    have "f (xs ! j) = k"
      using "1.prems"(4) mono [of i ?mid] mid by (auto simp: j_def intro: antisym)
    moreover have "?b \<le> j" using "1.prems"(3) by (auto simp: j_def)
    moreover have "j < ?b + (sz - ?half)"
    proof (cases "k < f (xs ! ?mid)")
      case True
      have "i < ?mid"
      proof (rule ccontr)
        assume "\<not> i < ?mid"
        then have "f (xs ! ?mid) \<le> f (xs ! i)" using mono [of ?mid i] "1.prems"(1,2) by simp
        with True "1.prems"(4) show False by simp
      qed
      with True False show ?thesis by (simp add: j_def)
    next
      case f: False
      with False "1.prems"(2) show ?thesis by (auto simp: j_def)
    qed
    moreover have "?b + (sz - ?half) \<le> length xs" using "1.prems"(1) False by auto
    ultimately have "f (xs ! bs_loop f xs k ?b (sz - ?half)) = k"
      using "1.IH" [OF False refl refl] "1.prems"(5) by blast
    with step show ?thesis by simp
  qed
qed

lemma binary_search_Some: "binary_search f xs k = Some i \<Longrightarrow> i < length xs \<and> f (xs ! i) = k"
  using bs_loop_window [of "length xs" 0 f xs k]
  by (auto simp: binary_search_def Let_def split: if_splits)

lemma binary_search_None:
  assumes "sorted (map f xs)"
  shows "binary_search f xs k = None \<longleftrightarrow> k \<notin> f ` set xs"
proof
  assume none: "binary_search f xs k = None"
  show "k \<notin> f ` set xs"
  proof
    assume "k \<in> f ` set xs"
    then obtain i where "i < length xs" "f (xs ! i) = k" by (auto simp: in_set_conv_nth)
    then have "f (xs ! bs_loop f xs k 0 (length xs)) = k" "xs \<noteq> []"
      using bs_loop_finds [OF assms, of 0 "length xs" i k] by auto
    with none show False by (simp add: binary_search_def Let_def)
  qed
next
  assume "k \<notin> f ` set xs"
  then show "binary_search f xs k = None"
    using binary_search_Some [of f xs k] by (cases "binary_search f xs k") auto
qed

text \<open>On a strictly sorted association list the search is the lookup of the map.\<close>

lemma binary_search_map_of:
  assumes "sorted (map fst xs)" and "distinct (map fst xs)"
  shows "map_option (\<lambda>i. snd (xs ! i)) (binary_search fst xs k) = map_of xs k"
proof (cases "binary_search fst xs k")
  case None
  with binary_search_None [OF assms(1), of k] show ?thesis
    using map_of_eq_None_iff [of xs k] by simp
next
  case (Some i)
  with binary_search_Some have "i < length xs" "fst (xs ! i) = k" by blast+
  then have "(k, snd (xs ! i)) \<in> set xs" by (metis nth_mem prod.collapse)
  with Some assms(2) show ?thesis by simp
qed

section \<open>Sorting and removing consecutive duplicates\<close>

text \<open>\<^verbatim>\<open>Vec::dedup_by\<close> keeps the first of every run of elements that the relation identifies.\<close>

fun dedup_key :: "('a \<Rightarrow> 'k) \<Rightarrow> 'a list \<Rightarrow> 'a list" where
  "dedup_key f [] = []"
| "dedup_key f [x] = [x]"
| "dedup_key f (x # y # ys) =
     (if f y = f x then dedup_key f (x # ys) else x # dedup_key f (y # ys))"

lemma hd_dedup_key: "xs \<noteq> [] \<Longrightarrow> dedup_key f xs \<noteq> [] \<and> hd (dedup_key f xs) = hd xs"
  by (induction f xs rule: dedup_key.induct) auto

lemma set_dedup_key_subset: "set (dedup_key f xs) \<subseteq> set xs"
  by (induction f xs rule: dedup_key.induct) auto

lemma keys_dedup_key: "f ` set (dedup_key f xs) = f ` set xs"
  by (induction f xs rule: dedup_key.induct) auto

lemma sorted_dedup_key:
  "sorted (map f xs) \<Longrightarrow> sorted (map f (dedup_key f xs)) \<and> distinct (map f (dedup_key f xs))"
proof (induction f xs rule: dedup_key.induct)
  case (3 f x y ys)
  show ?case
  proof (cases "f y = f x")
    case True
    with 3 show ?thesis by simp
  next
    case False
    with "3.IH"(2) "3.prems" have IH: "sorted (map f (dedup_key f (y # ys)))"
      "distinct (map f (dedup_key f (y # ys)))" by auto
    have "f x < f z" if "z \<in> set (dedup_key f (y # ys))" for z
    proof -
      have "z \<in> set (y # ys)" using set_dedup_key_subset that by (rule subsetD)
      then have "f y \<le> f z" using "3.prems" by fastforce
      moreover have "f x < f y" using "3.prems" False by (simp add: less_le)
      ultimately show ?thesis by (rule less_le_trans [rotated])
    qed
    with False IH show ?thesis by fastforce
  qed
qed auto

lemma map_of_dedup_key: "map_of (dedup_key fst xs) = map_of xs"
proof (induction "fst :: 'a \<times> 'b \<Rightarrow> 'a" xs rule: dedup_key.induct)
  case (3 x y ys)
  then show ?case by (cases x; cases y) (auto simp: fun_eq_iff)
qed auto

lemma map_of_sort_key_fst: "map_of (sort_key fst xs) = map_of xs"
proof
  fix k
  have first: "map_of ys k = (case filter (\<lambda>p. fst p = k) ys of [] \<Rightarrow> None | p # _ \<Rightarrow> Some (snd p))"
    for ys :: "('a \<times> 'b) list"
    by (induction ys) auto
  have "sort_key fst (filter (\<lambda>p. fst p = k) xs) = filter (\<lambda>p. fst p = k) xs"
    by (induction xs) (auto intro: insort_is_Cons)
  then show "map_of (sort_key fst xs) k = map_of xs k"
    unfolding first by (simp add: filter_sort)
qed

section \<open>Hash maps\<close>

lemma map_of_rev_distinct: "distinct (map fst xs) \<Longrightarrow> map_of (rev xs) = map_of xs"
proof (rule map_of_eqI, simp, rule ballI)
  fix k assume d: "distinct (map fst xs)" and "k \<in> set (map fst (rev xs))"
  then obtain v where "(k, v) \<in> set xs" by auto
  with d show "map_of (rev xs) k = map_of xs k" by (simp add: rev_map [symmetric])
qed

text \<open>
  The contract of \<^verbatim>\<open>HashMap\<close> and \<^verbatim>\<open>BTreeMap\<close> that the sources rely on: a lookup, an insertion
  that overwrites, and the update of an entry. Iteration order is no part of it. The sources
  merge maps with \<^verbatim>\<open>extend\<close>, which inserts the entries of the other map one by one.
\<close>

locale hash_map =
  fixes get :: "'m \<Rightarrow> 'k \<rightharpoonup> 'v"
    and put :: "'k \<Rightarrow> 'v \<Rightarrow> 'm \<Rightarrow> 'm"
    and entry :: "'k \<Rightarrow> 'v \<Rightarrow> ('v \<Rightarrow> 'v) \<Rightarrow> 'm \<Rightarrow> 'm"
    and inv :: "'m \<Rightarrow> bool"
  assumes get_put: "get (put k v m) = (get m)(k \<mapsto> v)"
    and get_entry: "get (entry k v f m) = (get m)(k \<mapsto> case get m k of None \<Rightarrow> v | Some x \<Rightarrow> f x)"
    and inv_put: "inv m \<Longrightarrow> inv (put k v m)"
    and inv_entry: "inv m \<Longrightarrow> inv (entry k v f m)"
begin

lemma get_extend: "get (fold (\<lambda>(k, v). put k v) xs m) = get m ++ map_of (rev xs)"
  by (induction xs arbitrary: m) (auto simp: get_put map_add_def split: option.splits)

lemma inv_extend: "inv m \<Longrightarrow> inv (fold (\<lambda>(k, v). put k v) xs m)"
  by (induction xs arbitrary: m) (auto intro: inv_put)

lemma get_extend_distinct: "distinct (map fst xs) \<Longrightarrow> get (fold (\<lambda>(k, v). put k v) xs m) = get m ++ map_of xs"
  by (simp add: get_extend map_of_rev_distinct)

lemma inv_fold_entry: "inv m \<Longrightarrow> inv (fold (\<lambda>x. entry (a x) (b x) (g x)) xs m)"
  by (induction xs arbitrary: m) (auto intro: inv_entry)

end

interpretation alist: hash_map map_of AList.update AList.map_default "\<lambda>m. distinct (map fst m)"
  by unfold_locales
    (auto simp: AList.update_conv' AList.map_of_map_default AList.distinct_update
      AList.distinct_map_default split: option.splits)

definition map_extend :: "('k \<times> 'v) list \<Rightarrow> ('k \<times> 'v) list \<Rightarrow> ('k \<times> 'v) list" where
  "map_extend xs m = fold (\<lambda>(k, v). AList.update k v) xs m"

lemma map_of_map_extend: "distinct (map fst xs) \<Longrightarrow> map_of (map_extend xs m) = map_of m ++ map_of xs"
  unfolding map_extend_def by (rule alist.get_extend_distinct)

lemma distinct_map_extend: "distinct (map fst m) \<Longrightarrow> distinct (map fst (map_extend xs m))"
  unfolding map_extend_def by (rule alist.inv_extend)

end
