(* ===== verification/Kahn.thy ===== *)
theory Kahn
  imports Prelude
begin

text \<open>
  Kahn's topological sort of \<^verbatim>\<open>core/utils/kahns_sort.rs\<close>, which orders the power events of
  state resolution and the events of a room's timeline. The tables of the source (in-degree
  counts, forward adjacency lists, visited flags, the heap of ready nodes) are modelled as
  they are. The abstract specification \<open>topo_run\<close> says that each emitted node is a least
  one among those whose parents were all emitted; the lemmas show that the tables implement
  it, that the output is a permutation of the input, that parents precede children, and that
  the result does not depend on the order in which the nodes are presented.
\<close>

section \<open>The algorithm\<close>

text \<open>Step 1: consecutive indices; a repeated identifier keeps its last index.\<close>

fun kahn_index :: "('id \<times> 'id list \<times> 'k) list \<Rightarrow> nat \<Rightarrow> ('id \<rightharpoonup> nat) \<Rightarrow> ('id \<rightharpoonup> nat)" where
  "kahn_index [] i m = m"
| "kahn_index (n # ns) i m = kahn_index ns (Suc i) (m(fst n \<mapsto> i))"

text \<open>Step 2: in-degree counts and forward adjacency lists. Unknown parents are ignored.\<close>

fun kahn_parents ::
  "('id \<rightharpoonup> nat) \<Rightarrow> nat \<Rightarrow> 'id list \<Rightarrow> nat list \<times> nat list list \<Rightarrow> nat list \<times> nat list list"
where
  "kahn_parents ix n [] (deg, ch) = (deg, ch)"
| "kahn_parents ix n (p # ps) (deg, ch) =
     (case ix p of
        Some q \<Rightarrow> kahn_parents ix n ps (deg[n := Suc (deg ! n)], ch[q := ch ! q @ [n]])
      | None \<Rightarrow> kahn_parents ix n ps (deg, ch))"

fun kahn_graph ::
  "('id \<rightharpoonup> nat) \<Rightarrow> nat \<Rightarrow> 'id list list \<Rightarrow> nat list \<times> nat list list \<Rightarrow> nat list \<times> nat list list"
where
  "kahn_graph ix n [] g = g"
| "kahn_graph ix n (ps # pss) g = kahn_graph ix (Suc n) pss (kahn_parents ix n ps g)"

text \<open>Step 3: the heap starts with the nodes that have no unresolved parent.\<close>

definition kahn_init_heap :: "'k::linorder list \<Rightarrow> nat list \<Rightarrow> ('k \<times> nat) list" where
  "kahn_init_heap keys deg =
     foldr heap_push (map (\<lambda>i. (keys ! i, i)) (filter (\<lambda>i. deg ! i = 0) [0..<length deg])) []"

text \<open>
  Step 4: the inner loop over the children of an emitted node, then the outer loop. A heap
  entry whose index is outside the table would make the source panic on \<^verbatim>\<open>visited[node_idx]\<close>;
  it is skipped here, and the invariant of the loop shows that there is none.
\<close>

fun kahn_relax ::
  "'k::linorder list \<Rightarrow> nat list \<Rightarrow> nat list \<Rightarrow> ('k \<times> nat) list \<Rightarrow> nat list \<times> ('k \<times> nat) list"
where
  "kahn_relax keys [] deg heap = (deg, heap)"
| "kahn_relax keys (c # cs) deg heap =
     (let d = deg ! c - 1; deg' = deg[c := d]
      in kahn_relax keys cs deg' (if d = 0 then heap_push (keys ! c, c) heap else heap))"

function kahn_drain ::
  "'k::linorder list \<Rightarrow> nat list list \<Rightarrow> ('k \<times> nat) list \<Rightarrow> nat list \<Rightarrow> bool list \<Rightarrow> nat list
     \<Rightarrow> nat list \<times> bool list"
where
  "kahn_drain keys ch heap deg vis out =
     (case heap_pop heap of
        None \<Rightarrow> (out, vis)
      | Some (e, heap') \<Rightarrow>
          (let i = snd e in
           if i < length vis \<and> \<not> vis ! i
           then kahn_drain keys ch (snd (kahn_relax keys (ch ! i) deg heap'))
                  (fst (kahn_relax keys (ch ! i) deg heap')) (vis[i := True]) (out @ [i])
           else kahn_drain keys ch heap' deg vis out))"
  by pat_completeness auto

lemma length_filter_Not_update:
  "i < length vis \<Longrightarrow> \<not> vis ! i \<Longrightarrow>
     length (filter Not (vis[i := True])) < length (filter Not vis)"
proof (induction vis arbitrary: i)
  case (Cons v vis)
  then show ?case by (cases i) auto
qed simp

termination kahn_drain
  by (relation "measures [\<lambda>(keys, ch, heap, deg, vis, out). length (filter Not vis),
                          \<lambda>(keys, ch, heap, deg, vis, out). length heap]")
    (auto intro: length_filter_Not_update length_heap_pop)

declare kahn_drain.simps [simp del]

text \<open>Step 5: nodes on cycles are appended, ordered by key and then by index.\<close>

definition kahn_remaining :: "'k::linorder list \<Rightarrow> bool list \<Rightarrow> nat list" where
  "kahn_remaining keys vis =
     sort_key (\<lambda>i. (keys ! i, i)) (filter (\<lambda>i. \<not> vis ! i) [0..<length vis])"

definition kahn_sort :: "('id \<times> 'id list \<times> 'k::linorder) list \<Rightarrow> 'id list" where
  "kahn_sort nodes =
     (let n = length nodes;
          ids = map fst nodes;
          edges = map (fst \<circ> snd) nodes;
          keys = map (snd \<circ> snd) nodes;
          ix = kahn_index nodes 0 Map.empty
      in if n = 0 then []
         else
           let (deg, ch) = kahn_graph ix 0 edges (replicate n 0, replicate n []);
               (sorted_idx, vis) =
                 kahn_drain keys ch (kahn_init_heap keys deg) deg (replicate n False) [];
               rest = (if length sorted_idx < n then kahn_remaining keys vis else [])
           in map (\<lambda>i. ids ! i) (sorted_idx @ rest))"


section \<open>Abstract specification\<close>

text \<open>
  A node is ready when it was not emitted and its parents inside the node set were. A run
  emits a ready node of least key until none is ready.
\<close>

definition ready :: "'a set \<Rightarrow> ('a \<Rightarrow> 'a set) \<Rightarrow> 'a set \<Rightarrow> 'a set" where
  "ready N par V = {x \<in> N - V. par x \<inter> N \<subseteq> V}"

inductive topo_run ::
  "'a set \<Rightarrow> ('a \<Rightarrow> 'a set) \<Rightarrow> ('a \<Rightarrow> 'k::linorder) \<Rightarrow> 'a set \<Rightarrow> 'a list \<Rightarrow> bool"
  for N par key
where
  stop: "ready N par V = {} \<Longrightarrow> topo_run N par key V []"
| emit: "x \<in> ready N par V \<Longrightarrow> (\<And>y. y \<in> ready N par V \<Longrightarrow> key x \<le> key y) \<Longrightarrow>
     topo_run N par key (insert x V) xs \<Longrightarrow> topo_run N par key V (x # xs)"

inductive_cases topo_run_NilE: "topo_run N par key V []"
inductive_cases topo_run_ConsE: "topo_run N par key V (x # xs)"

lemma topo_run_nodes: "topo_run N par key V xs \<Longrightarrow> set xs \<subseteq> N - V \<and> distinct xs"
  by (induction rule: topo_run.induct) (auto simp: ready_def)

lemma topo_run_stuck: "topo_run N par key V xs \<Longrightarrow> ready N par (V \<union> set xs) = {}"
  by (induction rule: topo_run.induct) auto

text \<open>Parents are emitted before their children.\<close>

lemma topo_run_parents:
  "topo_run N par key V xs \<Longrightarrow> xs = ys @ c # zs \<Longrightarrow> p \<in> par c \<inter> N \<Longrightarrow> p \<in> V \<union> set ys"
proof (induction arbitrary: ys rule: topo_run.induct)
  case (emit x V xs)
  then show ?case by (cases ys) (auto simp: ready_def)
qed simp

text \<open>With distinct keys there is only one run.\<close>

lemma topo_run_unique:
  assumes "topo_run N par key V xs" and "topo_run N par key V ys" and "inj_on key N"
  shows "xs = ys"
  using assms
proof (induction arbitrary: ys rule: topo_run.induct)
  case (stop V)
  then show ?case by (cases ys) (auto elim: topo_run_ConsE)
next
  case (emit x V xs)
  show ?case
  proof (cases ys)
    case Nil
    with emit.prems emit.hyps show ?thesis by (auto elim: topo_run_NilE)
  next
    case (Cons y ys')
    with emit.prems have y: "y \<in> ready N par V" and miny: "key y \<le> key x"
      and run: "topo_run N par key (insert y V) ys'"
      using emit.hyps(1) by (auto elim: topo_run_ConsE)
    from emit.hyps(2) [OF y] miny have "key x = key y" by simp
    with emit.hyps(1) y emit.prems(2) have "x = y" by (auto simp: ready_def dest: inj_onD)
    with run Cons emit.IH emit.prems(2) show ?thesis by auto
  qed
qed

text \<open>On an acyclic graph a run emits every node.\<close>

lemma topo_run_complete:
  assumes run: "topo_run N par key V xs"
    and wf: "wf {(p, c). c \<in> N \<and> p \<in> par c \<inter> N}" and V: "V \<subseteq> N"
  shows "V \<union> set xs = N"
proof (rule ccontr)
  assume "V \<union> set xs \<noteq> N"
  with V topo_run_nodes [OF run] obtain c where "c \<in> N - (V \<union> set xs)" by blast
  with wf obtain m where m: "m \<in> N - (V \<union> set xs)"
    and least: "\<And>p. (p, m) \<in> {(p, c). c \<in> N \<and> p \<in> par c \<inter> N} \<Longrightarrow> p \<notin> N - (V \<union> set xs)"
    by (rule wfE_min) blast
  then have "m \<in> ready N par (V \<union> set xs)" by (auto simp: ready_def)
  with topo_run_stuck [OF run] show False by simp
qed

text \<open>Renaming the nodes by an injection keeps a run a run.\<close>

lemma image_subset_inj_iff:
  "inj_on f N \<Longrightarrow> A \<subseteq> N \<Longrightarrow> B \<subseteq> N \<Longrightarrow> f ` A \<subseteq> f ` B \<longleftrightarrow> A \<subseteq> B"
  by (metis image_Un inj_on_image_eq_iff sup.order_iff Un_subset_iff)

lemma ready_image:
  assumes inj: "inj_on f N" and V: "V \<subseteq> N"
    and par: "\<And>x. x \<in> N \<Longrightarrow> par' (f x) \<inter> f ` N = f ` (par x \<inter> N)"
  shows "ready (f ` N) par' (f ` V) = f ` ready N par V"
proof -
  have eq: "f x \<notin> f ` V \<and> par' (f x) \<inter> f ` N \<subseteq> f ` V \<longleftrightarrow> x \<notin> V \<and> par x \<inter> N \<subseteq> V"
    if "x \<in> N" for x
    using that inj V by (simp add: par inj_on_image_mem_iff image_subset_inj_iff)
  have "ready (f ` N) par' (f ` V) =
      {f x | x. x \<in> N \<and> (f x \<notin> f ` V \<and> par' (f x) \<inter> f ` N \<subseteq> f ` V)}"
    by (auto simp: ready_def)
  also have "\<dots> = {f x | x. x \<in> N \<and> (x \<notin> V \<and> par x \<inter> N \<subseteq> V)}"
    by (simp only: eq cong: conj_cong)
  also have "\<dots> = f ` ready N par V" by (auto simp: ready_def)
  finally show ?thesis .
qed

lemma topo_run_image:
  assumes "topo_run N par key V xs" and inj: "inj_on f N" and "V \<subseteq> N"
    and par: "\<And>x. x \<in> N \<Longrightarrow> par' (f x) \<inter> f ` N = f ` (par x \<inter> N)"
    and key: "\<And>x y. x \<in> N \<Longrightarrow> y \<in> N \<Longrightarrow> key x \<le> key y \<Longrightarrow> key' (f x) \<le> key' (f y)"
  shows "topo_run (f ` N) par' key' (f ` V) (map f xs)"
proof -
  have img: "ready (f ` N) par' (f ` W) = f ` ready N par W" if "W \<subseteq> N" for W
    using inj that par by (rule ready_image)
  from assms(1,3) show ?thesis
  proof (induction rule: topo_run.induct)
    case (stop V)
    then show ?case by (auto intro: topo_run.stop simp: img)
  next
    case (emit x V xs)
    then have x: "x \<in> N" by (auto simp: ready_def)
    have "key' (f x) \<le> key' y" if "y \<in> ready (f ` N) par' (f ` V)" for y
    proof -
      from that emit.prems obtain z where z: "z \<in> ready N par V" "y = f z" by (auto simp: img)
      with emit.hyps(2) [OF z(1)] x show ?thesis by (auto simp: ready_def intro: key)
    qed
    with emit x show ?case by (auto intro!: topo_run.emit simp: img)
  qed
qed

lemma topo_run_cong:
  assumes "topo_run N par key V xs" and "V \<subseteq> N"
    and "\<And>x. x \<in> N \<Longrightarrow> par x = par' x" and "\<And>x. x \<in> N \<Longrightarrow> key x = key' x"
  shows "topo_run N par' key' V xs"
proof -
  have "topo_run ((\<lambda>x. x) ` N) par' key' ((\<lambda>x. x) ` V) (map (\<lambda>x. x) xs)"
    using assms(1) _ assms(2) by (rule topo_run_image) (use assms(3,4) in simp_all)
  then show ?thesis by simp
qed

text \<open>
  A sort is a run followed by the nodes it could not emit, in the order of their keys. It is
  determined by the nodes, their parents and their keys.
\<close>

definition topo_sorted :: "'a set \<Rightarrow> ('a \<Rightarrow> 'a set) \<Rightarrow> ('a \<Rightarrow> 'k::linorder) \<Rightarrow> 'a list \<Rightarrow> bool" where
  "topo_sorted N par key xs \<longleftrightarrow>
     (\<exists>run rest. xs = run @ rest \<and> topo_run N par key {} run \<and>
        set rest = N - set run \<and> distinct rest \<and> sorted (map key rest))"

lemma topo_sorted_set: "topo_sorted N par key xs \<Longrightarrow> set xs = N \<and> distinct xs"
  using topo_run_nodes by (fastforce simp: topo_sorted_def)

lemma topo_sorted_cong:
  assumes "topo_sorted N par key xs"
    and "\<And>x. x \<in> N \<Longrightarrow> par x = par' x" and same: "\<And>x. x \<in> N \<Longrightarrow> key x = key' x"
  shows "topo_sorted N par' key' xs"
proof -
  obtain run rest where a: "xs = run @ rest" "topo_run N par key {} run"
    "set rest = N - set run" "distinct rest" "sorted (map key rest)"
    using assms(1) by (auto simp: topo_sorted_def)
  have "map key rest = map key' rest" using a(3) same by (intro map_cong refl) auto
  with a(5) have "sorted (map key' rest)" by (simp only:)
  moreover have "topo_run N par' key' {} run" using a(2) by (rule topo_run_cong) (simp_all add: assms(2,3))
  ultimately show ?thesis using a(1,3,4) unfolding topo_sorted_def by blast
qed

lemma topo_sorted_unique:
  assumes a: "topo_sorted N par key xs" and b: "topo_sorted N par' key' ys"
    and same: "\<And>x. x \<in> N \<Longrightarrow> par' x = par x" "\<And>x. x \<in> N \<Longrightarrow> key' x = key x"
    and inj: "inj_on key N"
  shows "xs = ys"
proof -
  obtain run rest where a: "xs = run @ rest" "topo_run N par key {} run"
    "set rest = N - set run" "distinct rest" "sorted (map key rest)"
    using a by (auto simp: topo_sorted_def)
  obtain run' rest' where b: "ys = run' @ rest'" "topo_run N par' key' {} run'"
    "set rest' = N - set run'" "distinct rest'" "sorted (map key' rest')"
    using b by (auto simp: topo_sorted_def)
  have "topo_run N par key {} run'" using b(2) by (rule topo_run_cong) (simp_all add: same)
  with a(2) have run: "run = run'" using inj by (rule topo_run_unique)
  have "map key' rest' = map key rest'" using b(3) same(2) by (intro map_cong refl) auto
  with b(5) have "sorted (map key rest')" by (simp only:)
  moreover have "inj_on key (set rest \<union> set rest')"
    using inj by (rule inj_on_subset) (use a(3) b(3) in auto)
  ultimately have "rest = rest'"
    using a b run by (intro map_sorted_distinct_set_unique) (auto simp: distinct_map)
  with run a(1) b(1) show ?thesis by simp
qed

section \<open>The tables\<close>

abbreviation resolve_ids :: "('id \<rightharpoonup> nat) \<Rightarrow> 'id list \<Rightarrow> nat list" where
  "resolve_ids ix ps \<equiv> List.map_filter ix ps"

lemma resolve_ids_simps [kahn_simps]:
  "resolve_ids ix [] = []"
  "ix p = None \<Longrightarrow> resolve_ids ix (p # ps) = resolve_ids ix ps"
  "ix p = Some q \<Longrightarrow> resolve_ids ix (p # ps) = q # resolve_ids ix ps"
  by (simp_all add: List.map_filter_simps)

lemma set_resolve_ids: "set (resolve_ids ix ps) = {q. \<exists>p\<in>set ps. ix p = Some q}"
  by (induction ps) (auto simp: List.map_filter_simps split: option.splits)

lemma kahn_parents_deg:
  "n < length deg \<Longrightarrow>
     fst (kahn_parents ix n ps (deg, ch)) = deg[n := deg ! n + length (resolve_ids ix ps)]"
  by (induction ps arbitrary: deg ch) (auto simp: kahn_simps split: option.splits)

lemma kahn_parents_ch:
  assumes "\<And>p q. ix p = Some q \<Longrightarrow> q < length ch"
  shows "length (snd (kahn_parents ix n ps (deg, ch))) = length ch \<and>
    (\<forall>q<length ch. \<forall>c. count_list (snd (kahn_parents ix n ps (deg, ch)) ! q) c =
       count_list (ch ! q) c + (if c = n then count_list (resolve_ids ix ps) q else 0))"
  using assms
proof (induction ps arbitrary: deg ch)
  case (Cons p ps)
  show ?case
  proof (cases "ix p")
    case None
    with Cons show ?thesis by (simp add: kahn_simps)
  next
    case (Some r)
    let ?ch = "ch[r := ch ! r @ [n]]" and ?deg = "deg[n := Suc (deg ! n)]"
    from Cons.prems have "\<And>p q. ix p = Some q \<Longrightarrow> q < length ?ch" by simp
    from Cons.IH [where deg = ?deg, OF this] Some show ?thesis
      by (auto simp: kahn_simps nth_list_update)
  qed
qed (simp add: kahn_simps)

lemma kahn_graph_spec:
  assumes "\<And>p q. ix p = Some q \<Longrightarrow> q < length ch" and "n + length pss \<le> length deg"
    and "kahn_graph ix n pss (deg, ch) = (deg', ch')"
  shows "length deg' = length deg \<and> length ch' = length ch \<and>
    (\<forall>c<length deg. deg' ! c = deg ! c +
       (if n \<le> c \<and> c < n + length pss then length (resolve_ids ix (pss ! (c - n))) else 0)) \<and>
    (\<forall>q<length ch. \<forall>c. count_list (ch' ! q) c = count_list (ch ! q) c +
       (if n \<le> c \<and> c < n + length pss then count_list (resolve_ids ix (pss ! (c - n))) q else 0))"
  using assms
proof (induction pss arbitrary: n deg ch)
  case (Cons ps pss)
  obtain deg1 ch1 where step: "kahn_parents ix n ps (deg, ch) = (deg1, ch1)"
    by (cases "kahn_parents ix n ps (deg, ch)")
  have deg1: "deg1 = deg[n := deg ! n + length (resolve_ids ix ps)]"
    using kahn_parents_deg [of n deg ix ps ch] Cons.prems(2) step by simp
  have ch1: "length ch1 = length ch"
    "\<And>q c. q < length ch \<Longrightarrow> count_list (ch1 ! q) c =
       count_list (ch ! q) c + (if c = n then count_list (resolve_ids ix ps) q else 0)"
    using kahn_parents_ch [where ix = ix and n = n and ps = ps and deg = deg, OF Cons.prems(1)] step by auto
  have "\<And>p q. ix p = Some q \<Longrightarrow> q < length ch1" using Cons.prems(1) ch1(1) by simp
  moreover have "Suc n + length pss \<le> length deg1" using Cons.prems(2) deg1 by simp
  moreover have "kahn_graph ix (Suc n) pss (deg1, ch1) = (deg', ch')"
    using Cons.prems(3) step by simp
  ultimately have IH: "length deg' = length deg1" "length ch' = length ch1"
    "\<And>c. c < length deg1 \<Longrightarrow> deg' ! c = deg1 ! c +
       (if Suc n \<le> c \<and> c < Suc n + length pss then length (resolve_ids ix (pss ! (c - Suc n))) else 0)"
    "\<And>q c. q < length ch1 \<Longrightarrow> count_list (ch' ! q) c = count_list (ch1 ! q) c +
       (if Suc n \<le> c \<and> c < Suc n + length pss
        then count_list (resolve_ids ix (pss ! (c - Suc n))) q else 0)"
    using Cons.IH by blast+
  have nth: "n < c \<Longrightarrow> (ps # pss) ! (c - n) = pss ! (c - Suc n)" for c
    by (simp add: nth_Cons')
  show ?case
    using IH ch1 deg1 Cons.prems(2) nth
    by (auto simp: nth_list_update less_eq_Suc_le [symmetric] dest: le_neq_implies_less)
qed auto

text \<open>Relaxing the children of a node.\<close>

lemma kahn_relax_spec:
  assumes "sorted heap" and "\<And>c. c \<in> set cs \<Longrightarrow> c < length deg"
    and "\<And>c. count_list cs c \<le> deg ! c"
  shows "length (fst (kahn_relax keys cs deg heap)) = length deg \<and>
    sorted (snd (kahn_relax keys cs deg heap)) \<and>
    (\<forall>c. fst (kahn_relax keys cs deg heap) ! c = deg ! c - count_list cs c) \<and>
    set (snd (kahn_relax keys cs deg heap)) =
      set heap \<union> {(keys ! c, c) | c. c \<in> set cs \<and> deg ! c = count_list cs c}"
  using assms
proof (induction cs arbitrary: deg heap)
  case (Cons c cs)
  let ?d = "deg ! c - 1" and ?deg = "deg[c := deg ! c - 1]"
  let ?heap = "if ?d = 0 then heap_push (keys ! c, c) heap else heap"
  have c: "c < length deg" and pos: "0 < deg ! c" and rest: "count_list cs c \<le> ?d"
    using Cons.prems(2) [of c] Cons.prems(3) [of c] by auto
  have "sorted ?heap" using Cons.prems(1) by (simp add: bin_heap.inv_push)
  moreover have "\<And>x. x \<in> set cs \<Longrightarrow> x < length ?deg" using Cons.prems(2) by simp
  moreover have "\<And>x. count_list cs x \<le> ?deg ! x"
  proof -
    fix x
    show "count_list cs x \<le> ?deg ! x"
      using Cons.prems(3) [of x] c rest by (auto simp: nth_list_update split: if_splits)
  qed
  ultimately have IH: "length (fst (kahn_relax keys cs ?deg ?heap)) = length ?deg"
    "sorted (snd (kahn_relax keys cs ?deg ?heap))"
    "\<And>x. fst (kahn_relax keys cs ?deg ?heap) ! x = ?deg ! x - count_list cs x"
    "set (snd (kahn_relax keys cs ?deg ?heap)) =
      set ?heap \<union> {(keys ! x, x) | x. x \<in> set cs \<and> ?deg ! x = count_list cs x}"
    using Cons.IH by blast+
  have new: "{(keys ! x, x) | x. x \<in> set cs \<and> ?deg ! x = count_list cs x} \<union>
      (if ?d = 0 then {(keys ! c, c)} else {}) =
    {(keys ! x, x) | x. x \<in> set (c # cs) \<and> deg ! x = count_list (c # cs) x}"
    using c pos rest by (auto simp: nth_list_update count_list_0_iff split: if_splits)
  have "set ?heap = set heap \<union> (if ?d = 0 then {(keys ! c, c)} else {})"
    using Cons.prems(1) by (auto simp: bin_heap.elems_push)
  then have "set (snd (kahn_relax keys cs ?deg ?heap)) = set heap \<union>
      {(keys ! x, x) | x. x \<in> set (c # cs) \<and> deg ! x = count_list (c # cs) x}"
    unfolding IH(4) new [symmetric] by blast
  with IH c pos show ?case by (auto simp: Let_def nth_list_update)
qed simp


section \<open>The loop refines the specification\<close>

text \<open>
  What the tables say at the head of the outer loop: the in-degree of a node counts its
  parents that were not emitted, the heap holds every ready node under its key, and nothing
  else but nodes that were emitted already.
\<close>

definition kahn_inv ::
  "(nat \<Rightarrow> nat list) \<Rightarrow> 'k::linorder list \<Rightarrow> nat list list \<Rightarrow> ('k \<times> nat) list \<Rightarrow> nat list
     \<Rightarrow> bool list \<Rightarrow> bool"
where
  "kahn_inv P keys ch heap deg vis \<longleftrightarrow>
     sorted heap \<and> length deg = length vis \<and>
     (\<forall>q<length vis. \<forall>c. count_list (ch ! q) c = (if c < length vis then count_list (P c) q else 0)) \<and>
     (\<forall>c<length vis. \<forall>q\<in>set (P c). q < length vis) \<and>
     (\<forall>c<length vis. deg ! c = length (filter (\<lambda>q. \<not> vis ! q) (P c))) \<and>
     (\<forall>k i. (k, i) \<in> set heap \<longrightarrow>
        i < length vis \<and> k = keys ! i \<and> (vis ! i \<or> (\<forall>q\<in>set (P i). vis ! q))) \<and>
     (\<forall>i<length vis. \<not> vis ! i \<and> (\<forall>q\<in>set (P i). vis ! q) \<longrightarrow> (keys ! i, i) \<in> set heap)"

lemma length_filter_visit:
  assumes "i < length vis" and "\<not> vis ! i" and "\<forall>q\<in>set xs. q < length vis"
  shows "length (filter (\<lambda>q. \<not> vis ! q) xs) =
    length (filter (\<lambda>q. \<not> (vis[i := True]) ! q) xs) + count_list xs i"
  using assms(3) by (induction xs) (use assms(1,2) in \<open>auto simp: nth_list_update\<close>)

lemma kahn_inv_skip:
  assumes "kahn_inv P keys ch heap deg vis" and "heap_pop heap = Some ((k, i), heap')"
    and "vis ! i"
  shows "kahn_inv P keys ch heap' deg vis"
proof -
  have heap: "sorted heap" using assms(1) by (simp add: kahn_inv_def)
  have "(keys ! j, j) \<in> set heap'" if "(keys ! j, j) \<in> set heap" "\<not> vis ! j" for j
    using bin_heap.pop_covers [OF heap assms(2) that(1)] that(2) assms(3) by auto
  then show ?thesis
    using assms(1) bin_heap.inv_pop [OF heap assms(2)] bin_heap.pop_subset [OF heap assms(2)]
    unfolding kahn_inv_def by blast
qed

lemma kahn_inv_emit:
  assumes inv: "kahn_inv P keys ch heap deg vis"
    and pop: "heap_pop heap = Some ((k, i), heap')" and i: "\<not> vis ! i"
  shows "kahn_inv P keys ch (snd (kahn_relax keys (ch ! i) deg heap'))
    (fst (kahn_relax keys (ch ! i) deg heap')) (vis[i := True])"
proof -
  let ?n = "length vis" and ?vis = "vis[i := True]"
  have heap: "sorted heap" and len: "length deg = ?n"
    and ch: "\<And>q c. q < ?n \<Longrightarrow> count_list (ch ! q) c = (if c < ?n then count_list (P c) q else 0)"
    and P: "\<And>c. c < ?n \<Longrightarrow> \<forall>q\<in>set (P c). q < ?n"
    and deg: "\<And>c. c < ?n \<Longrightarrow> deg ! c = length (filter (\<lambda>q. \<not> vis ! q) (P c))"
    and old: "\<And>k j. (k, j) \<in> set heap \<Longrightarrow>
      j < ?n \<and> k = keys ! j \<and> (vis ! j \<or> (\<forall>q\<in>set (P j). vis ! q))"
    and cover: "\<And>j. j < ?n \<Longrightarrow> \<not> vis ! j \<Longrightarrow> \<forall>q\<in>set (P j). vis ! q \<Longrightarrow> (keys ! j, j) \<in> set heap"
    using inv unfolding kahn_inv_def by blast+
  have ki: "i < ?n" "k = keys ! i"
    using old bin_heap.pop_elem [OF heap pop] by auto
  have split: "deg ! c = length (filter (\<lambda>q. \<not> ?vis ! q) (P c)) + count_list (P c) i"
    if "c < ?n" for c
    using length_filter_visit [OF ki(1) i P [OF that]] deg that by simp
  have chi: "count_list (ch ! i) c = (if c < ?n then count_list (P c) i else 0)" for c
    using ch ki(1) by simp
  have "c < length deg" if "c \<in> set (ch ! i)" for c
    using that chi [of c] len by (auto simp: count_list_0_iff split: if_splits)
  moreover have "count_list (ch ! i) c \<le> deg ! c" for c
    using split [of c] chi [of c] by (cases "c < ?n") auto
  moreover have "sorted heap'" using heap pop by (rule bin_heap.inv_pop)
  ultimately have relax:
    "length (fst (kahn_relax keys (ch ! i) deg heap')) = length deg"
    "sorted (snd (kahn_relax keys (ch ! i) deg heap'))"
    "\<And>c. fst (kahn_relax keys (ch ! i) deg heap') ! c = deg ! c - count_list (ch ! i) c"
    "set (snd (kahn_relax keys (ch ! i) deg heap')) =
       set heap' \<union> {(keys ! c, c) | c. c \<in> set (ch ! i) \<and> deg ! c = count_list (ch ! i) c}"
    using kahn_relax_spec [of heap' "ch ! i" deg keys] by blast+
  have vis': "\<And>q. q < ?n \<Longrightarrow> ?vis ! q \<longleftrightarrow> vis ! q \<or> q = i"
    using ki(1) by (auto simp: nth_list_update)
  have newly: "(\<forall>q\<in>set (P c). ?vis ! q) \<and> c < ?n"
    if "c \<in> set (ch ! i)" "deg ! c = count_list (ch ! i) c" for c
  proof -
    from that(1) chi [of c] have "c < ?n" by (auto simp: count_list_0_iff split: if_splits)
    with that(2) split [of c] chi [of c] show ?thesis by (auto simp: filter_empty_conv)
  qed
  have covered: "(keys ! c, c) \<in> set (snd (kahn_relax keys (ch ! i) deg heap'))"
    if c: "c < ?n" "\<not> ?vis ! c" "\<forall>q\<in>set (P c). ?vis ! q" for c
  proof (cases "i \<in> set (P c)")
    case True
    then have "c \<in> set (ch ! i)" using chi [of c] c(1) by (metis count_list_0_iff)
    moreover have "filter (\<lambda>q. \<not> ?vis ! q) (P c) = []" using c(3) by (simp add: filter_empty_conv)
    then have "deg ! c = count_list (ch ! i) c" using split [OF c(1)] chi [of c] c(1) by simp
    ultimately show ?thesis unfolding relax(4) by blast
  next
    case False
    with c P [OF c(1)] vis' have "\<forall>q\<in>set (P c). vis ! q" "\<not> vis ! c" "c \<noteq> i" by auto
    with cover c(1) have "(keys ! c, c) \<in> set heap" "(keys ! c, c) \<noteq> (k, i)" by auto
    then show ?thesis unfolding relax(4) using bin_heap.pop_covers [OF heap pop] by blast
  qed
  have sound: "j < ?n \<and> k' = keys ! j \<and> (?vis ! j \<or> (\<forall>q\<in>set (P j). ?vis ! q))"
    if "(k', j) \<in> set (snd (kahn_relax keys (ch ! i) deg heap'))" for k' j
    using that old [of k' j] newly [of j] P vis' bin_heap.pop_subset [OF heap pop]
    unfolding relax(4) by auto
  have degs: "fst (kahn_relax keys (ch ! i) deg heap') ! c =
      length (filter (\<lambda>q. \<not> ?vis ! q) (P c))" if "c < ?n" for c
    using relax(3) split [OF that] chi [of c] that by simp
  show ?thesis
    unfolding kahn_inv_def length_list_update
  proof (intro conjI)
    show "sorted (snd (kahn_relax keys (ch ! i) deg heap'))" by (rule relax(2))
    show "length (fst (kahn_relax keys (ch ! i) deg heap')) = ?n" using relax(1) len by simp
  qed (use ch P degs sound covered in blast)+
qed

lemma kahn_inv_pop_least:
  assumes inv: "kahn_inv P keys ch heap deg vis"
    and pop: "heap_pop heap = Some ((k, i), heap')" and i: "\<not> vis ! i"
  shows "i \<in> ready {0..<length vis} (\<lambda>i. set (P i)) {j. j < length vis \<and> vis ! j}"
    and "j \<in> ready {0..<length vis} (\<lambda>i. set (P i)) {j. j < length vis \<and> vis ! j} \<Longrightarrow>
      (keys ! i, i) \<le> (keys ! j, j)"
proof -
  have heap: "sorted heap" and P: "\<forall>c<length vis. \<forall>q\<in>set (P c). q < length vis"
    and old: "\<forall>k j. (k, j) \<in> set heap \<longrightarrow>
      j < length vis \<and> k = keys ! j \<and> (vis ! j \<or> (\<forall>q\<in>set (P j). vis ! q))"
    and cover: "\<forall>j<length vis. \<not> vis ! j \<and> (\<forall>q\<in>set (P j). vis ! q) \<longrightarrow> (keys ! j, j) \<in> set heap"
    using inv unfolding kahn_inv_def by blast+
  have ki: "i < length vis" "k = keys ! i" "\<forall>q\<in>set (P i). vis ! q"
    using old bin_heap.pop_elem [OF heap pop] i by blast+
  then show "i \<in> ready {0..<length vis} (\<lambda>i. set (P i)) {j. j < length vis \<and> vis ! j}"
    using i P by (auto simp: ready_def)
  assume "j \<in> ready {0..<length vis} (\<lambda>i. set (P i)) {j. j < length vis \<and> vis ! j}"
  then have "j < length vis" "\<not> vis ! j" "\<forall>q\<in>set (P j). vis ! q"
    using P by (auto simp: ready_def)
  with cover have "(keys ! j, j) \<in> set heap" by blast
  with bin_heap.pop_least [OF heap pop] ki(2) show "(keys ! i, i) \<le> (keys ! j, j)" by blast
qed

lemma kahn_inv_exhausted:
  assumes "kahn_inv P keys ch heap deg vis" and "heap_pop heap = None"
  shows "ready {0..<length vis} (\<lambda>i. set (P i)) {j. j < length vis \<and> vis ! j} = {}"
proof -
  have "set heap = {}" and P: "\<forall>c<length vis. \<forall>q\<in>set (P c). q < length vis"
    using assms bin_heap.pop_None [of heap] unfolding kahn_inv_def by blast+
  moreover have "\<forall>j<length vis. \<not> vis ! j \<and> (\<forall>q\<in>set (P j). vis ! q) \<longrightarrow> (keys ! j, j) \<in> set heap"
    using assms(1) unfolding kahn_inv_def by blast
  ultimately show ?thesis by (fastforce simp: ready_def)
qed

lemma kahn_drain_refines:
  assumes "kahn_inv P keys ch heap deg vis"
  shows "\<exists>run vis'. kahn_drain keys ch heap deg vis out = (out @ run, vis') \<and>
    length vis' = length vis \<and>
    {j. j < length vis \<and> vis' ! j} = {j. j < length vis \<and> vis ! j} \<union> set run \<and>
    topo_run {0..<length vis} (\<lambda>i. set (P i)) (\<lambda>i. (keys ! i, i)) {j. j < length vis \<and> vis ! j} run"
  using assms
proof (induction keys ch heap deg vis out rule: kahn_drain.induct)
  case (1 keys ch heap deg vis out)
  show ?case
  proof (cases "heap_pop heap")
    case None
    with kahn_inv_exhausted [OF "1.prems" None] show ?thesis
      by (subst kahn_drain.simps) (auto intro: topo_run.stop)
  next
    case (Some eh)
    then obtain k i heap' where pop: "heap_pop heap = Some ((k, i), heap')"
      by (cases eh) auto
    have heap: "sorted heap" using "1.prems" by (simp add: kahn_inv_def)
    have i: "i < length vis"
      using "1.prems" bin_heap.pop_elem [OF heap pop] unfolding kahn_inv_def by blast
    show ?thesis
    proof (cases "vis ! i")
      case True
      from "1.IH"(2) [OF pop refl refl] kahn_inv_skip [OF "1.prems" pop True] True pop i
      show ?thesis by (subst kahn_drain.simps) simp
    next
      case False
      let ?relax = "kahn_relax keys (ch ! i) deg heap'"
      have set': "{j. j < length vis \<and> vis[i := True] ! j} =
          insert i {j. j < length vis \<and> vis ! j}"
        using i by (auto simp: nth_list_update)
      from "1.IH"(1) [OF pop refl refl] kahn_inv_emit [OF "1.prems" pop False] i False
      obtain run vis' where IH:
        "kahn_drain keys ch (snd ?relax) (fst ?relax) (vis[i := True]) (out @ [i]) =
           ((out @ [i]) @ run, vis')" "length vis' = length vis"
        "{j. j < length vis \<and> vis' ! j} = insert i {j. j < length vis \<and> vis ! j} \<union> set run"
        "topo_run {0..<length vis} (\<lambda>i. set (P i)) (\<lambda>i. (keys ! i, i))
           (insert i {j. j < length vis \<and> vis ! j}) run"
        by (auto simp: set')
      have "topo_run {0..<length vis} (\<lambda>i. set (P i)) (\<lambda>i. (keys ! i, i))
          {j. j < length vis \<and> vis ! j} (i # run)"
        using kahn_inv_pop_least [OF "1.prems" pop False] IH(4) by (auto intro: topo_run.emit)
      with IH pop i False show ?thesis
        by (subst kahn_drain.simps) (intro exI [of _ "i # run"] exI [of _ vis'], simp)
    qed
  qed
qed


section \<open>Correctness of the sort\<close>

lemma kahn_index_spec:
  "(p \<in> fst ` set ns \<longrightarrow> (\<exists>j<length ns. kahn_index ns i m p = Some (i + j) \<and> fst (ns ! j) = p)) \<and>
   (p \<notin> fst ` set ns \<longrightarrow> kahn_index ns i m p = m p)"
proof (induction ns arbitrary: i m)
  case (Cons n ns)
  let ?m = "m(fst n \<mapsto> i)"
  show ?case
  proof (cases "p \<in> fst ` set ns")
    case True
    with Cons [of "Suc i" ?m] obtain j where "j < length ns"
      "kahn_index ns (Suc i) ?m p = Some (Suc i + j)" "fst (ns ! j) = p" by blast
    then show ?thesis using True by (auto intro!: exI [of _ "Suc j"])
  next
    case False
    with Cons [of "Suc i" ?m] have "kahn_index ns (Suc i) ?m p = ?m p" by blast
    with False show ?thesis by (cases "p = fst n") (auto intro!: exI [of _ 0])
  qed
qed simp

lemma kahn_index_bound: "kahn_index ns 0 Map.empty p = Some q \<Longrightarrow> q < length ns \<and> fst (ns ! q) = p"
  using kahn_index_spec [of p ns 0 Map.empty] by fastforce

lemma kahn_index_dom: "p \<in> fst ` set ns \<Longrightarrow> \<exists>q. kahn_index ns 0 Map.empty p = Some q"
  using kahn_index_spec [of p ns 0 Map.empty] by auto

text \<open>The positions that the sort emits, before they are mapped back to identifiers.\<close>

definition kahn_graph_of :: "('id \<times> 'id list \<times> 'k) list \<Rightarrow> nat \<Rightarrow> nat list" where
  "kahn_graph_of nodes i = resolve_ids (kahn_index nodes 0 Map.empty) (fst (snd (nodes ! i)))"

lemma kahn_inv_initial:
  assumes "kahn_graph (kahn_index nodes 0 Map.empty) 0 (map (fst \<circ> snd) nodes)
    (replicate (length nodes) 0, replicate (length nodes) []) = (deg, ch)"
  shows "kahn_inv (kahn_graph_of nodes) (map (snd \<circ> snd) nodes) ch
    (kahn_init_heap (map (snd \<circ> snd) nodes) deg) deg (replicate (length nodes) False)"
proof -
  let ?n = "length nodes" and ?keys = "map (snd \<circ> snd) nodes" and ?P = "kahn_graph_of nodes"
  have tables: "length deg = ?n" "\<And>c. c < ?n \<Longrightarrow> deg ! c = length (?P c)"
    "\<And>q c. q < ?n \<Longrightarrow> count_list (ch ! q) c = (if c < ?n then count_list (?P c) q else 0)"
    using kahn_graph_spec [OF _ _ assms] kahn_index_bound [of nodes]
    by (auto simp: kahn_graph_of_def)
  have nil: "sorted ([] :: ('b \<times> nat) list)" by simp
  have heap: "sorted (kahn_init_heap ?keys deg)"
    unfolding kahn_init_heap_def by (rule bin_heap.inv_foldr_push [OF nil])
  have elems: "set (kahn_init_heap ?keys deg) = {(?keys ! i, i) | i. i < ?n \<and> ?P i = []}"
    unfolding kahn_init_heap_def bin_heap.elems_foldr_push [OF nil] using tables(1,2) by auto
  have bound: "\<forall>q\<in>set (?P c). q < ?n" for c
    using kahn_index_bound [of nodes] by (auto simp: kahn_graph_of_def set_resolve_ids)
  have deg: "\<forall>c<?n. deg ! c = length (filter (\<lambda>q. \<not> replicate ?n False ! q) (?P c))"
  proof (intro allI impI)
    fix c assume "c < ?n"
    moreover have "filter (\<lambda>q. \<not> replicate ?n False ! q) (?P c) = ?P c"
      using bound by (simp add: filter_id_conv)
    ultimately show "deg ! c = length (filter (\<lambda>q. \<not> replicate ?n False ! q) (?P c))"
      using tables(2) by simp
  qed
  have cover: "?P i = []" if "\<forall>q\<in>set (?P i). replicate ?n False ! q" for i
  proof (rule ccontr)
    assume "?P i \<noteq> []"
    then obtain q where "q \<in> set (?P i)" by (cases "?P i") auto
    with that bound show False by (metis nth_replicate)
  qed
  show ?thesis
    unfolding kahn_inv_def length_replicate
    by (intro conjI) (use heap elems tables bound deg cover in auto)
qed

lemma kahn_sort_positions:
  obtains run rest where
    "kahn_sort nodes = map (\<lambda>i. fst (nodes ! i)) (run @ rest)"
    "topo_run {0..<length nodes} (\<lambda>i. set (kahn_graph_of nodes i))
       (\<lambda>i. (snd (snd (nodes ! i)), i)) {} run"
    "set rest = {0..<length nodes} - set run" "distinct rest"
    "sorted (map (\<lambda>i. (snd (snd (nodes ! i)), i)) rest)"
proof (cases "nodes = []")
  case True
  then have "topo_run {0..<length nodes} (\<lambda>i. set (kahn_graph_of nodes i))
       (\<lambda>i. (snd (snd (nodes ! i)), i)) {} []"
    by (auto intro: topo_run.stop simp: ready_def)
  with True show ?thesis by (intro that [of "[]" "[]"]) (auto simp: kahn_sort_def)
next
  case False
  let ?n = "length nodes" and ?keys = "map (snd \<circ> snd) nodes" and ?P = "kahn_graph_of nodes"
  obtain deg ch where g: "kahn_graph (kahn_index nodes 0 Map.empty) 0 (map (fst \<circ> snd) nodes)
    (replicate ?n 0, replicate ?n []) = (deg, ch)" by fastforce
  have none: "{j. j < ?n \<and> replicate ?n False ! j} = {}" by auto
  obtain run vis where drain: "kahn_drain ?keys ch (kahn_init_heap ?keys deg) deg
      (replicate ?n False) [] = (run, vis)" "length vis = ?n"
    "{j. j < ?n \<and> vis ! j} = set run"
    "topo_run {0..<?n} (\<lambda>i. set (?P i)) (\<lambda>i. (?keys ! i, i)) {} run"
    using kahn_drain_refines [OF kahn_inv_initial [OF g], of "[]"] none by auto
  let ?rest = "if length run < ?n then kahn_remaining ?keys vis else []"
  have run: "set run \<subseteq> {0..<?n}" "distinct run" using topo_run_nodes [OF drain(4)] by auto
  have full: "set run = {0..<?n}" if "\<not> length run < ?n"
    using that run by (intro card_seteq) (auto simp: distinct_card)
  have rest: "set ?rest = {0..<?n} - set run"
  proof (cases "length run < ?n")
    case True
    have "set (kahn_remaining ?keys vis) = {0..<?n} - {j. j < ?n \<and> vis ! j}"
      using drain(2) by (auto simp: kahn_remaining_def)
    with True show ?thesis unfolding drain(3) by simp
  qed (simp add: full)
  have keys: "map (\<lambda>i. (snd (snd (nodes ! i)), i)) ?rest = map (\<lambda>i. (?keys ! i, i)) ?rest"
    using rest by (intro map_cong refl) auto
  have sorted: "sorted (map (\<lambda>i. (snd (snd (nodes ! i)), i)) ?rest)"
    unfolding keys by (simp add: kahn_remaining_def sorted_sort_key)
  have "topo_run ((\<lambda>i. i) ` {0..<?n}) (\<lambda>i. set (?P i)) (\<lambda>i. (snd (snd (nodes ! i)), i))
      ((\<lambda>i. i) ` {}) (map (\<lambda>i. i) run)"
    using drain(4) by (rule topo_run_image) auto
  moreover have "kahn_sort nodes = map (\<lambda>i. fst (nodes ! i)) (run @ ?rest)"
    using False g drain(1) rest run(1) by (auto simp: kahn_sort_def Let_def)
  moreover have "distinct ?rest" by (simp add: kahn_remaining_def)
  ultimately show ?thesis using that [of run ?rest] rest sorted by simp
qed


text \<open>The same facts over identifiers, for inputs without repeated identifiers.\<close>

definition node_parents :: "('id \<times> 'id list \<times> 'k) list \<Rightarrow> 'id \<Rightarrow> 'id set" where
  "node_parents nodes x = (case map_of nodes x of Some (ps, _) \<Rightarrow> set ps | None \<Rightarrow> {})"

definition node_key :: "('id \<times> 'id list \<times> 'k) list \<Rightarrow> 'id \<Rightarrow> 'k" where
  "node_key nodes x = snd (the (map_of nodes x))"

lemma node_nth:
  assumes "distinct (map fst nodes)" and "i < length nodes"
  shows "node_parents nodes (fst (nodes ! i)) = set (fst (snd (nodes ! i)))"
    and "node_key nodes (fst (nodes ! i)) = snd (snd (nodes ! i))"
proof -
  have "map_of nodes (fst (nodes ! i)) = Some (snd (nodes ! i))"
    using assms by (simp add: map_of_is_SomeI)
  then show "node_parents nodes (fst (nodes ! i)) = set (fst (snd (nodes ! i)))"
    and "node_key nodes (fst (nodes ! i)) = snd (snd (nodes ! i))"
    by (auto simp: node_parents_def node_key_def split: prod.splits)
qed

lemma inj_on_ids:
  "distinct (map fst nodes) \<Longrightarrow> inj_on (\<lambda>i. fst (nodes ! i)) {0..<length nodes}"
  using nth_eq_iff_index_eq [of "map fst nodes"] by (auto simp: inj_on_def)

lemma image_ids: "(\<lambda>i. fst (nodes ! i)) ` {0..<length nodes} = fst ` set nodes"
  by (force simp: in_set_conv_nth)

lemma kahn_graph_of_ids:
  assumes "distinct (map fst nodes)" and "i < length nodes"
  shows "set (fst (snd (nodes ! i))) \<inter> fst ` set nodes =
    (\<lambda>i. fst (nodes ! i)) ` (set (kahn_graph_of nodes i) \<inter> {0..<length nodes})"
proof -
  have "(\<lambda>i. fst (nodes ! i)) ` set (kahn_graph_of nodes i) =
      set (fst (snd (nodes ! i))) \<inter> fst ` set nodes"
    using kahn_index_bound [of nodes] kahn_index_dom [of _ nodes]
    by (fastforce simp: kahn_graph_of_def set_resolve_ids)
  moreover have "set (kahn_graph_of nodes i) \<subseteq> {0..<length nodes}"
    using kahn_index_bound [of nodes] by (auto simp: kahn_graph_of_def set_resolve_ids)
  ultimately show ?thesis by (simp add: Int_absorb2)
qed

lemma kahn_sort_refines:
  assumes dist: "distinct (map fst nodes)"
  obtains run rest where "kahn_sort nodes = run @ rest"
    "topo_run (fst ` set nodes) (node_parents nodes) (node_key nodes) {} run"
    "set rest = fst ` set nodes - set run" "distinct rest"
    "sorted (map (node_key nodes) rest)"
proof -
  let ?f = "\<lambda>i. fst (nodes ! i)" and ?N = "{0..<length nodes}"
  obtain run rest where pos: "kahn_sort nodes = map ?f (run @ rest)"
    "topo_run ?N (\<lambda>i. set (kahn_graph_of nodes i)) (\<lambda>i. (snd (snd (nodes ! i)), i)) {} run"
    "set rest = ?N - set run" "distinct rest"
    "sorted (map (\<lambda>i. (snd (snd (nodes ! i)), i)) rest)"
    by (rule kahn_sort_positions)
  note inj = inj_on_ids [OF dist]
  have "topo_run (?f ` ?N) (node_parents nodes) (node_key nodes) (?f ` {}) (map ?f run)"
    using pos(2) inj
  proof (rule topo_run_image)
    show "node_parents nodes (?f x) \<inter> ?f ` ?N = ?f ` (set (kahn_graph_of nodes x) \<inter> ?N)"
      if "x \<in> ?N" for x
      using that kahn_graph_of_ids [OF dist, of x] by (simp add: node_nth [OF dist] image_ids)
  qed (auto simp: node_nth [OF dist])
  then have "topo_run (fst ` set nodes) (node_parents nodes) (node_key nodes) {} (map ?f run)"
    by (simp add: image_ids)
  moreover have run: "set run \<subseteq> ?N" using topo_run_nodes [OF pos(2)] by simp
  have "set (map ?f rest) = fst ` set nodes - set (map ?f run)"
    using inj_on_image_set_diff [OF inj, of ?N "set run"] run pos(3) by (simp add: image_ids)
  moreover have "distinct (map ?f rest)"
    using inj pos(3,4) by (simp add: distinct_map inj_on_diff)
  moreover have "sorted (map (node_key nodes) (map ?f rest))"
  proof -
    have "map (node_key nodes) (map ?f rest) = map (\<lambda>i. snd (snd (nodes ! i))) rest"
      using pos(3) by (simp add: node_nth [OF dist])
    moreover have "sorted (map (\<lambda>i. snd (snd (nodes ! i))) rest)"
      using pos(5) by (auto simp: sorted_map elim!: sorted_wrt_mono_rel [rotated])
    ultimately show ?thesis by (simp only:)
  qed
  ultimately show ?thesis using that [of "map ?f run" "map ?f rest"] pos(1) by simp
qed

text \<open>The graph of an input: an edge from a parent to each of its children.\<close>

definition node_edges :: "('id \<times> 'id list \<times> 'k) list \<Rightarrow> ('id \<times> 'id) set" where
  "node_edges nodes =
     {(p, c). c \<in> fst ` set nodes \<and> p \<in> node_parents nodes c \<inter> fst ` set nodes}"


lemma mset_kahn_sort: "mset (kahn_sort nodes) = mset (map fst nodes)"
proof -
  let ?f = "\<lambda>i. fst (nodes ! i)"
  obtain run rest where pos: "kahn_sort nodes = map ?f (run @ rest)"
    "topo_run {0..<length nodes} (\<lambda>i. set (kahn_graph_of nodes i))
       (\<lambda>i. (snd (snd (nodes ! i)), i)) {} run"
    "set rest = {0..<length nodes} - set run" "distinct rest"
    by (rule kahn_sort_positions)
  have "set run \<subseteq> {0..<length nodes}" "distinct run" using topo_run_nodes [OF pos(2)] by auto
  with pos(3,4) have "distinct (run @ rest)" "set (run @ rest) = set [0..<length nodes]" by auto
  then have "mset (run @ rest) = mset [0..<length nodes]"
    using set_eq_iff_mset_eq_distinct [of "run @ rest" "[0..<length nodes]"] by simp
  then have "image_mset ?f (mset (run @ rest)) = image_mset ?f (mset [0..<length nodes])" by simp
  moreover have "map ?f [0..<length nodes] = map fst nodes"
    by (rule nth_equalityI) auto
  ultimately show ?thesis using pos(1) by (metis mset_map)
qed

lemma set_kahn_sort: "set (kahn_sort nodes) = fst ` set nodes"
  using mset_kahn_sort [of nodes] by (metis list.set_map mset_eq_setD)

lemma kahn_sort_parents_first:
  assumes "distinct (map fst nodes)" and "acyclic (node_edges nodes)"
    and "kahn_sort nodes = xs @ c # ys" and "(p, c) \<in> node_edges nodes"
  shows "p \<in> set xs"
proof -
  obtain run rest where run: "kahn_sort nodes = run @ rest"
    "topo_run (fst ` set nodes) (node_parents nodes) (node_key nodes) {} run"
    "set rest = fst ` set nodes - set run"
    by (rule kahn_sort_refines [OF assms(1)])
  have "node_edges nodes \<subseteq> (fst ` set nodes) \<times> (fst ` set nodes)" by (auto simp: node_edges_def)
  then have "finite (node_edges nodes)" by (rule finite_subset) auto
  then have "wf (node_edges nodes)" using assms(2) by (rule finite_acyclic_wf)
  then have "set run = fst ` set nodes"
    using topo_run_complete [OF run(2)] by (simp add: node_edges_def)
  with run have "run = xs @ c # ys" using assms(3) by simp
  moreover have "p \<in> node_parents nodes c \<inter> fst ` set nodes"
    using assms(4) by (simp add: node_edges_def)
  ultimately show ?thesis using topo_run_parents [OF run(2)] by simp
qed

lemma kahn_sort_sorted:
  assumes "distinct (map fst nodes)"
  shows "topo_sorted (fst ` set nodes) (node_parents nodes) (node_key nodes) (kahn_sort nodes)"
  using kahn_sort_refines [OF assms] unfolding topo_sorted_def by metis

lemma kahn_sort_cong:
  assumes "distinct (map fst nodes)" and "distinct (map fst nodes')"
    and same: "fst ` set nodes = fst ` set nodes'"
      "\<And>x. x \<in> fst ` set nodes \<Longrightarrow> node_parents nodes x = node_parents nodes' x"
      "\<And>x. x \<in> fst ` set nodes \<Longrightarrow> node_key nodes x = node_key nodes' x"
    and inj: "inj_on (node_key nodes) (fst ` set nodes)"
  shows "kahn_sort nodes = kahn_sort nodes'"
  using kahn_sort_sorted [OF assms(1)] kahn_sort_sorted [OF assms(2), folded same(1)] _ _ inj
  by (rule topo_sorted_unique) (simp_all add: same(2,3))

section \<open>Properties\<close>

text \<open>
  C23: On an acyclic graph the sort puts every parent before its children. Parents that are
  not among the nodes are ignored.
\<close>
theorem kahn_sort_topological:
  assumes "distinct (map fst nodes)" and "acyclic (node_edges nodes)"
    and "kahn_sort nodes = xs @ c # ys" and "(p, c) \<in> node_edges nodes"
  shows "p \<in> set xs"
  using assms by (rule kahn_sort_parents_first)

theorem kahn_sort_topological_witness:
  "\<exists>nodes :: (string \<times> string list \<times> nat) list.
     nodes = [(''b'', [''a'', ''z''], 5), (''a'', [], 7)] \<and>
     kahn_sort nodes = [''a'', ''b''] \<and> (''a'', ''b'') \<in> node_edges nodes \<and> ''a'' \<in> set [''a'']"
proof -
  let ?nodes = "[(''b'', [''a'', ''z''], 5 :: nat), (''a'', [], 7)]"
  have edges: "node_edges ?nodes = {(''a'', ''b'')}"
    by (auto simp: node_edges_def node_parents_def split: if_splits)
  have sort: "kahn_sort ?nodes = [''a''] @ ''b'' # []" by code_simp
  have "distinct (map fst ?nodes)" by simp
  moreover have "acyclic ({} :: (string \<times> string) set)" by (simp add: acyclic_def)
  then have "acyclic (node_edges ?nodes)" unfolding edges by (simp add: acyclic_insert)
  moreover have "(''a'', ''b'') \<in> node_edges ?nodes" by (simp add: edges)
  ultimately have "''a'' \<in> set [''a'']" using sort by (blast intro: kahn_sort_topological)
  with sort edges show ?thesis by auto
qed

text \<open>
  The sort depends only on the set of nodes, each with its set of parents and its key:
  with distinct keys, neither the order in which a hash map yields the nodes nor the order
  or repetition of their parents can change the result. Two servers that hold the same
  events therefore compute the same order.
\<close>
lemma kahn_sort_deterministic:
  assumes "distinct (map fst nodes)" and "distinct (map fst nodes')"
    and same: "fst ` set nodes = fst ` set nodes'"
      "\<And>x. x \<in> fst ` set nodes \<Longrightarrow> node_parents nodes x = node_parents nodes' x"
      "\<And>x. x \<in> fst ` set nodes \<Longrightarrow> node_key nodes x = node_key nodes' x"
    and inj: "inj_on (node_key nodes) (fst ` set nodes)"
  shows "kahn_sort nodes = kahn_sort nodes'"
  using assms by (rule kahn_sort_cong)

theorem kahn_sort_deterministic_witness:
  "kahn_sort [(''b'', [''a''], 1 :: nat), (''a'', [], 2), (''c'', [], 3)] =
   kahn_sort [(''c'', [], 3 :: nat), (''a'', [], 2), (''b'', [''a'', ''a''], 1)]"
  by (rule kahn_sort_deterministic)
    (auto simp: node_parents_def node_key_def inj_on_def split: if_splits)

end
