(* ===== verification/Room_Version.thy ===== *)
theory Room_Version
  imports Prelude
begin

text \<open>
  Room versions and the feature table that the authorisation rules and state resolution
  branch on (\<^verbatim>\<open>core/matrix/state_res/room_version.rs\<close>, \<^verbatim>\<open>core/info/room_version.rs\<close>), and
  the error type of state resolution (\<^verbatim>\<open>state_res/error.rs\<close>).
\<close>

section \<open>Errors\<close>

text \<open>
  \<open>Codec\<close> stands for a decoding error (its message belongs to the codec). \<open>Panic\<close> is not a
  constructor of the source's enum: it marks the calls of \<^verbatim>\<open>unwrap\<close> that abort.
\<close>

datatype sr_error =
    Codec
  | Unsupported string
  | NotFound string
  | InvalidPdu string
  | Panic string

type_synonym 'a sres = "(sr_error, 'a) result"

section \<open>The feature table\<close>

datatype room_disposition = Stable | Unstable

datatype event_format_version = EventV1 | EventV2 | EventV3

datatype state_resolution_version = StateV1 | StateV2 | StateV2_1 | StateV2_1_1

fun state_version_rank :: "state_resolution_version \<Rightarrow> nat" where
  "state_version_rank StateV1 = 0"
| "state_version_rank StateV2 = 1"
| "state_version_rank StateV2_1 = 2"
| "state_version_rank StateV2_1_1 = 3"

lemma state_version_rank_inj: "state_version_rank a = state_version_rank b \<Longrightarrow> a = b"
  by (cases a; cases b) simp_all

text \<open>The derived order of the enum is the order of its constructors.\<close>

instantiation state_resolution_version :: linorder
begin

definition less_eq_state_resolution_version where
  "less_eq_state_resolution_version a b \<longleftrightarrow> state_version_rank a \<le> state_version_rank b"

definition less_state_resolution_version where
  "less_state_resolution_version a b \<longleftrightarrow> state_version_rank a < state_version_rank b"

instance
  by standard
    (auto simp: less_eq_state_resolution_version_def less_state_resolution_version_def
      dest: state_version_rank_inj)

end

definition begin_iterative_auth_checks_with_empty_state_map :: "state_resolution_version \<Rightarrow> bool" where
  "begin_iterative_auth_checks_with_empty_state_map v \<longleftrightarrow> v = StateV2_1_1"

record room_version =
  disposition :: room_disposition
  event_format :: event_format_version
  state_res :: state_resolution_version
  enforce_key_validity :: bool
  special_case_aliases_auth :: bool
  strict_canonicaljson :: bool
  limit_notifications_power_levels :: bool
  extra_redaction_checks :: bool
  allow_knocking :: bool
  restricted_join_rules :: bool
  knock_restricted_join_rule :: bool
  integer_power_levels :: bool
  use_room_create_sender :: bool
  explicitly_privilege_room_creators :: bool
  room_ids_as_hashes :: bool

definition room_v1 :: room_version where
  "room_v1 = \<lparr>disposition = Stable, event_format = EventV1, state_res = StateV1,
     enforce_key_validity = False, special_case_aliases_auth = True,
     strict_canonicaljson = False, limit_notifications_power_levels = False,
     extra_redaction_checks = True, allow_knocking = False, restricted_join_rules = False,
     knock_restricted_join_rule = False, integer_power_levels = False,
     use_room_create_sender = False, explicitly_privilege_room_creators = False,
     room_ids_as_hashes = False\<rparr>"

definition room_v2 :: room_version where
  "room_v2 = room_v1\<lparr>state_res := StateV2\<rparr>"

definition room_v3 :: room_version where
  "room_v3 = room_v2\<lparr>event_format := EventV2, extra_redaction_checks := False\<rparr>"

definition room_v4 :: room_version where
  "room_v4 = room_v3\<lparr>event_format := EventV3\<rparr>"

definition room_v5 :: room_version where
  "room_v5 = room_v4\<lparr>enforce_key_validity := True\<rparr>"

definition room_v6 :: room_version where
  "room_v6 = room_v5\<lparr>special_case_aliases_auth := False, strict_canonicaljson := True,
     limit_notifications_power_levels := True\<rparr>"

definition room_v7 :: room_version where
  "room_v7 = room_v6\<lparr>allow_knocking := True\<rparr>"

definition room_v8 :: room_version where
  "room_v8 = room_v7\<lparr>restricted_join_rules := True\<rparr>"

definition room_v9 :: room_version where
  "room_v9 = room_v8"

definition room_v10 :: room_version where
  "room_v10 = room_v9\<lparr>knock_restricted_join_rule := True, integer_power_levels := True\<rparr>"

definition room_v11 :: room_version where
  "room_v11 = room_v10\<lparr>use_room_create_sender := True\<rparr>"

definition room_v12 :: room_version where
  "room_v12 = room_v11\<lparr>state_res := StateV2_1, explicitly_privilege_room_creators := True,
     room_ids_as_hashes := True\<rparr>"

definition room_v12_1 :: room_version where
  "room_v12_1 = room_v12\<lparr>state_res := StateV2_1_1\<rparr>"

lemmas room_version_defs =
  room_v1_def room_v2_def room_v3_def room_v4_def room_v5_def room_v6_def room_v7_def
  room_v8_def room_v9_def room_v10_def room_v11_def room_v12_def room_v12_1_def

definition strips_room_id :: "room_version \<Rightarrow> bool \<Rightarrow> bool" where
  "strips_room_id rv is_create \<longleftrightarrow> room_ids_as_hashes rv \<and> is_create"

section \<open>Version identifiers\<close>

text \<open>The twelve specified versions, or a version string that is none of them.\<close>

datatype room_version_id =
    V1 | V2 | V3 | V4 | V5 | V6 | V7 | V8 | V9 | V10 | V11 | V12 | Custom string

definition is_msc3389 :: "room_version_id \<Rightarrow> bool" where
  "is_msc3389 v \<longleftrightarrow> v = Custom ''org.matrix.msc3389.10''"

definition is_msc4311 :: "room_version_id \<Rightarrow> bool" where
  "is_msc4311 v \<longleftrightarrow> v = Custom ''org.matrix.msc4311.10''"

definition has_msc4311_stripped_state_validation :: "room_version_id \<Rightarrow> bool" where
  "has_msc4311_stripped_state_validation v \<longleftrightarrow> is_msc4311 v \<or> v = V12"

definition room_version_new :: "room_version_id \<Rightarrow> room_version sres" where
  "room_version_new v =
     (case v of
        V1 \<Rightarrow> Inr room_v1 | V2 \<Rightarrow> Inr room_v2 | V3 \<Rightarrow> Inr room_v3 | V4 \<Rightarrow> Inr room_v4
      | V5 \<Rightarrow> Inr room_v5 | V6 \<Rightarrow> Inr room_v6 | V7 \<Rightarrow> Inr room_v7 | V8 \<Rightarrow> Inr room_v8
      | V9 \<Rightarrow> Inr room_v9 | V10 \<Rightarrow> Inr room_v10 | V11 \<Rightarrow> Inr room_v11 | V12 \<Rightarrow> Inr room_v12
      | Custom s \<Rightarrow>
          if s = ''12.1'' then Inr room_v12_1
          else if is_msc3389 v then Inr room_v10
          else if is_msc4311 v then Inr room_v10
          else Inl (Unsupported s))"

text \<open>The choice of algorithm at the start of \<^verbatim>\<open>resolve\<close>.\<close>

definition stateres_version_of :: "room_version_id \<Rightarrow> state_resolution_version" where
  "stateres_version_of v =
     (case v of
        V1 \<Rightarrow> StateV1
      | V2 \<Rightarrow> StateV2 | V3 \<Rightarrow> StateV2 | V4 \<Rightarrow> StateV2 | V5 \<Rightarrow> StateV2 | V6 \<Rightarrow> StateV2
      | V7 \<Rightarrow> StateV2 | V8 \<Rightarrow> StateV2 | V9 \<Rightarrow> StateV2 | V10 \<Rightarrow> StateV2 | V11 \<Rightarrow> StateV2
      | _ \<Rightarrow> StateV2_1)"

text \<open>
  The features of the room versions are coherent: creators are privileged exactly where room
  identifiers are hashes; such versions take the creator from the sender, use integer power
  levels and resolve state with version 2.1 or later, the others with an earlier one.
\<close>

definition coherent :: "room_version \<Rightarrow> bool" where
  "coherent rv \<longleftrightarrow>
     explicitly_privilege_room_creators rv = room_ids_as_hashes rv \<and>
     (room_ids_as_hashes rv \<longrightarrow> use_room_create_sender rv \<and> StateV2_1 \<le> state_res rv) \<and>
     (\<not> room_ids_as_hashes rv \<longrightarrow> state_res rv < StateV2_1) \<and>
     (use_room_create_sender rv \<longrightarrow> integer_power_levels rv) \<and>
     (knock_restricted_join_rule rv \<longrightarrow> allow_knocking rv \<and> restricted_join_rules rv)"

lemma coherent_versions:
  "coherent room_v1" "coherent room_v2" "coherent room_v3" "coherent room_v4" "coherent room_v5"
  "coherent room_v6" "coherent room_v7" "coherent room_v8" "coherent room_v9" "coherent room_v10"
  "coherent room_v11" "coherent room_v12" "coherent room_v12_1"
  by (simp_all add: coherent_def room_version_defs less_eq_state_resolution_version_def
      less_state_resolution_version_def)

lemma room_version_new_coherent: "room_version_new v = Inr rv \<Longrightarrow> coherent rv"
  unfolding room_version_new_def
  by (cases v) (auto simp: coherent_versions split: if_split_asm)

end
