(* ===== verification/Event_Model.thy ===== *)
theory Event_Model
  imports Room_Version
begin

text \<open>
  Events as state resolution sees them through the \<^verbatim>\<open>Event\<close> trait (\<^verbatim>\<open>core/matrix/event.rs\<close>,
  \<^verbatim>\<open>core/matrix/pdu.rs\<close>), and the interface to the JSON codec. The codec is a third-party
  package: the record \<open>codec\<close> lists the functions of it that the sources call, every
  definition that decodes event content takes it as an argument, and the type of JSON values
  is left open.
\<close>

section \<open>Event types\<close>

text \<open>
  \<^verbatim>\<open>TimelineEventType\<close> and \<^verbatim>\<open>StateEventType\<close> are two views of the same strings, converted by
  \<^verbatim>\<open>with_state_key\<close>; one type models both. The types the rules mention are constructors.
\<close>

datatype event_type =
    RoomAliases
  | RoomCreate
  | RoomJoinRules
  | RoomMember
  | RoomPowerLevels
  | RoomRedaction
  | RoomThirdPartyInvite
  | OtherType string

fun event_type_rank :: "event_type \<Rightarrow> nat \<times> string" where
  "event_type_rank RoomAliases = (0, '''')"
| "event_type_rank RoomCreate = (1, '''')"
| "event_type_rank RoomJoinRules = (2, '''')"
| "event_type_rank RoomMember = (3, '''')"
| "event_type_rank RoomPowerLevels = (4, '''')"
| "event_type_rank RoomRedaction = (5, '''')"
| "event_type_rank RoomThirdPartyInvite = (6, '''')"
| "event_type_rank (OtherType s) = (7, s)"

lemma event_type_rank_inj: "event_type_rank a = event_type_rank b \<Longrightarrow> a = b"
  by (cases a; cases b) simp_all

text \<open>
  State keys are sorted before a binary search. Any linear order serves; the result of the
  search does not depend on which one it is.
\<close>

instantiation event_type :: linorder
begin

definition less_eq_event_type where
  "less_eq_event_type a b \<longleftrightarrow> event_type_rank a \<le> event_type_rank b"

definition less_event_type where
  "less_event_type a b \<longleftrightarrow> event_type_rank a < event_type_rank b"

instance
  by standard (auto simp: less_eq_event_type_def less_event_type_def dest: event_type_rank_inj)

end

section \<open>Events\<close>

type_synonym event_id = string
type_synonym user_id = string
type_synonym room_id = string
type_synonym type_state_key = "event_type \<times> string"

text \<open>
  The fields of \<^verbatim>\<open>Pdu\<close> that authorisation and resolution read. \<open>ev_content\<close> is the raw JSON
  text; timestamps and depths are unsigned and are only compared.
\<close>

record event =
  ev_id :: event_id
  ev_room_id :: "room_id option"
  ev_sender :: user_id
  ev_ts :: nat
  ev_kind :: event_type
  ev_content :: string
  ev_state_key :: "string option"
  ev_prev :: "event_id list"
  ev_auth :: "event_id list"
  ev_redacts :: "event_id option"
  ev_rejected :: bool

text \<open>Decoded content types of the codec, with the fields the sources read.\<close>

datatype membership = Join | Invite | Leave | Ban | Knock | OtherMembership string

datatype join_rule =
    RulePublic
  | RuleInvite
  | RuleKnock
  | RuleRestricted
  | RuleKnockRestricted
  | OtherRule string

record third_party_invite =
  tp_mxid :: user_id
  tp_token :: string

record create_content =
  cc_creator :: "user_id option"
  cc_room_version :: room_version_id
  cc_additional_creators :: "user_id list option"

record power_levels =
  pl_ban :: int
  pl_events :: "(event_type \<times> int) list"
  pl_events_default :: int
  pl_invite :: int
  pl_kick :: int
  pl_redact :: int
  pl_state_default :: int
  pl_users :: "(user_id \<times> int) list"
  pl_users_default :: int
  pl_notifications_room :: int

record 'v third_party_content =
  tpc_public_keys :: "'v list option"
  tpc_public_key :: "string option"

text \<open>The largest \<^verbatim>\<open>Int\<close>; power levels are 64-bit signed integers that are only compared.\<close>

definition int_max :: int where
  "int_max = 2 ^ 63 - 1"

section \<open>The codec interface\<close>

record 'v codec =
  c_parse :: "string \<Rightarrow> 'v option"
  c_get :: "'v \<Rightarrow> string \<Rightarrow> 'v option"
  c_is_null :: "'v \<Rightarrow> bool"
  c_object :: "'v \<Rightarrow> (string \<times> 'v) list option"
  c_array :: "'v \<Rightarrow> 'v list option"
  c_bool :: "'v \<Rightarrow> bool option"
  c_i64 :: "'v \<Rightarrow> int option"
  c_str :: "'v \<Rightarrow> string option"
  c_membership :: "'v \<Rightarrow> membership option"
  c_user_id :: "'v \<Rightarrow> user_id option"
  c_room_version :: "'v \<Rightarrow> room_version_id option"
  c_third_party :: "'v \<Rightarrow> third_party_invite option"
  c_int :: "'v \<Rightarrow> int option"
  c_event_levels :: "'v \<Rightarrow> (event_type \<times> int) list option"
  c_user_levels :: "'v \<Rightarrow> (user_id \<times> int) list option"
  c_power_levels :: "string \<Rightarrow> power_levels option"
  c_power_levels_value :: "power_levels \<Rightarrow> 'v"
  c_power_levels_default :: power_levels
  c_default_level :: int
  c_join_rule :: "string \<Rightarrow> join_rule option"
  c_create :: "string \<Rightarrow> create_content option"
  c_member :: "string \<Rightarrow> membership option"
  c_third_party_content :: "string \<Rightarrow> 'v third_party_content option"
  c_base64 :: "string \<Rightarrow> string option"
  c_valid_user :: "string \<Rightarrow> bool"
  c_user_server :: "user_id \<Rightarrow> string"
  c_room_server :: "room_id \<Rightarrow> string option"
  c_event_server :: "event_id \<Rightarrow> string option"
  c_room_new_v2 :: "string \<Rightarrow> room_id option"
  c_event_id :: "string \<Rightarrow> event_id option"

text \<open>
  \<^verbatim>\<open>room_id_or_hash\<close>: the room identifier, or for a create event without one the
  identifier made from its reference hash.
\<close>

definition room_id_or_hash :: "'v codec \<Rightarrow> event \<Rightarrow> room_id option" where
  "room_id_or_hash c ev =
     (case ev_room_id ev of
        Some r \<Rightarrow> Some r
      | None \<Rightarrow>
          if ev_kind ev = RoomCreate
          then (case ev_id ev of
                  ch # h \<Rightarrow> if ch = CHR ''$'' then c_room_new_v2 c h else None
                | [] \<Rightarrow> None)
          else None)"

definition with_state_key :: "event_type \<Rightarrow> string \<Rightarrow> type_state_key" where
  "with_state_key t k = (t, k)"

section \<open>Reading content\<close>

definition content_object :: "'v codec \<Rightarrow> string \<Rightarrow> 'v sres" where
  "content_object c s =
     (case c_parse c s of
        None \<Rightarrow> Inl Codec
      | Some v \<Rightarrow> if c_object c v \<noteq> None then Inr v else Inl Codec)"

definition content_optional :: "'v codec \<Rightarrow> 'v \<Rightarrow> string \<Rightarrow> 'v option" where
  "content_optional c v k =
     (case c_get c v k of
        None \<Rightarrow> None
      | Some w \<Rightarrow> if c_is_null c w then None else Some w)"

definition content_required :: "'v codec \<Rightarrow> 'v \<Rightarrow> string \<Rightarrow> 'v sres" where
  "content_required c v k = ok_or (c_get c v k) Codec"

definition membership_of :: "'v codec \<Rightarrow> string \<Rightarrow> membership sres" where
  "membership_of c s =
     try_res (content_object c s) (\<lambda>v.
     try_res (content_required c v ''membership'') (\<lambda>m.
     ok_or (c_membership c m) Codec))"

record 'v room_member_content =
  rm_membership :: "'v option"
  rm_join_authorised_via_users_server :: "'v option"

definition room_member_content_parse :: "'v codec \<Rightarrow> string \<Rightarrow> 'v room_member_content sres" where
  "room_member_content_parse c s =
     try_res (content_object c s) (\<lambda>v.
     Inr \<lparr>rm_membership = content_optional c v ''membership'',
          rm_join_authorised_via_users_server =
            content_optional c v ''join_authorised_via_users_server''\<rparr>)"

record 'v room_create_content =
  rc_room_version :: "'v option"
  rc_creator :: "'v option"
  rc_additional_creators :: "'v list option"
  rc_federate :: bool

definition room_create_content_parse :: "'v codec \<Rightarrow> string \<Rightarrow> 'v room_create_content sres" where
  "room_create_content_parse c s =
     try_res (content_object c s) (\<lambda>v.
     try_res (case content_optional c v ''additional_creators'' of
                None \<Rightarrow> Inr None
              | Some a \<Rightarrow> try_res (ok_or (c_array c a) Codec) (\<lambda>xs. Inr (Some xs))) (\<lambda>additional.
     try_res (case c_get c v ''m.federate'' of
                None \<Rightarrow> Inr True
              | Some f \<Rightarrow> ok_or (c_bool c f) Codec) (\<lambda>federate.
     Inr \<lparr>rc_room_version = content_optional c v ''room_version'',
          rc_creator = content_optional c v ''creator'',
          rc_additional_creators = additional,
          rc_federate = federate\<rparr>)))"

lemma membership_of_parse:
  assumes "membership_of c s = Inr m"
  obtains v w where "content_object c s = Inr v" "c_get c v ''membership'' = Some w"
    "c_membership c w = Some m"
  using assms by (auto simp: membership_of_def content_required_def try_res_eq_Inr)

lemma membership_of_member_content:
  assumes "room_member_content_parse c s = Inr content" and "rm_membership content = Some v"
    and "c_membership c v = Some m"
  shows "membership_of c s = Inr m"
  using assms
  by (auto simp: room_member_content_parse_def membership_of_def content_optional_def
      content_required_def try_res_eq_Inr split: option.splits if_split_asm)

end
