(* ===== verification/Text_Num.thy ===== *)
theory Text_Num
  imports Prelude
begin

text \<open>
  Decimal integers as text: \<^verbatim>\<open>str::parse\<close> for \<^verbatim>\<open>i64\<close> and \<^verbatim>\<open>u64\<close> and the \<^verbatim>\<open>Display\<close> of
  integers, both of the standard library, and \<^verbatim>\<open>str::split_once\<close>. The lemmas are the round
  trips that the tokens of the timeline rely on.
\<close>

definition is_dec :: "char \<Rightarrow> bool" where
  "is_dec ch \<longleftrightarrow> 48 \<le> (of_char ch :: nat) \<and> (of_char ch :: nat) \<le> 57"

definition dec_val :: "char \<Rightarrow> nat" where
  "dec_val ch = of_char ch - 48"

definition dec_char :: "nat \<Rightarrow> char" where
  "dec_char d = char_of (48 + d)"

fun parse_dec :: "nat \<Rightarrow> string \<Rightarrow> nat option" where
  "parse_dec a [] = Some a"
| "parse_dec a (ch # s) = (if is_dec ch then parse_dec (10 * a + dec_val ch) s else None)"

definition parse_digits :: "string \<Rightarrow> nat option" where
  "parse_digits s = (if s = [] then None else parse_dec 0 s)"

definition parse_i64 :: "string \<Rightarrow> int option" where
  "parse_i64 s =
     (case s of
        [] \<Rightarrow> None
      | ch # r \<Rightarrow>
          if ch = CHR ''-''
          then (case parse_digits r of
                  Some n \<Rightarrow> if n \<le> 2 ^ 63 then Some (- int n) else None
                | None \<Rightarrow> None)
          else (case parse_digits (if ch = CHR ''+'' then r else s) of
                  Some n \<Rightarrow> if n < 2 ^ 63 then Some (int n) else None
                | None \<Rightarrow> None))"

definition parse_u64 :: "string \<Rightarrow> nat option" where
  "parse_u64 s =
     (case s of
        [] \<Rightarrow> None
      | ch # r \<Rightarrow>
          (case parse_digits (if ch = CHR ''+'' then r else s) of
             Some n \<Rightarrow> if n < 2 ^ 64 then Some n else None
           | None \<Rightarrow> None))"

fun show_nat :: "nat \<Rightarrow> string" where
  "show_nat n = (if n < 10 then [dec_char n] else show_nat (n div 10) @ [dec_char (n mod 10)])"

declare show_nat.simps [simp del]

definition show_int :: "int \<Rightarrow> string" where
  "show_int i = (if i < 0 then CHR ''-'' # show_nat (nat (- i)) else show_nat (nat i))"

fun split_once :: "char \<Rightarrow> string \<Rightarrow> (string \<times> string) option" where
  "split_once d [] = None"
| "split_once d (ch # s) =
     (if ch = d then Some ([], s)
      else map_option (\<lambda>(a, b). (ch # a, b)) (split_once d s))"

lemma dec_char_props: "d < 10 \<Longrightarrow> is_dec (dec_char d) \<and> dec_val (dec_char d) = d"
  by (simp add: is_dec_def dec_val_def dec_char_def)

lemma parse_dec_append:
  "parse_dec a (xs @ ys) = Option.bind (parse_dec a xs) (\<lambda>b. parse_dec b ys)"
  by (induction xs arbitrary: a) auto

lemma parse_dec_show_nat: "parse_dec 0 (show_nat n) = Some n"
proof (induction n rule: show_nat.induct)
  case (1 n)
  show ?case
  proof (cases "n < 10")
    case True
    then show ?thesis by (simp add: show_nat.simps [of n] dec_char_props)
  next
    case False
    with 1 show ?thesis
      by (simp add: show_nat.simps [of n] parse_dec_append dec_char_props)
  qed
qed

lemma show_nat_not_Nil [simp]: "show_nat n \<noteq> []"
  by (subst show_nat.simps) simp

lemma show_nat_digits: "ch \<in> set (show_nat n) \<Longrightarrow> is_dec ch"
proof (induction n rule: show_nat.induct)
  case (1 n)
  then show ?case
    by (cases "n < 10") (auto simp: show_nat.simps [of n] dec_char_props)
qed

lemma parse_digits_show_nat [simp]: "parse_digits (show_nat n) = Some n"
  by (simp add: parse_digits_def parse_dec_show_nat)

lemma hd_show_nat: "\<exists>ch r. show_nat n = ch # r \<and> is_dec ch"
  by (cases "show_nat n") (use show_nat_digits [of _ n] in auto)

lemma signs_not_dec: "\<not> is_dec (CHR ''-'')" "\<not> is_dec (CHR ''+'')" "\<not> is_dec (CHR ''_'')"
  by (simp_all add: is_dec_def)

lemma parse_i64_show_int:
  assumes "- (2 ^ 63) \<le> i" and "i < 2 ^ 63"
  shows "parse_i64 (show_int i) = Some i"
proof (cases "i < 0")
  case True
  with assms(1) have "nat (- i) \<le> 2 ^ 63" by simp
  with True show ?thesis by (simp add: parse_i64_def show_int_def)
next
  case False
  obtain ch r where s: "show_nat (nat i) = ch # r" "is_dec ch" using hd_show_nat by blast
  then have "ch \<noteq> CHR ''-''" "ch \<noteq> CHR ''+''" using signs_not_dec by blast+
  moreover have "parse_digits (ch # r) = Some (nat i)" using s(1) by (metis parse_digits_show_nat)
  ultimately show ?thesis using False assms(2) s(1) by (simp add: parse_i64_def show_int_def)
qed

lemma parse_u64_show_nat:
  assumes "n < 2 ^ 64"
  shows "parse_u64 (show_nat n) = Some n"
proof -
  obtain ch r where s: "show_nat n = ch # r" "is_dec ch" using hd_show_nat by blast
  then have "ch \<noteq> CHR ''+''" using signs_not_dec by blast
  moreover have "parse_digits (ch # r) = Some n" using s(1) by (metis parse_digits_show_nat)
  ultimately show ?thesis using assms s(1) by (simp add: parse_u64_def)
qed

lemma split_once_append: "d \<notin> set a \<Longrightarrow> split_once d (a @ d # b) = Some (a, b)"
  by (induction a) auto

lemma parse_i64_range: "parse_i64 s = Some i \<Longrightarrow> - (2 ^ 63) \<le> i \<and> i < 2 ^ 63"
  by (auto simp: parse_i64_def split: list.splits option.splits if_splits)

end
