(* ===== verification/Power_Levels.thy ===== *)
theory Power_Levels
  imports Event_Model Text_Num
begin

text \<open>
  Reading power levels (\<^verbatim>\<open>state_res/power_levels.rs\<close>): strict integers in the room versions
  that enforce them, integers or integer strings before, and the two partial readings that
  authorisation uses. A user's level is looked up by binary search, which is correct because
  the codec yields the members of an object in the order of their names.
\<close>

datatype level_mode = ModeInteger | ModeLegacy

definition level :: "'v codec \<Rightarrow> 'v \<Rightarrow> level_mode \<Rightarrow> int sres" where
  "level c v mode =
     ok_or (case mode of
              ModeInteger \<Rightarrow> c_i64 c v
            | ModeLegacy \<Rightarrow>
                (case c_i64 c v of
                   Some i \<Rightarrow> Some i
                 | None \<Rightarrow> Option.bind (c_str c v) parse_i64)) Codec"

definition level_or :: "'v codec \<Rightarrow> 'v \<Rightarrow> string \<Rightarrow> int \<Rightarrow> level_mode \<Rightarrow> int sres" where
  "level_or c content key dflt mode =
     (case c_get c content key of None \<Rightarrow> Inr dflt | Some v \<Rightarrow> level c v mode)"

text \<open>The \<^verbatim>\<open>users\<close> member as a list, always read leniently.\<close>

definition users_of :: "'v codec \<Rightarrow> 'v \<Rightarrow> (user_id \<times> int) list sres" where
  "users_of c content =
     (case c_get c content ''users'' of
        None \<Rightarrow> Inr []
      | Some us \<Rightarrow>
          try_res (ok_or (c_object c us) Codec) (\<lambda>members.
          map_res (\<lambda>(user, v).
            if c_valid_user c user
            then try_res (level c v ModeLegacy) (\<lambda>l. Inr (user, l))
            else Inl Codec) members))"

definition int_room_power_levels :: "'v codec \<Rightarrow> string \<Rightarrow> power_levels sres" where
  "int_room_power_levels c s =
     try_res (content_object c s) (\<lambda>content.
     try_res (case c_get c content ''notifications'' of
                None \<Rightarrow> Inr (c_default_level c)
              | Some ns \<Rightarrow>
                  if c_object c ns = None then Inl Codec
                  else level_or c ns ''room'' (c_default_level c) ModeInteger) (\<lambda>notifications.
     try_res (level_or c content ''ban'' (c_default_level c) ModeInteger) (\<lambda>ban.
     try_res (case c_get c content ''events'' of
                None \<Rightarrow> Inr [] | Some v \<Rightarrow> ok_or (c_event_levels c v) Codec) (\<lambda>events.
     try_res (level_or c content ''events_default'' 0 ModeInteger) (\<lambda>events_default.
     try_res (level_or c content ''invite'' 0 ModeInteger) (\<lambda>invite.
     try_res (level_or c content ''kick'' (c_default_level c) ModeInteger) (\<lambda>kick.
     try_res (level_or c content ''redact'' (c_default_level c) ModeInteger) (\<lambda>redact.
     try_res (level_or c content ''state_default'' (c_default_level c) ModeInteger) (\<lambda>state_default.
     try_res (case c_get c content ''users'' of
                None \<Rightarrow> Inr [] | Some v \<Rightarrow> ok_or (c_user_levels c v) Codec) (\<lambda>users.
     try_res (level_or c content ''users_default'' 0 ModeInteger) (\<lambda>users_default.
     Inr \<lparr>pl_ban = ban, pl_events = events, pl_events_default = events_default,
          pl_invite = invite, pl_kick = kick, pl_redact = redact,
          pl_state_default = state_default, pl_users = users,
          pl_users_default = users_default, pl_notifications_room = notifications\<rparr>)))))))))))"

definition deserialize_integer_power_levels :: "'v codec \<Rightarrow> string \<Rightarrow> power_levels option" where
  "deserialize_integer_power_levels c s = res_ok (int_room_power_levels c s)"

definition deserialize_legacy_power_levels :: "'v codec \<Rightarrow> string \<Rightarrow> power_levels option" where
  "deserialize_legacy_power_levels c s = c_power_levels c s"

definition deserialize_power_levels :: "'v codec \<Rightarrow> room_version \<Rightarrow> string \<Rightarrow> power_levels option" where
  "deserialize_power_levels c rv s =
     (if integer_power_levels rv then deserialize_integer_power_levels c s
      else deserialize_legacy_power_levels c s)"

record power_levels_fields =
  plf_users :: "(user_id \<times> int) list"
  plf_users_default :: int

definition plf_from_content :: "'v codec \<Rightarrow> 'v \<Rightarrow> level_mode \<Rightarrow> power_levels_fields sres" where
  "plf_from_content c content mode =
     try_res (users_of c content) (\<lambda>us.
     try_res (level_or c content ''users_default'' 0 mode) (\<lambda>d.
     Inr \<lparr>plf_users = us, plf_users_default = d\<rparr>))"

definition plf_parse :: "'v codec \<Rightarrow> string \<Rightarrow> power_levels_fields sres" where
  "plf_parse c s = try_res (content_object c s) (\<lambda>v. plf_from_content c v ModeLegacy)"

definition get_user_power :: "power_levels_fields \<Rightarrow> user_id \<Rightarrow> int option" where
  "get_user_power f u = map_option (\<lambda>i. snd (plf_users f ! i)) (binary_search fst (plf_users f) u)"

definition level_mode_of :: "room_version \<Rightarrow> level_mode" where
  "level_mode_of rv = (if integer_power_levels rv then ModeInteger else ModeLegacy)"

definition deserialize_power_levels_content_fields ::
  "'v codec \<Rightarrow> room_version \<Rightarrow> string \<Rightarrow> power_levels_fields sres" where
  "deserialize_power_levels_content_fields c rv s =
     try_res (content_object c s) (\<lambda>v. plf_from_content c v (level_mode_of rv))"

definition deserialize_power_levels_content_invite ::
  "'v codec \<Rightarrow> room_version \<Rightarrow> string \<Rightarrow> int sres" where
  "deserialize_power_levels_content_invite c rv s =
     try_res (content_object c s) (\<lambda>v. level_or c v ''invite'' 0 (level_mode_of rv))"

definition deserialize_power_levels_content_redact ::
  "'v codec \<Rightarrow> room_version \<Rightarrow> string \<Rightarrow> int sres" where
  "deserialize_power_levels_content_redact c rv s =
     try_res (content_object c s) (\<lambda>v.
       level_or c v ''redact'' (c_default_level c) (level_mode_of rv))"

text \<open>The level of a user under a reading of the fields: the entry, or the default.\<close>

definition user_level :: "power_levels_fields \<Rightarrow> user_id \<Rightarrow> int" where
  "user_level f u = (case get_user_power f u of Some l \<Rightarrow> l | None \<Rightarrow> plf_users_default f)"

section \<open>The lookup by binary search\<close>

text \<open>
  What the sources rely on: the members of a JSON object are yielded in strictly
  increasing order of their names.
\<close>

definition sorted_members :: "'v codec \<Rightarrow> bool" where
  "sorted_members c \<longleftrightarrow>
     (\<forall>v ms. c_object c v = Some ms \<longrightarrow> sorted (map fst ms) \<and> distinct (map fst ms))"

lemma users_of_names:
  assumes "users_of c content = Inr us" and "c_get c content ''users'' = Some v"
  obtains ms where "c_object c v = Some ms" "map fst us = map fst ms"
proof -
  from assms obtain ms where ms: "c_object c v = Some ms"
    and all: "list_all2 (\<lambda>x y. (\<lambda>(user, v). if c_valid_user c user
      then try_res (level c v ModeLegacy) (\<lambda>l. Inr (user, l)) else Inl Codec) x = Inr y) ms us"
    by (auto simp: users_of_def try_res_eq_Inr map_res_eq_Inr)
  have "map fst us = map fst ms"
    using all by (induction rule: list_all2_induct) (auto simp: try_res_eq_Inr split: if_splits)
  with ms show ?thesis by (rule that)
qed

lemma users_of_sorted:
  assumes "sorted_members c" and "users_of c content = Inr us"
  shows "sorted (map fst us) \<and> distinct (map fst us)"
proof (cases "c_get c content ''users''")
  case None
  with assms(2) show ?thesis by (simp add: users_of_def)
next
  case (Some v)
  then obtain ms where "c_object c v = Some ms" "map fst us = map fst ms"
    using assms(2) by (auto elim: users_of_names)
  with assms(1) show ?thesis unfolding sorted_members_def by metis
qed

lemma plf_from_content_sorted:
  assumes "sorted_members c" and "plf_from_content c v m = Inr f"
  shows "sorted (map fst (plf_users f)) \<and> distinct (map fst (plf_users f))"
  using assms(2) users_of_sorted [OF assms(1)]
  by (auto simp: plf_from_content_def try_res_eq_Inr)

lemma plf_parse_sorted:
  "sorted_members c \<Longrightarrow> plf_parse c s = Inr f \<Longrightarrow>
     sorted (map fst (plf_users f)) \<and> distinct (map fst (plf_users f))"
  using plf_from_content_sorted [of c] by (auto simp: plf_parse_def try_res_eq_Inr)

lemma get_user_power_map_of:
  "sorted (map fst (plf_users f)) \<Longrightarrow> distinct (map fst (plf_users f)) \<Longrightarrow>
     get_user_power f u = map_of (plf_users f) u"
  by (simp add: get_user_power_def binary_search_map_of)

end
