(* ===== verification/Event_Auth.thy ===== *)
theory Event_Auth
  imports Power_Levels
begin

text \<open>
  The authorisation rules of \<^verbatim>\<open>state_res/event_auth.rs\<close>. \<open>auth_check\<close> decides whether an event
  is allowed by the state that \<open>fetch\<close> reads; its stages and the helpers it calls are
  separate definitions, in the order of the source. A verdict is a boolean, an error is a
  value of \<open>sr_error\<close>, and the two calls of \<^verbatim>\<open>unwrap\<close> on decoded create content are \<open>Panic\<close>.
\<close>

section \<open>Which state authorises an event\<close>

definition push_new :: "'a \<Rightarrow> 'a list \<Rightarrow> 'a list" where
  "push_new x xs = (if x \<in> set xs then xs else xs @ [x])"

definition auth_types_for_member ::
  "'v codec \<Rightarrow> string \<Rightarrow> 'v \<Rightarrow> type_state_key list \<Rightarrow> type_state_key list" where
  "auth_types_for_member c state_key content types =
     (case Option.bind (content_optional c content ''membership'') (c_membership c) of
        None \<Rightarrow> types
      | Some m \<Rightarrow>
          let t1 = (if m \<in> {Join, Invite, Knock}
                    then (let t = push_new (RoomJoinRules, '''') types
                          in case Option.bind
                               (content_optional c content ''join_authorised_via_users_server'')
                               (c_user_id c) of
                               Some u \<Rightarrow> push_new (RoomMember, u) t
                             | None \<Rightarrow> t)
                    else types);
              t2 = push_new (RoomMember, state_key) t1
          in if m = Invite
             then (case Option.bind (content_optional c content ''third_party_invite'')
                          (c_third_party c) of
                     Some t \<Rightarrow> push_new (RoomThirdPartyInvite, tp_token t) t2
                   | None \<Rightarrow> t2)
             else t2)"

definition auth_types_for_event ::
  "'v codec \<Rightarrow> event_type \<Rightarrow> user_id \<Rightarrow> string option \<Rightarrow> 'v \<Rightarrow> room_version
     \<Rightarrow> type_state_key list sres" where
  "auth_types_for_event c kind sender state_key content rv =
     (if kind = RoomCreate then Inr []
      else
        let base = (if room_ids_as_hashes rv
                    then [(RoomPowerLevels, ''''), (RoomMember, sender)]
                    else [(RoomPowerLevels, ''''), (RoomMember, sender), (RoomCreate, '''')])
        in case (kind, state_key) of
             (RoomMember, Some sk) \<Rightarrow>
               if c_object c content = None then Inl Codec
               else Inr (auth_types_for_member c sk content base)
           | _ \<Rightarrow> Inr base)"

section \<open>Create events\<close>

definition unsupported_room_version :: "'v codec \<Rightarrow> 'v room_create_content \<Rightarrow> bool" where
  "unsupported_room_version c content =
     (case rc_room_version content of None \<Rightarrow> False | Some v \<Rightarrow> c_room_version c v = None)"

text \<open>For versions with server names in room identifiers: the room and the sender agree.\<close>

definition create_room_domain_ok :: "'v codec \<Rightarrow> room_version \<Rightarrow> event \<Rightarrow> bool" where
  "create_room_domain_ok c rv ev =
     (if room_ids_as_hashes rv then True
      else case ev_room_id ev of
             None \<Rightarrow> True
           | Some r \<Rightarrow> (case c_room_server c r of
                          None \<Rightarrow> False
                        | Some s \<Rightarrow> s = c_user_server c (ev_sender ev)))"

definition auth_check_create :: "'v codec \<Rightarrow> room_version \<Rightarrow> event \<Rightarrow> bool sres" where
  "auth_check_create c rv ev =
     (if ev_prev ev \<noteq> [] then Inr False
      else if \<not> create_room_domain_ok c rv ev then Inr False
      else
        try_res (room_create_content_parse c (ev_content ev)) (\<lambda>content.
        if unsupported_room_version c content then Inr False
        else if \<not> use_room_create_sender rv \<and> \<not> explicitly_privilege_room_creators rv
                \<and> rc_creator content = None then Inr False
        else Inr True))"

section \<open>Checks on every other event\<close>

text \<open>
  Room identifiers, the reference to the create event and federation: \<open>Some False\<close> rejects,
  \<open>Some True\<close> allows (legacy aliases), \<open>None\<close> goes on.
\<close>

definition auth_check_room ::
  "'v codec \<Rightarrow> room_version \<Rightarrow> event \<Rightarrow> event \<Rightarrow> event option \<Rightarrow> 'v room_create_content \<Rightarrow> bool option"
where
  "auth_check_room c rv ev create pl_event create_content =
     (let expected = room_id_or_hash c create;
          expects_room_id = (\<not> room_ids_as_hashes rv);
          claims_create = (ev_id create \<in> set (ev_auth ev))
      in if unsupported_room_version c create_content then Some False
         else if expects_room_id \<and> room_id_or_hash c ev \<noteq> expected then Some False
         else if room_ids_as_hashes rv \<and> claims_create then Some False
         else if \<not> room_ids_as_hashes rv \<and> \<not> claims_create then Some False
         else if (case pl_event of
                    None \<Rightarrow> False
                  | Some pe \<Rightarrow> expects_room_id \<and> room_id_or_hash c pe \<noteq> expected) then Some False
         else if \<not> rc_federate create_content
                 \<and> c_user_server c (ev_sender create) \<noteq> c_user_server c (ev_sender ev)
         then Some False
         else if special_case_aliases_auth rv \<and> ev_kind ev = RoomAliases
         then Some (ev_state_key ev = Some (c_user_server c (ev_sender ev)))
         else None)"

text \<open>Is a user a creator of the room, for the purpose of membership changes?\<close>

definition is_creator ::
  "'v codec \<Rightarrow> room_version \<Rightarrow> user_id set \<Rightarrow> event \<Rightarrow> user_id \<Rightarrow> bool \<Rightarrow> bool sres" where
  "is_creator c rv creators create user have_pls =
     (if explicitly_privilege_room_creators rv then
        if user \<in> creators then Inr True
        else (case room_create_content_parse c (ev_content create) of
                Inl _ \<Rightarrow> Inr False
              | Inr content \<Rightarrow>
                  if ev_sender create = user then Inr True
                  else (case rc_additional_creators content of
                          None \<Rightarrow> Inr False
                        | Some cs \<Rightarrow> Inr (\<exists>v\<in>set cs. c_user_id c v = Some user)))
      else if use_room_create_sender rv \<and> \<not> have_pls then Inr (ev_sender create = user)
      else if \<not> have_pls then
        (case c_create c (ev_content create) of
           None \<Rightarrow> Inl (Panic ''create content'')
         | Some cc \<Rightarrow> (case cc_creator cc of
                         None \<Rightarrow> Inl (Panic ''missing field creator'')
                       | Some u \<Rightarrow> Inr (u = user)))
      else Inr False)"

section \<open>Third-party invites\<close>

definition verify_third_party_invite ::
  "'v codec \<Rightarrow> user_id option \<Rightarrow> user_id \<Rightarrow> third_party_invite \<Rightarrow> event option \<Rightarrow> bool" where
  "verify_third_party_invite c target sender tp current =
     (if target \<noteq> Some (tp_mxid tp) then False
      else case current of
        None \<Rightarrow> False
      | Some tpid \<Rightarrow>
          if ev_state_key tpid \<noteq> Some (tp_token tp) then False
          else if sender \<noteq> ev_sender tpid then False
          else (case c_third_party_content c (ev_content tpid) of
                  None \<Rightarrow> False
                | Some content \<Rightarrow>
                    (case c_base64 c (tp_token tp) of
                       None \<Rightarrow> False
                     | Some tok \<Rightarrow>
                         (\<exists>key\<in>set (case tpc_public_keys content of None \<Rightarrow> [] | Some ks \<Rightarrow> ks).
                            Option.bind (c_get c key ''public_key'') (c_str c) = Some tok)
                         \<or> tpc_public_key content = Some tok)))"

section \<open>Membership changes\<close>

text \<open>What \<^verbatim>\<open>valid_membership_change\<close> computes before it branches on the new membership.\<close>

record membership_facts =
  mf_target_membership :: membership
  mf_third_party :: "third_party_invite option"
  mf_sender :: user_id
  mf_target :: user_id
  mf_sender_membership :: membership
  mf_target_current :: membership
  mf_levels :: power_levels
  mf_sender_power :: "int option"
  mf_target_power :: "int option"
  mf_join_rule :: join_rule
  mf_join_auth_valid :: bool
  mf_sender_creator :: bool
  mf_target_creator :: bool
  mf_after_create :: bool

text \<open>1. The only previous event is the create event.\<close>

definition only_prev_is_create :: "event \<Rightarrow> event \<Rightarrow> bool" where
  "only_prev_is_create ev create =
     (case ev_prev ev of [] \<Rightarrow> False | p # ps \<Rightarrow> p = ev_id create \<and> ps = [])"

definition membership_join :: "room_version \<Rightarrow> membership_facts \<Rightarrow> bool" where
  "membership_join rv m =
     (if mf_after_create m \<and> mf_sender_creator m \<and> mf_target_creator m then True
      else
        let allows = mf_target_current m \<in> {Join, Invite} in
        if mf_sender m \<noteq> mf_target m then False
        else if mf_target_current m = Ban then False
        else if mf_target_current m = Join then True
        else (case mf_join_rule m of
                RuleInvite \<Rightarrow> allows
              | RuleKnock \<Rightarrow> if \<not> allow_knocking rv then False else allows
              | RuleKnockRestricted \<Rightarrow>
                  if \<not> knock_restricted_join_rule rv then False
                  else allows \<or> mf_join_auth_valid m
              | RuleRestricted \<Rightarrow> allows \<or> mf_join_auth_valid m
              | RulePublic \<Rightarrow> True
              | OtherRule _ \<Rightarrow> False))"

definition at_least :: "int option \<Rightarrow> int \<Rightarrow> bool" where
  "at_least p l = (case p of None \<Rightarrow> False | Some x \<Rightarrow> l \<le> x)"

definition membership_invite ::
  "'v codec \<Rightarrow> membership_facts \<Rightarrow> event option \<Rightarrow> bool" where
  "membership_invite c m current_tp =
     (case mf_third_party m of
        Some tp \<Rightarrow>
          if mf_target_current m = Ban then False
          else verify_third_party_invite c (Some (mf_target m)) (mf_sender m) tp current_tp
      | None \<Rightarrow>
          if mf_sender_membership m \<noteq> Join then False
          else if mf_target_current m \<in> {Join, Ban} then False
          else mf_sender_creator m \<or> at_least (mf_sender_power m) (pl_invite (mf_levels m)))"

definition can_unban :: "membership_facts \<Rightarrow> bool" where
  "can_unban m =
     (if mf_target_current m = Ban
      then (mf_sender_creator m \<and> \<not> mf_target_creator m)
           \<or> at_least (mf_sender_power m) (pl_ban (mf_levels m))
      else True)"

definition can_kick :: "membership_facts \<Rightarrow> bool" where
  "can_kick m =
     (if mf_target_current m \<notin> {Ban, Leave}
      then if mf_sender_creator m \<and> \<not> mf_target_creator m then True
           else if \<not> at_least (mf_sender_power m) (pl_kick (mf_levels m)) then False
           else (case mf_sender_power m of
                   Some sp \<Rightarrow> (case mf_target_power m of Some tp \<Rightarrow> tp < sp | None \<Rightarrow> True)
                 | None \<Rightarrow> False)
      else True)"

definition membership_leave :: "membership_facts \<Rightarrow> bool" where
  "membership_leave m =
     (if mf_sender m = mf_target m then mf_target_current m \<in> {Join, Invite, Knock}
      else if mf_sender_membership m \<noteq> Join then False
      else if \<not> (can_unban m \<and> can_kick m) then False
      else if \<not> can_kick m then False
      else True)"

definition membership_ban :: "membership_facts \<Rightarrow> bool" where
  "membership_ban m =
     (if mf_sender_membership m \<noteq> Join then False
      else (mf_sender_creator m \<and> \<not> mf_target_creator m)
           \<or> (at_least (mf_sender_power m) (pl_ban (mf_levels m))
              \<and> mf_target_power m < mf_sender_power m))"

definition membership_knock :: "room_version \<Rightarrow> membership_facts \<Rightarrow> bool" where
  "membership_knock rv m =
     (if mf_join_rule m \<notin> {RuleKnockRestricted, RuleKnock} then False
      else if mf_join_rule m = RuleKnockRestricted \<and> \<not> knock_restricted_join_rule rv then False
      else if mf_sender m \<noteq> mf_target m then False
      else if mf_sender_membership m \<in> {Ban, Invite, Join} then False
      else True)"

definition membership_verdict ::
  "'v codec \<Rightarrow> room_version \<Rightarrow> membership_facts \<Rightarrow> event option \<Rightarrow> bool" where
  "membership_verdict c rv m current_tp =
     (case mf_target_membership m of
        Join \<Rightarrow> membership_join rv m
      | Invite \<Rightarrow> membership_invite c m current_tp
      | Leave \<Rightarrow> membership_leave m
      | Ban \<Rightarrow> membership_ban m
      | Knock \<Rightarrow> if allow_knocking rv then membership_knock rv m else False
      | OtherMembership _ \<Rightarrow> False)"

text \<open>The level of a user in the decoded power levels, and the levels of creators.\<close>

definition power_of :: "power_levels \<Rightarrow> user_id \<Rightarrow> int option" where
  "power_of pl u = (case map_of (pl_users pl) u of
     Some l \<Rightarrow> Some l | None \<Rightarrow> Some (pl_users_default pl))"

definition membership_creators ::
  "'v codec \<Rightarrow> room_version \<Rightarrow> event \<Rightarrow> 'v room_create_content \<Rightarrow> user_id set" where
  "membership_creators c rv create content =
     insert (ev_sender create)
       (if explicitly_privilege_room_creators rv
        then (case rc_additional_creators content of
                None \<Rightarrow> {}
              | Some cs \<Rightarrow> set (List.map_filter (c_user_id c) cs))
        else {})"

definition privileged_power ::
  "room_version \<Rightarrow> user_id set \<Rightarrow> power_levels \<Rightarrow> user_id \<Rightarrow> int option" where
  "privileged_power rv creators pl u =
     (if explicitly_privilege_room_creators rv \<and> u \<in> creators then Some int_max else power_of pl u)"

text \<open>May the user named in \<^verbatim>\<open>join_authorised_via_users_server\<close> invite?\<close>

definition join_auth_valid ::
  "'v codec \<Rightarrow> room_version \<Rightarrow> user_id set \<Rightarrow> event \<Rightarrow> event option \<Rightarrow> user_id option \<Rightarrow> membership
     \<Rightarrow> bool sres" where
  "join_auth_valid c rv creators create pl_event auth_user auth_membership =
     (case auth_user of
        None \<Rightarrow> Inr False
      | Some u \<Rightarrow>
          try_res (case pl_event of
                     None \<Rightarrow> Inr (0, 0)
                   | Some pl \<Rightarrow>
                       try_res (deserialize_power_levels_content_invite c rv (ev_content pl)) (\<lambda>invite.
                       try_res (deserialize_power_levels_content_fields c rv (ev_content pl)) (\<lambda>f.
                       Inr (user_level f u, invite)))) (\<lambda>levels.
          try_res (is_creator c rv creators create u (pl_event \<noteq> None)) (\<lambda>creator.
          Inr (auth_membership = Join \<and> (creator \<or> snd levels \<le> fst levels)))))"

definition membership_or_leave :: "'v codec \<Rightarrow> event option \<Rightarrow> membership sres" where
  "membership_or_leave c e =
     (case e of None \<Rightarrow> Inr Leave | Some pdu \<Rightarrow> membership_of c (ev_content pdu))"

definition membership_facts_of ::
  "'v codec \<Rightarrow> room_version \<Rightarrow> user_id \<Rightarrow> event option \<Rightarrow> event option \<Rightarrow> event \<Rightarrow> event option
     \<Rightarrow> event option \<Rightarrow> user_id option \<Rightarrow> membership \<Rightarrow> event \<Rightarrow> membership_facts sres" where
  "membership_facts_of c rv target target_event sender_event ev pl_event jr_event
     auth_user auth_membership create =
     try_res (room_create_content_parse c (ev_content create)) (\<lambda>create_content.
     try_res (membership_of c (ev_content ev)) (\<lambda>target_membership.
     try_res (content_object c (ev_content ev)) (\<lambda>content.
     try_res (membership_or_leave c sender_event) (\<lambda>sender_membership.
     try_res (membership_or_leave c target_event) (\<lambda>target_current.
     try_res (case pl_event of
                None \<Rightarrow> Inr (c_power_levels_default c)
              | Some e \<Rightarrow> ok_or (c_power_levels c (ev_content e)) (InvalidPdu ''power levels'')) (\<lambda>levels.
     let creators = membership_creators c rv create create_content in
     try_res (case jr_event of
                None \<Rightarrow> Inr RuleInvite
              | Some jr \<Rightarrow> ok_or (c_join_rule c (ev_content jr)) Codec) (\<lambda>rule.
     try_res (join_auth_valid c rv creators create pl_event auth_user auth_membership) (\<lambda>auth_valid.
     try_res (is_creator c rv creators create (ev_sender ev) (pl_event \<noteq> None)) (\<lambda>sender_creator.
     try_res (is_creator c rv creators create target (pl_event \<noteq> None)) (\<lambda>target_creator.
     Inr \<lparr>mf_target_membership = target_membership,
          mf_third_party =
            Option.bind (content_optional c content ''third_party_invite'') (c_third_party c),
          mf_sender = ev_sender ev, mf_target = target,
          mf_sender_membership = sender_membership, mf_target_current = target_current,
          mf_levels = levels,
          mf_sender_power = privileged_power rv creators levels (ev_sender ev),
          mf_target_power = privileged_power rv creators levels target,
          mf_join_rule = rule, mf_join_auth_valid = auth_valid,
          mf_sender_creator = sender_creator, mf_target_creator = target_creator,
          mf_after_create = only_prev_is_create ev create\<rparr>))))))))))"

definition valid_membership_change ::
  "'v codec \<Rightarrow> room_version \<Rightarrow> user_id \<Rightarrow> event option \<Rightarrow> event option \<Rightarrow> event \<Rightarrow> event option
     \<Rightarrow> event option \<Rightarrow> event option \<Rightarrow> user_id option \<Rightarrow> membership \<Rightarrow> event \<Rightarrow> bool sres" where
  "valid_membership_change c rv target target_event sender_event ev current_tp pl_event jr_event
     auth_user auth_membership create =
     try_res (membership_facts_of c rv target target_event sender_event ev pl_event jr_event
                auth_user auth_membership create) (\<lambda>m.
     Inr (membership_verdict c rv m current_tp))"

section \<open>Sending events\<close>

definition get_send_level :: "'v codec \<Rightarrow> event_type \<Rightarrow> string option \<Rightarrow> event option \<Rightarrow> int" where
  "get_send_level c kind state_key ple =
     (case Option.bind ple (\<lambda>e. c_power_levels c (ev_content e)) of
        Some pl \<Rightarrow>
          (case map_of (pl_events pl) kind of
             Some l \<Rightarrow> l
           | None \<Rightarrow> if state_key \<noteq> None then pl_state_default pl else pl_events_default pl)
      | None \<Rightarrow> if state_key \<noteq> None then 50 else 0)"

definition starts_with_at :: "string \<Rightarrow> bool" where
  "starts_with_at s = (case s of [] \<Rightarrow> False | ch # _ \<Rightarrow> ch = CHR ''@'')"

definition can_send_event :: "'v codec \<Rightarrow> event \<Rightarrow> event option \<Rightarrow> int \<Rightarrow> bool" where
  "can_send_event c ev ple lvl =
     (if lvl < get_send_level c (ev_kind ev) (ev_state_key ev) ple then False
      else if (case ev_state_key ev of None \<Rightarrow> False | Some k \<Rightarrow> starts_with_at k)
              \<and> ev_state_key ev \<noteq> Some (ev_sender ev) then False
      else True)"

definition check_redaction :: "'v codec \<Rightarrow> event \<Rightarrow> int \<Rightarrow> int \<Rightarrow> bool" where
  "check_redaction c ev lvl redact_level =
     (if redact_level \<le> lvl then True
      else c_event_server c (ev_id ev) = Option.bind (ev_redacts ev) (c_event_server c))"

section \<open>Power level events\<close>

text \<open>
  The three loops of \<^verbatim>\<open>check_power_levels\<close>. Each returns \<^verbatim>\<open>Some(false)\<close> at the first entry that is
  not acceptable, so a loop passes if every entry is.
\<close>

definition user_change_ok ::
  "user_id \<Rightarrow> int \<Rightarrow> user_id set \<Rightarrow> power_levels \<Rightarrow> power_levels \<Rightarrow> user_id \<Rightarrow> bool" where
  "user_change_ok sender lvl creators old new user =
     (let old_level = map_of (pl_users old) user; new_level = map_of (pl_users new) user in
      if old_level \<noteq> None \<and> new_level \<noteq> None \<and> old_level = new_level then True
      else if user \<in> creators then True
      else if user \<noteq> sender \<and> old_level = Some lvl then False
      else if old_level > Some lvl then False
      else if new_level > Some lvl then False
      else True)"

definition event_change_ok :: "int \<Rightarrow> power_levels \<Rightarrow> power_levels \<Rightarrow> event_type \<Rightarrow> bool" where
  "event_change_ok lvl old new kind =
     (let old_level = map_of (pl_events old) kind; new_level = map_of (pl_events new) kind in
      if old_level \<noteq> None \<and> new_level \<noteq> None \<and> old_level = new_level then True
      else if old_level > Some lvl then False
      else if new_level > Some lvl then False
      else True)"

definition notification_change_ok ::
  "room_version \<Rightarrow> int \<Rightarrow> power_levels \<Rightarrow> power_levels \<Rightarrow> bool" where
  "notification_change_ok rv lvl old new =
     (if limit_notifications_power_levels rv
         \<and> pl_notifications_room old \<noteq> pl_notifications_room new
      then \<not> (lvl < pl_notifications_room old \<or> lvl < pl_notifications_room new)
      else True)"

definition get_deserialize_levels :: "'v codec \<Rightarrow> 'v \<Rightarrow> 'v \<Rightarrow> string \<Rightarrow> (int \<times> int) option" where
  "get_deserialize_levels c old new name =
     (case Option.bind (c_get c old name) (c_int c) of
        None \<Rightarrow> None
      | Some o' \<Rightarrow> (case Option.bind (c_get c new name) (c_int c) of
                     None \<Rightarrow> None
                   | Some n \<Rightarrow> Some (o', n)))"

definition level_names :: "string list" where
  "level_names = [''users_default'', ''events_default'', ''state_default'', ''ban'', ''redact'',
     ''kick'', ''invite'']"

definition scalar_change_ok :: "'v codec \<Rightarrow> int \<Rightarrow> power_levels \<Rightarrow> power_levels \<Rightarrow> string \<Rightarrow> bool" where
  "scalar_change_ok c lvl old new name =
     (case get_deserialize_levels c (c_power_levels_value c old) (c_power_levels_value c new) name of
        None \<Rightarrow> True
      | Some (o', n) \<Rightarrow> \<not> (lvl < o' \<or> lvl < n))"

definition keys_to_check :: "('k::linorder \<times> int) list \<Rightarrow> ('k \<times> int) list \<Rightarrow> 'k list" where
  "keys_to_check old new = sort (remdups (map fst old @ map fst new))"

definition check_power_levels ::
  "'v codec \<Rightarrow> room_version \<Rightarrow> event \<Rightarrow> event option \<Rightarrow> int \<Rightarrow> user_id set \<Rightarrow> bool option" where
  "check_power_levels c rv ev prev lvl creators =
     (if ev_state_key ev \<noteq> Some '''' then None
      else case deserialize_power_levels c rv (ev_content ev) of
        None \<Rightarrow> None
      | Some new \<Rightarrow>
          (case prev of
             None \<Rightarrow> Some True
           | Some prev_ev \<Rightarrow>
               (case deserialize_power_levels c rv (ev_content prev_ev) of
                  None \<Rightarrow> None
                | Some old \<Rightarrow>
                    if \<not> list_all (user_change_ok (ev_sender ev) lvl creators old new)
                         (keys_to_check (pl_users old) (pl_users new)) then Some False
                    else if \<not> list_all (event_change_ok lvl old new)
                         (keys_to_check (pl_events old) (pl_events new)) then Some False
                    else if \<not> notification_change_ok rv lvl old new then Some False
                    else if \<not> list_all (scalar_change_ok c lvl old new) level_names then Some False
                    else Some True)))"

section \<open>The decision\<close>

text \<open>The branch for \<^verbatim>\<open>m.room.member\<close>.\<close>

definition auth_check_member ::
  "'v codec \<Rightarrow> room_version \<Rightarrow> event \<Rightarrow> event option \<Rightarrow> (event_type \<Rightarrow> string \<Rightarrow> event option)
     \<Rightarrow> event \<Rightarrow> event option \<Rightarrow> event option \<Rightarrow> bool sres" where
  "auth_check_member c rv ev current_tp fetch create pl_event sender_event =
     (case ev_state_key ev of
        None \<Rightarrow> Inr False
      | Some state_key \<Rightarrow>
          try_res (room_member_content_parse c (ev_content ev)) (\<lambda>content.
          if Option.bind (rm_membership content) (c_membership c) = None then Inr False
          else if \<not> c_valid_user c state_key then Inr False
          else
            let auth_user = Option.bind (rm_join_authorised_via_users_server content) (c_user_id c);
                auth_event = Option.bind auth_user (fetch RoomMember);
                auth_membership =
                  (case Option.bind auth_event (\<lambda>e. res_ok (membership_of c (ev_content e))) of
                     Some m \<Rightarrow> m | None \<Rightarrow> Leave)
            in valid_membership_change c rv state_key (fetch RoomMember state_key) sender_event ev
                 current_tp pl_event (fetch RoomJoinRules '''') auth_user auth_membership create))"

text \<open>The power of the sender, for events that are not membership changes.\<close>

definition sender_base_level ::
  "'v codec \<Rightarrow> room_version \<Rightarrow> event option \<Rightarrow> event \<Rightarrow> user_id \<Rightarrow> int sres" where
  "sender_base_level c rv pl_event create sender =
     (case pl_event of
        Some pl \<Rightarrow>
          try_res (deserialize_power_levels_content_fields c rv (ev_content pl)) (\<lambda>f.
          Inr (user_level f sender))
      | None \<Rightarrow>
          if use_room_create_sender rv then Inr (if ev_sender create = sender then 100 else 0)
          else (case c_create c (ev_content create) of
                  None \<Rightarrow> Inr 0
                | Some cc \<Rightarrow> (case cc_creator cc of
                                None \<Rightarrow> Inl (Panic ''creator'')
                              | Some u \<Rightarrow> Inr (if u = sender then 100 else 0))))"

definition is_privileged_sender ::
  "'v codec \<Rightarrow> room_version \<Rightarrow> event \<Rightarrow> 'v room_create_content \<Rightarrow> user_id \<Rightarrow> bool" where
  "is_privileged_sender c rv create create_content sender \<longleftrightarrow>
     explicitly_privilege_room_creators rv \<and>
     (sender = ev_sender create \<or>
      (case rc_additional_creators create_content of
         None \<Rightarrow> False
       | Some cs \<Rightarrow> (\<exists>v\<in>set cs. c_user_id c v = Some sender)))"

definition sender_level ::
  "'v codec \<Rightarrow> room_version \<Rightarrow> event option \<Rightarrow> event \<Rightarrow> 'v room_create_content \<Rightarrow> user_id \<Rightarrow> int sres"
where
  "sender_level c rv pl_event create create_content sender =
     try_res (sender_base_level c rv pl_event create sender) (\<lambda>lvl.
     Inr (if is_privileged_sender c rv create create_content sender then int_max else lvl))"

definition power_level_creators ::
  "'v codec \<Rightarrow> room_version \<Rightarrow> event \<Rightarrow> 'v room_create_content \<Rightarrow> user_id set sres" where
  "power_level_creators c rv create create_content =
     (if explicitly_privilege_room_creators rv
      then try_res (map_res (\<lambda>v. ok_or (c_user_id c v) Codec)
                      (case rc_additional_creators create_content of None \<Rightarrow> [] | Some cs \<Rightarrow> cs)) (\<lambda>us.
           Inr (insert (ev_sender create) (set us)))
      else Inr {})"

text \<open>The checks once the sender is known to be joined and its level is known.\<close>

definition auth_check_power ::
  "'v codec \<Rightarrow> room_version \<Rightarrow> event \<Rightarrow> event \<Rightarrow> event option \<Rightarrow> 'v room_create_content \<Rightarrow> int
     \<Rightarrow> bool sres" where
  "auth_check_power c rv ev create pl_event create_content lvl =
     (if ev_kind ev = RoomThirdPartyInvite then
        try_res (case pl_event of
                   None \<Rightarrow> Inr 0
                 | Some pl \<Rightarrow> deserialize_power_levels_content_invite c rv (ev_content pl)) (\<lambda>invite.
        Inr (\<not> lvl < invite))
      else if \<not> can_send_event c ev pl_event lvl then Inr False
      else
        try_res (if ev_kind ev = RoomPowerLevels
                 then try_res (power_level_creators c rv create create_content) (\<lambda>creators.
                      Inr (check_power_levels c rv ev pl_event lvl creators = Some True))
                 else Inr True) (\<lambda>levels_ok.
        if \<not> levels_ok then Inr False
        else if extra_redaction_checks rv \<and> ev_kind ev = RoomRedaction then
          try_res (case pl_event of
                     None \<Rightarrow> Inr 50
                   | Some pl \<Rightarrow> deserialize_power_levels_content_redact c rv (ev_content pl)) (\<lambda>redact.
          Inr (check_redaction c ev lvl redact))
        else Inr True))"

definition auth_check_joined ::
  "'v codec \<Rightarrow> room_version \<Rightarrow> event \<Rightarrow> event \<Rightarrow> event option \<Rightarrow> 'v room_create_content
     \<Rightarrow> event option \<Rightarrow> bool sres" where
  "auth_check_joined c rv ev create pl_event create_content sender_event =
     (case sender_event of
        None \<Rightarrow> Inr False
      | Some mem \<Rightarrow>
          if \<not> room_ids_as_hashes rv \<and> room_id_or_hash c mem \<noteq> room_id_or_hash c create
          then Inr False
          else
            try_res (room_member_content_parse c (ev_content mem)) (\<lambda>content.
            case rm_membership content of
              None \<Rightarrow> Inl (InvalidPdu ''Missing membership field'')
            | Some v \<Rightarrow>
                try_res (ok_or (c_membership c v) Codec) (\<lambda>m.
                if m \<noteq> Join then Inr False
                else
                  try_res (sender_level c rv pl_event create create_content (ev_sender ev)) (\<lambda>lvl.
                  auth_check_power c rv ev create pl_event create_content lvl))))"

definition auth_check ::
  "'v codec \<Rightarrow> room_version \<Rightarrow> event \<Rightarrow> event option \<Rightarrow> (event_type \<Rightarrow> string \<Rightarrow> event option)
     \<Rightarrow> event \<Rightarrow> bool sres" where
  "auth_check c rv ev current_tp fetch create =
     (if ev_kind ev = RoomCreate then auth_check_create c rv ev
      else
        let pl_event = fetch RoomPowerLevels '''';
            sender_event = fetch RoomMember (ev_sender ev)
        in try_res (room_create_content_parse c (ev_content create)) (\<lambda>create_content.
           case auth_check_room c rv ev create pl_event create_content of
             Some verdict \<Rightarrow> Inr verdict
           | None \<Rightarrow>
               if ev_kind ev = RoomMember
               then auth_check_member c rv ev current_tp fetch create pl_event sender_event
               else auth_check_joined c rv ev create pl_event create_content sender_event))"

lemmas auth_stage_defs [auth_defs] =
  auth_check_def auth_check_joined_def auth_check_power_def auth_check_member_def
  valid_membership_change_def

section \<open>What an allowed event satisfies\<close>

text \<open>
  Inversion of the decision: which stage said yes. The properties of this theory are read
  off these facts.
\<close>

lemma auth_check_room_verdict:
  assumes "auth_check_room c rv ev create pl cc = v" and "v \<noteq> Some False"
  shows "\<not> room_ids_as_hashes rv \<longrightarrow> room_id_or_hash c ev = room_id_or_hash c create \<and>
      (\<forall>pe. pl = Some pe \<longrightarrow> room_id_or_hash c pe = room_id_or_hash c create)"
    and "(ev_id create \<in> set (ev_auth ev)) = (\<not> room_ids_as_hashes rv)"
    and "\<not> rc_federate cc \<longrightarrow>
      c_user_server c (ev_sender ev) = c_user_server c (ev_sender create)"
    and "v = Some True \<longrightarrow> special_case_aliases_auth rv \<and> ev_kind ev = RoomAliases \<and>
      ev_state_key ev = Some (c_user_server c (ev_sender ev))"
    and "v = None \<longrightarrow> \<not> (special_case_aliases_auth rv \<and> ev_kind ev = RoomAliases)"
  using assms by (auto simp: auth_check_room_def Let_def split: if_splits option.splits)

lemma auth_check_allowed:
  assumes "auth_check c rv ev tp fetch create = Inr True" and "ev_kind ev \<noteq> RoomCreate"
  obtains cc where "room_create_content_parse c (ev_content create) = Inr cc"
    "auth_check_room c rv ev create (fetch RoomPowerLevels '''') cc \<noteq> Some False"
    "auth_check_room c rv ev create (fetch RoomPowerLevels '''') cc = None \<longrightarrow>
       (if ev_kind ev = RoomMember
        then auth_check_member c rv ev tp fetch create
          (fetch RoomPowerLevels '''') (fetch RoomMember (ev_sender ev))
        else auth_check_joined c rv ev create
          (fetch RoomPowerLevels '''') cc (fetch RoomMember (ev_sender ev))) = Inr True"
  using assms by (auto simp: auth_check_def Let_def try_res_eq_Inr split: option.splits if_splits)

lemma auth_check_allowed_member:
  assumes "auth_check c rv ev tp fetch create = Inr True" and "ev_kind ev = RoomMember"
    and "ev_state_key ev = Some target"
  obtains m auth_user auth_membership where
    "membership_facts_of c rv target (fetch RoomMember target) (fetch RoomMember (ev_sender ev)) ev
       (fetch RoomPowerLevels '''') (fetch RoomJoinRules '''') auth_user auth_membership create = Inr m"
    "membership_verdict c rv m tp"
proof -
  have kind: "ev_kind ev \<noteq> RoomCreate" using assms(2) by simp
  obtain cc where cc: "room_create_content_parse c (ev_content create) = Inr cc"
    "auth_check_room c rv ev create (fetch RoomPowerLevels '''') cc \<noteq> Some False"
    "auth_check_room c rv ev create (fetch RoomPowerLevels '''') cc = None \<longrightarrow>
       (if ev_kind ev = RoomMember
        then auth_check_member c rv ev tp fetch create
          (fetch RoomPowerLevels '''') (fetch RoomMember (ev_sender ev))
        else auth_check_joined c rv ev create
          (fetch RoomPowerLevels '''') cc (fetch RoomMember (ev_sender ev))) = Inr True"
    by (rule auth_check_allowed [OF assms(1) kind])
  have "auth_check_room c rv ev create (fetch RoomPowerLevels '''') cc = None"
    using auth_check_room_verdict(4) [OF refl cc(2)] cc(2) assms(2)
    by (cases "auth_check_room c rv ev create (fetch RoomPowerLevels '''') cc") auto
  then have "auth_check_member c rv ev tp fetch create
         (fetch RoomPowerLevels '''') (fetch RoomMember (ev_sender ev)) = Inr True"
    using cc(3) assms(2) by simp
  then show ?thesis
    using assms(3) that
    by (auto simp: auth_check_member_def valid_membership_change_def Let_def try_res_eq_Inr
        split: if_splits)
qed

lemma auth_check_allowed_joined:
  assumes "auth_check c rv ev tp fetch create = Inr True"
    and "ev_kind ev \<notin> {RoomCreate, RoomMember}"
    and "\<not> (special_case_aliases_auth rv \<and> ev_kind ev = RoomAliases)"
  obtains cc where "room_create_content_parse c (ev_content create) = Inr cc"
    "auth_check_joined c rv ev create (fetch RoomPowerLevels '''') cc
       (fetch RoomMember (ev_sender ev)) = Inr True"
proof -
  have kind: "ev_kind ev \<noteq> RoomCreate" "ev_kind ev \<noteq> RoomMember" using assms(2) by simp_all
  obtain cc where cc: "room_create_content_parse c (ev_content create) = Inr cc"
    "auth_check_room c rv ev create (fetch RoomPowerLevels '''') cc \<noteq> Some False"
    "auth_check_room c rv ev create (fetch RoomPowerLevels '''') cc = None \<longrightarrow>
       (if ev_kind ev = RoomMember
        then auth_check_member c rv ev tp fetch create
          (fetch RoomPowerLevels '''') (fetch RoomMember (ev_sender ev))
        else auth_check_joined c rv ev create
          (fetch RoomPowerLevels '''') cc (fetch RoomMember (ev_sender ev))) = Inr True"
    by (rule auth_check_allowed [OF assms(1) kind(1)])
  have "auth_check_room c rv ev create (fetch RoomPowerLevels '''') cc = None"
    using auth_check_room_verdict(4) [OF refl cc(2)] cc(2) assms(3)
    by (cases "auth_check_room c rv ev create (fetch RoomPowerLevels '''') cc") auto
  with cc(3) kind(2) show ?thesis by (intro that [OF cc(1)]) simp
qed

lemma auth_check_joined_allowed:
  assumes "auth_check_joined c rv ev create pl cc sender_event = Inr True"
  obtains mem lvl where "sender_event = Some mem" "membership_of c (ev_content mem) = Inr Join"
    "\<not> room_ids_as_hashes rv \<longrightarrow> room_id_or_hash c mem = room_id_or_hash c create"
    "sender_level c rv pl create cc (ev_sender ev) = Inr lvl"
    "auth_check_power c rv ev create pl cc lvl = Inr True"
  using assms
  by (auto simp: auth_check_joined_def try_res_eq_Inr
      split: option.splits if_splits dest: membership_of_member_content)

lemma auth_check_power_allowed:
  assumes "auth_check_power c rv ev create pl cc lvl = Inr True"
    and "ev_kind ev \<noteq> RoomThirdPartyInvite"
  shows "can_send_event c ev pl lvl"
    and "ev_kind ev = RoomPowerLevels \<Longrightarrow> \<exists>creators.
      power_level_creators c rv create cc = Inr creators \<and>
      check_power_levels c rv ev pl lvl creators = Some True"
    and "ev_kind ev = RoomRedaction \<Longrightarrow> extra_redaction_checks rv \<Longrightarrow> \<exists>redact.
      (case pl of None \<Rightarrow> Inr 50
       | Some e \<Rightarrow> deserialize_power_levels_content_redact c rv (ev_content e)) = Inr redact \<and>
      check_redaction c ev lvl redact"
  using assms by (auto simp: auth_check_power_def try_res_eq_Inr split: if_splits)

text \<open>The facts a membership decision rests on, read back from the events.\<close>

lemma membership_facts_of_Inr:
  assumes "membership_facts_of c rv target target_event sender_event ev pl_event jr_event
    auth_user auth_membership create = Inr m"
  shows "membership_of c (ev_content ev) = Inr (mf_target_membership m)"
    and "membership_or_leave c sender_event = Inr (mf_sender_membership m)"
    and "membership_or_leave c target_event = Inr (mf_target_current m)"
    and "mf_sender m = ev_sender ev" and "mf_target m = target"
    and "mf_after_create m = only_prev_is_create ev create"
    and "jr_event = None \<longrightarrow> mf_join_rule m = RuleInvite"
    and "jr_event = Some jr \<longrightarrow> c_join_rule c (ev_content jr) = Some (mf_join_rule m)"
    and "pl_event = None \<longrightarrow> mf_levels m = c_power_levels_default c"
    and "pl_event = Some pe \<longrightarrow> c_power_levels c (ev_content pe) = Some (mf_levels m)"
    and "\<exists>cc. room_create_content_parse c (ev_content create) = Inr cc \<and>
      mf_sender_power m =
        privileged_power rv (membership_creators c rv create cc) (mf_levels m) (ev_sender ev) \<and>
      mf_target_power m =
        privileged_power rv (membership_creators c rv create cc) (mf_levels m) target \<and>
      is_creator c rv (membership_creators c rv create cc) create (ev_sender ev)
        (pl_event \<noteq> None) = Inr (mf_sender_creator m) \<and>
      is_creator c rv (membership_creators c rv create cc) create target
        (pl_event \<noteq> None) = Inr (mf_target_creator m)"
    and "mf_third_party m \<noteq> None \<longrightarrow> (\<exists>v w. content_object c (ev_content ev) = Inr v \<and>
      content_optional c v ''third_party_invite'' = Some w)"
  using assms
  by (auto simp: membership_facts_of_def Let_def try_res_eq_Inr bind_eq_Some_conv
      split: option.splits)

lemma is_creator_unprivileged:
  assumes "\<not> explicitly_privilege_room_creators rv"
  shows "is_creator c rv creators create u True = Inr False"
  using assms by (simp add: is_creator_def)

lemma verdict_join:
  assumes "membership_verdict c rv m tp" and "mf_target_membership m = Join"
  shows "(mf_after_create m \<and> mf_sender_creator m \<and> mf_target_creator m) \<or>
    (mf_sender m = mf_target m \<and> mf_target_current m \<noteq> Ban \<and>
     (mf_target_current m \<in> {Join, Invite} \<or> mf_join_rule m = RulePublic \<or>
      (mf_join_rule m \<in> {RuleRestricted, RuleKnockRestricted} \<and> mf_join_auth_valid m)))"
  using assms
  by (cases "mf_join_rule m")
    (auto simp: membership_verdict_def membership_join_def Let_def split: if_split_asm)

lemma verdict_ban:
  assumes "membership_verdict c rv m tp" and "mf_target_membership m = Ban"
    and "\<not> mf_sender_creator m"
  shows "mf_sender_membership m = Join \<and> at_least (mf_sender_power m) (pl_ban (mf_levels m)) \<and>
    mf_target_power m < mf_sender_power m"
  using assms by (auto simp: membership_verdict_def membership_ban_def split: if_splits)

lemma verdict_kick:
  assumes "membership_verdict c rv m tp" and "mf_target_membership m = Leave"
    and "\<not> mf_sender_creator m" and "mf_sender m \<noteq> mf_target m"
  shows "mf_sender_membership m = Join"
    and "mf_target_current m = Ban \<longrightarrow> at_least (mf_sender_power m) (pl_ban (mf_levels m))"
    and "mf_target_current m \<notin> {Ban, Leave} \<longrightarrow>
      at_least (mf_sender_power m) (pl_kick (mf_levels m)) \<and>
      (mf_target_power m \<noteq> None \<longrightarrow> mf_target_power m < mf_sender_power m)"
  using assms
  by (auto simp: membership_verdict_def membership_leave_def can_unban_def can_kick_def at_least_def
      split: if_splits option.splits)

text \<open>The level that power level content gives a user.\<close>

definition listed_level :: "power_levels \<Rightarrow> user_id \<Rightarrow> int" where
  "listed_level pl u = (case map_of (pl_users pl) u of Some l \<Rightarrow> l | None \<Rightarrow> pl_users_default pl)"

text \<open>Without privileged creators a level is the listed one or the default.\<close>

lemma privileged_power_listed:
  "\<not> explicitly_privilege_room_creators rv \<Longrightarrow>
     privileged_power rv creators pl u = Some (listed_level pl u)"
  by (simp add: privileged_power_def power_of_def listed_level_def split: option.splits)

end
