(* ===== verification/Auth_Errors.thy ===== *)
theory Auth_Errors
  imports Event_Auth
begin

text \<open>
  The errors of the authorisation rules. Every function of \<^verbatim>\<open>event_auth.rs\<close> that returns a
  \<^verbatim>\<open>Result\<close> is followed to the places where an error arises: unreadable content gives a codec
  error, a missing membership an invalid PDU, and the \<^verbatim>\<open>unwrap\<close> calls a panic. No check reports
  a missing event.
\<close>

section \<open>Unreadable content and panics\<close>

text \<open>Reading content fails with a codec error and never panics.\<close>

lemma codec_errors:
  "content_object c s = Inl e \<Longrightarrow> e = Codec"
  "content_required c v k = Inl e \<Longrightarrow> e = Codec"
  "membership_of c s = Inl e \<Longrightarrow> e = Codec"
  "room_member_content_parse c s = Inl e \<Longrightarrow> e = Codec"
  "membership_or_leave c x = Inl e \<Longrightarrow> e = Codec"
proof -
  show obj: "content_object c s = Inl e \<Longrightarrow> e = Codec" for s
    by (auto simp: content_object_def split: option.splits if_splits)
  show req: "content_required c v k = Inl e \<Longrightarrow> e = Codec" for v k
    by (auto simp: content_required_def ok_or_def split: option.splits)
  show mem: "membership_of c s = Inl e \<Longrightarrow> e = Codec" for s
    by (auto simp: membership_of_def try_res_eq_Inl ok_or_def dest: obj req split: option.splits)
  show "room_member_content_parse c s = Inl e \<Longrightarrow> e = Codec"
    by (auto simp: room_member_content_parse_def try_res_eq_Inl dest: obj)
  show "membership_or_leave c x = Inl e \<Longrightarrow> e = Codec"
    by (auto simp: membership_or_leave_def dest: mem split: option.splits)
qed

lemma ok_or_error: "ok_or x e = Inl e' \<Longrightarrow> e' = e"
  by (cases x) auto

lemma room_create_content_error: "room_create_content_parse c s = Inl e \<Longrightarrow> e = Codec"
  by (auto simp: room_create_content_parse_def try_res_eq_Inl dest: codec_errors(1) ok_or_error
      split: option.splits)

lemma level_error: "level c v m = Inl e \<Longrightarrow> e = Codec" "level_or c v k d m = Inl e \<Longrightarrow> e = Codec"
  by (auto simp: level_or_def level_def dest: ok_or_error split: option.splits)

lemma map_res_eq_Inl: "map_res f xs = Inl e \<Longrightarrow> \<exists>x\<in>set xs. f x = Inl e"
  by (induction xs) (auto simp: try_res_eq_Inl)

lemma users_of_error: "users_of c v = Inl e \<Longrightarrow> e = Codec"
  by (auto simp: users_of_def try_res_eq_Inl dest!: map_res_eq_Inl
      dest: ok_or_error level_error split: option.splits if_splits prod.splits)

lemma levels_content_errors:
  "deserialize_power_levels_content_fields c rv s = Inl e \<Longrightarrow> e = Codec"
  "deserialize_power_levels_content_invite c rv s = Inl e \<Longrightarrow> e = Codec"
  "deserialize_power_levels_content_redact c rv s = Inl e \<Longrightarrow> e = Codec"
  by (auto simp: deserialize_power_levels_content_fields_def deserialize_power_levels_content_invite_def
      deserialize_power_levels_content_redact_def plf_from_content_def try_res_eq_Inl
      dest: codec_errors(1) level_error users_of_error)

text \<open>When the creator has to be read from the content of the create event, and cannot be.\<close>

definition creator_unreadable :: "'v codec \<Rightarrow> event \<Rightarrow> bool" where
  "creator_unreadable c create \<longleftrightarrow>
     (case c_create c (ev_content create) of None \<Rightarrow> True | Some cc \<Rightarrow> cc_creator cc = None)"

lemma is_creator_error:
  assumes "is_creator c rv creators create u have_pls = Inl e"
  shows "\<not> have_pls \<and> \<not> use_room_create_sender rv \<and> creator_unreadable c create"
  using assms
  by (auto simp: is_creator_def creator_unreadable_def split: if_splits option.splits sum.splits)

lemma join_auth_valid_panic:
  assumes "join_auth_valid c rv creators create pl u m = Inl (Panic s)"
  shows "pl = None \<and> \<not> use_room_create_sender rv \<and> creator_unreadable c create"
  using assms
  by (auto simp: join_auth_valid_def try_res_eq_Inl dest: is_creator_error levels_content_errors
      split: option.splits)

lemma membership_facts_panic:
  assumes "membership_facts_of c rv target te se ev pl jr au am create = Inl (Panic s)"
  shows "pl = None \<and> \<not> use_room_create_sender rv \<and> creator_unreadable c create"
  using assms unfolding membership_facts_of_def Let_def try_res_eq_Inl
  by (auto dest: is_creator_error join_auth_valid_panic codec_errors room_create_content_error
      ok_or_error split: option.splits)

lemma sender_level_panic:
  assumes "sender_level c rv pl create cc u = Inl (Panic s)"
  shows "pl = None \<and> \<not> use_room_create_sender rv \<and> creator_unreadable c create"
  using assms
  by (auto simp: sender_level_def sender_base_level_def try_res_eq_Inl creator_unreadable_def
      dest: levels_content_errors split: option.splits if_splits)

lemma auth_check_power_no_panic: "auth_check_power c rv ev create pl cc lvl \<noteq> Inl (Panic s)"
  by (auto simp: auth_check_power_def power_level_creators_def try_res_eq_Inl
      dest!: map_res_eq_Inl dest: levels_content_errors ok_or_error split: if_splits option.splits)

section \<open>No missing events\<close>

lemma is_creator_not_found: "is_creator c rv creators create u have_pls \<noteq> Inl (NotFound s)"
  by (auto simp: is_creator_def split: if_splits option.splits sum.splits)

lemma join_auth_valid_not_found: "join_auth_valid c rv creators create pl u m \<noteq> Inl (NotFound s)"
  by (auto simp: join_auth_valid_def try_res_eq_Inl is_creator_not_found dest: levels_content_errors
      split: option.splits)

lemma membership_facts_not_found:
  "membership_facts_of c rv target te se ev pl jr au am create \<noteq> Inl (NotFound s)"
  unfolding membership_facts_of_def Let_def try_res_eq_Inl
  by (auto simp: is_creator_not_found join_auth_valid_not_found
      dest: codec_errors room_create_content_error ok_or_error split: option.splits)

lemma sender_level_not_found: "sender_level c rv pl create cc u \<noteq> Inl (NotFound s)"
  by (auto simp: sender_level_def sender_base_level_def try_res_eq_Inl
      dest: levels_content_errors split: option.splits if_splits)

lemma auth_check_power_not_found: "auth_check_power c rv ev create pl cc lvl \<noteq> Inl (NotFound s)"
  by (auto simp: auth_check_power_def power_level_creators_def try_res_eq_Inl
      dest!: map_res_eq_Inl dest: levels_content_errors ok_or_error split: if_splits option.splits)

lemma auth_check_not_found: "auth_check c rv ev tp fetch create \<noteq> Inl (NotFound s)"
  by (auto simp: auth_check_def auth_check_create_def auth_check_member_def auth_check_joined_def
      valid_membership_change_def Let_def try_res_eq_Inl auth_check_power_not_found
      membership_facts_not_found sender_level_not_found
      dest: codec_errors room_create_content_error ok_or_error split: option.splits if_splits)

end
