(* ===== verification/Sample_Codec.thy ===== *)
theory Sample_Codec
  imports Power_Levels
begin

text \<open>
  A concrete codec, on which the hypotheses about the codec hold and on which the definitions
  can be evaluated. JSON texts are represented by names of documents; a document is a JSON
  value, an object yields its members in the order of their names, and the typed readers
  decode the values the way the documented content types are laid out.
\<close>

datatype json =
    JNull | JBool bool | JInt int | JStr string | JArr "json list" | JObj "(string \<times> json) list"

definition sample_docs :: "(string \<times> json) list" where
  "sample_docs =
     [(''create'', JObj [(''creator'', JStr ''@a:x''), (''room_version'', JStr ''10'')]),
      (''create local'', JObj [(''creator'', JStr ''@a:x''), (''m.federate'', JBool False)]),
      (''create bare'', JObj [(''creator'', JInt 7)]),
      (''create v12'', JObj [(''additional_creators'', JArr [JStr ''@b:x''])]),
      (''join'', JObj [(''membership'', JStr ''join'')]),
      (''leave'', JObj [(''membership'', JStr ''leave'')]),
      (''invite'', JObj [(''membership'', JStr ''invite'')]),
      (''ban'', JObj [(''membership'', JStr ''ban'')]),
      (''public'', JObj [(''join_rule'', JStr ''public'')]),
      (''restricted'', JObj [(''join_rule'', JStr ''restricted'')]),
      (''levels'', JObj [(''users'', JObj [(''@b:x'', JInt 50), (''@a:x'', JInt 100)])]),
      (''levels2'', JObj [(''users'', JObj [(''@a:x'', JInt 100), (''@b:x'', JInt 50), (''@c:x'', JInt 10)])]),
      (''levels3'', JObj [(''ban'', JInt 100), (''users'', JObj [(''@a:x'', JInt 100), (''@b:x'', JInt 60)])]),
      (''text'', JObj [(''body'', JStr ''hello'')])]"

definition json_get :: "json \<Rightarrow> string \<Rightarrow> json option" where
  "json_get v k = (case v of JObj ms \<Rightarrow> map_of ms k | _ \<Rightarrow> None)"

definition json_object :: "json \<Rightarrow> (string \<times> json) list option" where
  "json_object v = (case v of JObj ms \<Rightarrow> Some (dedup_key fst (sort_key fst ms)) | _ \<Rightarrow> None)"

definition json_str :: "json \<Rightarrow> string option" where
  "json_str v = (case v of JStr s \<Rightarrow> Some s | _ \<Rightarrow> None)"

definition json_int :: "json \<Rightarrow> int option" where
  "json_int v = (case v of JInt i \<Rightarrow> Some i | _ \<Rightarrow> None)"

definition sample_user :: "string \<Rightarrow> bool" where
  "sample_user s = (case s of ch # _ \<Rightarrow> ch = CHR ''@'' | [] \<Rightarrow> False)"

definition sample_server :: "string \<Rightarrow> string option" where
  "sample_server s = map_option snd (split_once (CHR '':'') s)"

definition sample_membership :: "json \<Rightarrow> membership option" where
  "sample_membership v =
     map_option (\<lambda>s. if s = ''join'' then Join else if s = ''invite'' then Invite
                     else if s = ''leave'' then Leave else if s = ''ban'' then Ban
                     else if s = ''knock'' then Knock else OtherMembership s) (json_str v)"

definition sample_rule :: "string \<Rightarrow> join_rule option" where
  "sample_rule d =
     map_option (\<lambda>s. if s = ''public'' then RulePublic else if s = ''invite'' then RuleInvite
                     else if s = ''knock'' then RuleKnock else if s = ''restricted'' then RuleRestricted
                     else OtherRule s)
       (Option.bind (Option.bind (map_of sample_docs d) (\<lambda>v. json_get v ''join_rule'')) json_str)"

definition sample_levels :: "json \<Rightarrow> (string \<times> int) list option" where
  "sample_levels v = map_option (List.map_filter (\<lambda>(k, w). map_option (Pair k) (json_int w))) (json_object v)"

definition sample_field :: "json \<Rightarrow> string \<Rightarrow> int \<Rightarrow> int" where
  "sample_field v k d = (case Option.bind (json_get v k) json_int of Some i \<Rightarrow> i | None \<Rightarrow> d)"

definition sample_power_levels :: "json \<Rightarrow> power_levels" where
  "sample_power_levels v =
     \<lparr>pl_ban = sample_field v ''ban'' 50, pl_events = [],
      pl_events_default = sample_field v ''events_default'' 0,
      pl_invite = sample_field v ''invite'' 0, pl_kick = sample_field v ''kick'' 50,
      pl_redact = sample_field v ''redact'' 50, pl_state_default = sample_field v ''state_default'' 50,
      pl_users = (case Option.bind (json_get v ''users'') sample_levels of Some us \<Rightarrow> us | None \<Rightarrow> []),
      pl_users_default = sample_field v ''users_default'' 0, pl_notifications_room = 50\<rparr>"

definition sample_levels_value :: "power_levels \<Rightarrow> json" where
  "sample_levels_value pl =
     JObj [(''ban'', JInt (pl_ban pl)), (''events_default'', JInt (pl_events_default pl)),
           (''invite'', JInt (pl_invite pl)), (''kick'', JInt (pl_kick pl)),
           (''redact'', JInt (pl_redact pl)), (''state_default'', JInt (pl_state_default pl)),
           (''users_default'', JInt (pl_users_default pl))]"

definition sample_codec :: "json codec" where
  "sample_codec =
     \<lparr>c_parse = map_of sample_docs, c_get = json_get, c_is_null = (\<lambda>v. v = JNull),
      c_object = json_object, c_array = (\<lambda>v. case v of JArr xs \<Rightarrow> Some xs | _ \<Rightarrow> None),
      c_bool = (\<lambda>v. case v of JBool b \<Rightarrow> Some b | _ \<Rightarrow> None), c_i64 = json_int, c_str = json_str,
      c_membership = sample_membership,
      c_user_id = (\<lambda>v. Option.bind (json_str v) (\<lambda>s. if sample_user s then Some s else None)),
      c_room_version = (\<lambda>v. map_option Custom (json_str v)),
      c_third_party = (\<lambda>v. None), c_int = json_int,
      c_event_levels = (\<lambda>v. Some []), c_user_levels = sample_levels,
      c_power_levels = (\<lambda>s. map_option sample_power_levels (map_of sample_docs s)),
      c_power_levels_value = sample_levels_value,
      c_power_levels_default = sample_power_levels (JObj []), c_default_level = 50,
      c_join_rule = sample_rule,
      c_create = (\<lambda>s. Option.bind (map_of sample_docs s) (\<lambda>v. Option.bind (json_get v ''creator'') (\<lambda>u.
        Option.bind (json_str u) (\<lambda>w. Some \<lparr>cc_creator = Some w, cc_room_version = V10,
          cc_additional_creators = None\<rparr>)))),
      c_member = (\<lambda>s. Option.bind (map_of sample_docs s) (\<lambda>v. Option.bind (json_get v ''membership'')
        sample_membership)),
      c_third_party_content = (\<lambda>s. None), c_base64 = Some,
      c_valid_user = sample_user,
      c_user_server = (\<lambda>u. case sample_server u of Some s \<Rightarrow> s | None \<Rightarrow> ''''),
      c_room_server = sample_server, c_event_server = sample_server,
      c_room_new_v2 = (\<lambda>h. Some (CHR ''!'' # h)), c_event_id = Some\<rparr>"

lemma sample_sorted_members: "sorted_members sample_codec"
  using sorted_dedup_key [of fst "sort_key fst _"]
  by (auto simp: sorted_members_def sample_codec_def json_object_def split: json.splits)

text \<open>Events over the sample documents.\<close>

definition sample_event ::
  "event_id \<Rightarrow> user_id \<Rightarrow> event_type \<Rightarrow> string option \<Rightarrow> string \<Rightarrow> event_id list \<Rightarrow> event" where
  "sample_event i u k sk doc auth =
     \<lparr>ev_id = i, ev_room_id = Some ''!r:x'', ev_sender = u, ev_ts = 0, ev_kind = k, ev_content = doc,
      ev_state_key = sk, ev_prev = [''$p:x''], ev_auth = auth, ev_redacts = None, ev_rejected = False\<rparr>"

definition sample_create :: event where
  "sample_create = (sample_event ''$create:x'' ''@a:x'' RoomCreate (Some '''') ''create'' [])\<lparr>ev_prev := []\<rparr>"

definition sample_state :: "(type_state_key \<times> event) list \<Rightarrow> event_type \<Rightarrow> string \<Rightarrow> event option" where
  "sample_state st t k = map_of st (t, k)"

end
