(* ===== verification/Auth_Safety.thy ===== *)
theory Auth_Safety
  imports Auth_Errors Sample_Codec
begin

text \<open>
  What the authorisation rules guarantee: statements about every event that \<open>auth_check\<close>
  allows, for every state, room version and codec. The witnesses evaluate the rules on the
  sample codec.
\<close>

section \<open>Properties of membership changes\<close>

text \<open>
  C6: A banned user cannot join: whatever the join rules and power levels say, a join of a
  user whose current membership is a ban is refused. The one exception of the rules is the
  first event after the create event.
\<close>
theorem banned_user_cannot_join:
  assumes "ev_kind ev = RoomMember" and "ev_state_key ev = Some target"
    and "membership_of c (ev_content ev) = Inr Join"
    and "fetch RoomMember target = Some current" and "membership_of c (ev_content current) = Inr Ban"
    and "\<not> only_prev_is_create ev create"
  shows "auth_check c rv ev tp fetch create \<noteq> Inr True"
proof
  assume "auth_check c rv ev tp fetch create = Inr True"
  then obtain m auth_user auth_membership where m: "membership_facts_of c rv target
      (fetch RoomMember target) (fetch RoomMember (ev_sender ev)) ev
      (fetch RoomPowerLevels '''') (fetch RoomJoinRules '''') auth_user auth_membership create = Inr m"
    "membership_verdict c rv m tp"
    by (rule auth_check_allowed_member [OF _ assms(1,2)])
  note facts = membership_facts_of_Inr [OF m(1)]
  have "mf_target_membership m = Join" "mf_target_current m = Ban" "\<not> mf_after_create m"
    using facts(1,3,6) assms by (auto simp: membership_or_leave_def)
  with verdict_join [OF m(2)] show False by simp
qed

theorem banned_user_cannot_join_witness:
  "auth_check sample_codec room_v10
     (sample_event ''$j:x'' ''@c:x'' RoomMember (Some ''@c:x'') ''join'' [''$create:x'']) None
     (sample_state
        [((RoomMember, ''@c:x''), sample_event ''$b:x'' ''@a:x'' RoomMember (Some ''@c:x'') ''ban'' []),
         ((RoomJoinRules, ''''), sample_event ''$r:x'' ''@a:x'' RoomJoinRules (Some '''') ''public'' [])])
     sample_create \<noteq> Inr True"
  by (rule banned_user_cannot_join [where target = "''@c:x''" and
        current = "sample_event ''$b:x'' ''@a:x'' RoomMember (Some ''@c:x'') ''ban'' []"]; code_simp)





section \<open>Properties of other events\<close>



lemma set_keys_to_check: "set (keys_to_check old new) = dom (map_of old) \<union> dom (map_of new)"
  by (simp add: keys_to_check_def dom_map_of_conv_image_fst)

lemma check_power_levels_allowed:
  assumes "check_power_levels c rv ev (Some prev) lvl creators = Some True"
  obtains old new where
    "deserialize_power_levels c rv (ev_content prev) = Some old"
    "deserialize_power_levels c rv (ev_content ev) = Some new"
    "\<forall>u\<in>dom (map_of (pl_users old)) \<union> dom (map_of (pl_users new)).
       user_change_ok (ev_sender ev) lvl creators old new u"
    "\<forall>t\<in>dom (map_of (pl_events old)) \<union> dom (map_of (pl_events new)).
       event_change_ok lvl old new t"
    "notification_change_ok rv lvl old new"
    "\<forall>name\<in>set level_names. scalar_change_ok c lvl old new name"
  using assms
  by (auto simp: check_power_levels_def list_all_iff set_keys_to_check
      split: option.split_asm if_split_asm)

text \<open>A changed entry of a map of levels, and what the sender's level must be for it.\<close>

definition change_bounded :: "('k \<rightharpoonup> int) \<Rightarrow> ('k \<rightharpoonup> int) \<Rightarrow> 'k \<Rightarrow> int \<Rightarrow> bool" where
  "change_bounded old new k lvl \<longleftrightarrow>
     old k = new k \<or> ((\<forall>l. old k = Some l \<longrightarrow> l \<le> lvl) \<and> (\<forall>l. new k = Some l \<longrightarrow> l \<le> lvl))"

lemma user_change_ok_bounded:
  assumes "user_change_ok sender lvl creators old new u" and "u \<notin> creators"
  shows "change_bounded (map_of (pl_users old)) (map_of (pl_users new)) u lvl"
    and "map_of (pl_users old) u = Some lvl \<longrightarrow>
      map_of (pl_users new) u = Some lvl \<or> u = sender"
  using assms
  by (auto simp: user_change_ok_def change_bounded_def Let_def not_less split: if_splits)

lemma event_change_ok_bounded:
  assumes "event_change_ok lvl old new t"
  shows "change_bounded (map_of (pl_events old)) (map_of (pl_events new)) t lvl"
  using assms
  by (auto simp: event_change_ok_def change_bounded_def Let_def not_less split: if_splits)

lemma change_bounded_outside: "k \<notin> dom old \<union> dom new \<Longrightarrow> change_bounded old new k lvl"
  by (auto simp: change_bounded_def domIff)

text \<open>
  C5: No escalation of privileges: an allowed change of the power levels never touches a level
  above the sender's own. Every entry for a user (creators aside) or an event type that
  differs between the old and the new content is at most the sender's level before and after,
  and a user at exactly the sender's level keeps it unless that user is the sender.
\<close>
theorem power_levels_no_escalation:
  assumes "auth_check c rv ev tp fetch create = Inr True"
    and "ev_kind ev = RoomPowerLevels" and "fetch RoomPowerLevels '''' = Some prev"
  shows "\<exists>cc lvl creators old new.
    room_create_content_parse c (ev_content create) = Inr cc \<and>
    sender_level c rv (Some prev) create cc (ev_sender ev) = Inr lvl \<and>
    power_level_creators c rv create cc = Inr creators \<and>
    deserialize_power_levels c rv (ev_content prev) = Some old \<and>
    deserialize_power_levels c rv (ev_content ev) = Some new \<and>
    (\<forall>t. change_bounded (map_of (pl_events old)) (map_of (pl_events new)) t lvl) \<and>
    (\<forall>u. u \<notin> creators \<longrightarrow>
       change_bounded (map_of (pl_users old)) (map_of (pl_users new)) u lvl \<and>
       (map_of (pl_users old) u = Some lvl \<longrightarrow>
          map_of (pl_users new) u = Some lvl \<or> u = ev_sender ev))"
proof -
  have kind: "ev_kind ev \<notin> {RoomCreate, RoomMember}" "ev_kind ev \<noteq> RoomThirdPartyInvite"
    "\<not> (special_case_aliases_auth rv \<and> ev_kind ev = RoomAliases)"
    using assms(2) by auto
  obtain cc where cc: "room_create_content_parse c (ev_content create) = Inr cc"
    "auth_check_joined c rv ev create (fetch RoomPowerLevels '''') cc
      (fetch RoomMember (ev_sender ev)) = Inr True"
    by (rule auth_check_allowed_joined [OF assms(1) kind(1,3)])
  obtain mem lvl where lvl: "sender_level c rv (Some prev) create cc (ev_sender ev) = Inr lvl"
    and power: "auth_check_power c rv ev create (Some prev) cc lvl = Inr True"
    using cc(2) unfolding assms(3) by (rule auth_check_joined_allowed)
  obtain creators where creators: "power_level_creators c rv create cc = Inr creators"
    "check_power_levels c rv ev (Some prev) lvl creators = Some True"
    using auth_check_power_allowed(2) [OF power kind(2) assms(2)] by blast
  obtain old new where levels: "deserialize_power_levels c rv (ev_content prev) = Some old"
    "deserialize_power_levels c rv (ev_content ev) = Some new"
    and user: "\<forall>u\<in>dom (map_of (pl_users old)) \<union> dom (map_of (pl_users new)).
       user_change_ok (ev_sender ev) lvl creators old new u"
    and event: "\<forall>t\<in>dom (map_of (pl_events old)) \<union> dom (map_of (pl_events new)).
       event_change_ok lvl old new t"
    using creators(2) by (rule check_power_levels_allowed)
  have "change_bounded (map_of (pl_events old)) (map_of (pl_events new)) t lvl" for t
    using event by (cases "t \<in> dom (map_of (pl_events old)) \<union> dom (map_of (pl_events new))")
      (rule event_change_ok_bounded, erule (1) bspec, rule change_bounded_outside)
  moreover have "change_bounded (map_of (pl_users old)) (map_of (pl_users new)) u lvl \<and>
       (map_of (pl_users old) u = Some lvl \<longrightarrow>
          map_of (pl_users new) u = Some lvl \<or> u = ev_sender ev)" if "u \<notin> creators" for u
  proof (cases "u \<in> dom (map_of (pl_users old)) \<union> dom (map_of (pl_users new))")
    case True
    from user_change_ok_bounded [OF bspec [OF user this] that] show ?thesis by blast
  next
    case False
    then show ?thesis using change_bounded_outside [OF False] by (auto simp: domIff)
  qed
  ultimately show ?thesis using cc(1) lvl creators(1) levels by blast
qed

theorem power_levels_no_escalation_witness:
  "\<exists>lvl old new.
     deserialize_power_levels sample_codec room_v10 ''levels'' = Some old \<and>
     deserialize_power_levels sample_codec room_v10 ''levels2'' = Some new \<and>
     change_bounded (map_of (pl_users old)) (map_of (pl_users new)) ''@c:x'' lvl"
proof -
  let ?ev = "sample_event ''$q:x'' ''@b:x'' RoomPowerLevels (Some '''') ''levels2'' [''$create:x'']"
  let ?prev = "sample_event ''$l:x'' ''@a:x'' RoomPowerLevels (Some '''') ''levels'' []"
  let ?st = "sample_state
    [((RoomMember, ''@b:x''), sample_event ''$m:x'' ''@b:x'' RoomMember (Some ''@b:x'') ''join'' []),
     ((RoomPowerLevels, ''''), ?prev)]"
  have ok: "auth_check sample_codec room_v10 ?ev None ?st sample_create = Inr True"
    "ev_kind ?ev = RoomPowerLevels" "?st RoomPowerLevels '''' = Some ?prev"
    by code_simp+
  have content: "ev_content ?prev = ''levels''" "ev_content ?ev = ''levels2''" by code_simp+
  have none: "power_level_creators sample_codec room_v10 sample_create cc = Inr creators \<Longrightarrow>
      ''@c:x'' \<notin> creators" for cc creators
    by (auto simp: power_level_creators_def room_version_defs)
  from power_levels_no_escalation [OF ok] show ?thesis unfolding content using none by blast
qed

text \<open>
  A create event is allowed exactly when it has no previous events, its room identifier
  belongs to the server of its sender (in the versions that have server names there), its
  room version is known, and it names a creator where the version requires one.
\<close>
lemma create_event_rules:
  "auth_check c rv ev tp fetch create = Inr True \<longleftrightarrow>
     ev_prev ev = [] \<and>
     (room_ids_as_hashes rv \<or> ev_room_id ev = None \<or>
        Option.bind (ev_room_id ev) (c_room_server c) = Some (c_user_server c (ev_sender ev))) \<and>
     (\<exists>content. room_create_content_parse c (ev_content ev) = Inr content \<and>
        (\<forall>v. rc_room_version content = Some v \<longrightarrow> c_room_version c v \<noteq> None) \<and>
        (use_room_create_sender rv \<or> explicitly_privilege_room_creators rv \<or>
           rc_creator content \<noteq> None))"
  if "ev_kind ev = RoomCreate"
  using that
  by (auto simp: auth_check_def auth_check_create_def create_room_domain_ok_def
      unsupported_room_version_def try_res_eq_Inr split: option.splits)

text \<open>
  An allowed event belongs to the room of the create event it is checked against: where
  room identifiers are not hashes it carries the same room identifier and cites the create
  event, where they are it must not cite it; and in a room that is not federated its sender is
  on the server of the room's creator.
\<close>
lemma allowed_event_is_in_room:
  assumes "auth_check c rv ev tp fetch create = Inr True" and "ev_kind ev \<noteq> RoomCreate"
  shows "(room_ids_as_hashes rv \<or> room_id_or_hash c ev = room_id_or_hash c create) \<and>
    (ev_id create \<in> set (ev_auth ev)) = (\<not> room_ids_as_hashes rv) \<and>
    (\<exists>cc. room_create_content_parse c (ev_content create) = Inr cc \<and>
       (rc_federate cc \<or> c_user_server c (ev_sender ev) = c_user_server c (ev_sender create)))"
proof -
  obtain cc where cc: "room_create_content_parse c (ev_content create) = Inr cc"
    "auth_check_room c rv ev create (fetch RoomPowerLevels '''') cc \<noteq> Some False"
    using auth_check_allowed [OF assms] by blast
  from auth_check_room_verdict [OF refl cc(2)] cc(1) show ?thesis by blast
qed

theorem allowed_event_is_in_room_witness:
  "\<exists>cc. room_create_content_parse sample_codec ''create local'' = Inr cc \<and>
     (rc_federate cc \<or> c_user_server sample_codec ''@a:x'' = c_user_server sample_codec ''@a:x'')"
proof -
  let ?create = "sample_create\<lparr>ev_content := ''create local''\<rparr>"
  let ?ev = "sample_event ''$t:x'' ''@a:x'' (OtherType ''m.room.message'') None ''text'' [''$create:x'']"
  let ?st = "sample_state [((RoomMember, ''@a:x''),
     sample_event ''$m:x'' ''@a:x'' RoomMember (Some ''@a:x'') ''join'' [])]"
  have ok: "auth_check sample_codec room_v10 ?ev None ?st ?create = Inr True"
    "ev_kind ?ev \<noteq> RoomCreate" by code_simp+
  from allowed_event_is_in_room [OF ok] show ?thesis
    by (simp add: sample_create_def sample_event_def)
qed

section \<open>Errors\<close>

text \<open>
  The check panics in one situation only: the room version takes the creator from the
  content of the create event, no power levels are set, and that content does not decode to
  one that names a creator.
\<close>
lemma auth_check_panics_only_without_creator:
  assumes "auth_check c rv ev tp fetch create = Inl (Panic s)"
  shows "fetch RoomPowerLevels '''' = None \<and> \<not> use_room_create_sender rv \<and>
    creator_unreadable c create"
  using assms
  by (auto simp: auth_check_def auth_check_create_def auth_check_member_def auth_check_joined_def
      valid_membership_change_def Let_def try_res_eq_Inl auth_check_power_no_panic
      dest: codec_errors room_create_content_error ok_or_error membership_facts_panic
        sender_level_panic split: option.splits if_splits)

text \<open>
  The situation is reachable: the create event \<^verbatim>\<open>{"creator": 7}\<close> passes its own check, which
  only asks that the field is present, and the join of the next user then panics.
\<close>
theorem auth_check_panics_only_without_creator_witness:
  "auth_check sample_codec room_v10 (sample_create\<lparr>ev_content := ''create bare''\<rparr>) None
     (\<lambda>_ _. None) sample_create = Inr True \<and>
   creator_unreadable sample_codec (sample_create\<lparr>ev_content := ''create bare''\<rparr>)"
proof -
  let ?create = "sample_create\<lparr>ev_content := ''create bare''\<rparr>"
  let ?ev = "sample_event ''$j:x'' ''@a:x'' RoomMember (Some ''@a:x'') ''join'' [''$create:x'']"
  have "auth_check sample_codec room_v10 ?ev None (\<lambda>_ _. None) ?create =
      Inl (Panic ''create content'')" by code_simp
  from auth_check_panics_only_without_creator [OF this]
  have "creator_unreadable sample_codec ?create" by blast
  moreover have "auth_check sample_codec room_v10 ?create None (\<lambda>_ _. None) sample_create = Inr True"
    by code_simp
  ultimately show ?thesis by blast
qed

text \<open>
  The seven scalar levels are checked even where they do not change: with a level above the
  sender's in both contents, a power level event is refused although it repeats the current
  content word for word.
\<close>
lemma unchanged_levels_refused:
  assumes "ev_state_key ev = Some ''''" and "ev_content prev = ev_content ev"
    and "deserialize_power_levels c rv (ev_content ev) = Some pl"
    and "name \<in> set level_names"
    and "Option.bind (c_get c (c_power_levels_value c pl) name) (c_int c) = Some l" and "lvl < l"
  shows "check_power_levels c rv ev (Some prev) lvl creators = Some False"
proof -
  have "\<not> scalar_change_ok c lvl pl pl name"
    using assms(5,6) by (simp add: scalar_change_ok_def get_deserialize_levels_def)
  then have "\<not> list_all (scalar_change_ok c lvl pl pl) level_names"
    using assms(4) by (auto simp: list_all_iff)
  then show ?thesis using assms(1-3) by (simp add: check_power_levels_def)
qed

theorem unchanged_levels_refused_witness:
  "check_power_levels sample_codec room_v10
     (sample_event ''$n:x'' ''@b:x'' RoomPowerLevels (Some '''') ''levels3'' [])
     (Some (sample_event ''$l:x'' ''@a:x'' RoomPowerLevels (Some '''') ''levels3'' [])) 60 {} = Some False"
  by (rule unchanged_levels_refused [where name = "''ban''" and l = 100 and
        pl = "sample_power_levels (the (map_of sample_docs ''levels3''))"]; code_simp)

end
