(* ===== verification/State_Sets.thy ===== *)
theory State_Sets
  imports Event_Model
begin

text \<open>
  The first stage of state resolution (\<^verbatim>\<open>state_res/mod.rs\<close>): splitting the state of several
  forks into what they agree on and what they do not (\<^verbatim>\<open>separate\<close>), and the events on which
  their auth chains differ (\<^verbatim>\<open>get_auth_chain_diff\<close>). A \<^verbatim>\<open>StateMap\<close> is an association list
  with distinct keys, a \<^verbatim>\<open>HashSet\<close> a list; the theorems only speak about lookups and
  membership, so they hold for every iteration order.
\<close>

type_synonym 'a state_map = "(type_state_key \<times> 'a) list"

definition copy_state_map :: "'a state_map \<Rightarrow> 'a state_map" where
  "copy_state_map m = map_extend (map (\<lambda>(key, value). ((fst key, snd key), value)) m) []"

section \<open>Conflicted and unconflicted state\<close>

text \<open>How often each event occurs under each key, by the entry interface of the maps.\<close>

definition count_occurrence ::
  "'k \<times> 'a \<Rightarrow> ('k \<times> ('a \<times> nat) list) list \<Rightarrow> ('k \<times> ('a \<times> nat) list) list" where
  "count_occurrence kv occ =
     AList.map_default (fst kv) [(snd kv, 1)] (AList.map_default (snd kv) 1 Suc) occ"

definition occurrence_entries :: "('k \<times> ('a \<times> nat) list) list \<Rightarrow> ('k \<times> 'a \<times> nat) list" where
  "occurrence_entries occ = concat (map (\<lambda>(k, v). map (Pair k) v) occ)"

definition separate_entry ::
  "nat \<Rightarrow> 'k \<times> 'a \<times> nat \<Rightarrow> ('k \<times> 'a) list \<times> ('k \<times> 'a list) list
     \<Rightarrow> ('k \<times> 'a) list \<times> ('k \<times> 'a list) list" where
  "separate_entry state_set_count e acc =
     (case (e, acc) of
        ((k, i, occurrence_count), (unconflicted, conflicted)) \<Rightarrow>
          if occurrence_count = state_set_count
          then (AList.update k i unconflicted, conflicted)
          else (unconflicted, AList.map_default k [i] (\<lambda>xs. xs @ [i]) conflicted))"

definition separate :: "('k \<times> 'a) list list \<Rightarrow> ('k \<times> 'a) list \<times> ('k \<times> 'a list) list" where
  "separate state_sets =
     (let occurrences = fold count_occurrence (concat state_sets) []
      in fold (separate_entry (length state_sets)) (occurrence_entries occurrences) ([], []))"

section \<open>The difference of the auth chains\<close>

text \<open>
  Event identifiers are numbered in the order in which they are met; more than \<^verbatim>\<open>u32\<close> can
  number is a panic.
\<close>

definition number_id :: "event_id \<Rightarrow> event_id list sres \<Rightarrow> event_id list sres" where
  "number_id i r =
     try_res r (\<lambda>index_to_id.
       if i \<in> set index_to_id then Inr index_to_id
       else if length index_to_id < 2 ^ 32 then Inr (index_to_id @ [i])
       else Inl (Panic ''too many event IDs''))"

fun index_of :: "'a list \<Rightarrow> 'a \<Rightarrow> nat option" where
  "index_of [] x = None"
| "index_of (y # ys) x = (if y = x then Some 0 else map_option Suc (index_of ys x))"

definition chain_bitmap :: "event_id list \<Rightarrow> event_id list \<Rightarrow> nat set" where
  "chain_bitmap index_to_id s = set (List.map_filter (index_of index_to_id) s)"

definition chain_union_intersection :: "nat set list \<Rightarrow> nat set \<times> nat set" where
  "chain_union_intersection bitmaps =
     (case bitmaps of
        [] \<Rightarrow> ({}, {})
      | b # bs \<Rightarrow> fold (\<lambda>b' (u, i). (u \<union> b', i \<inter> b')) bs (b, b))"

text \<open>A bitmap yields its elements in ascending order.\<close>

definition get_auth_chain_diff :: "event_id list list \<Rightarrow> event_id list sres" where
  "get_auth_chain_diff sets =
     (if length sets = 2
      then Inr (filter (\<lambda>x. x \<notin> set (sets ! 1)) (sets ! 0) @
                filter (\<lambda>x. x \<notin> set (sets ! 0)) (sets ! 1))
      else
        try_res (fold number_id (concat sets) (Inr [])) (\<lambda>index_to_id.
        let (union, intersection) = chain_union_intersection (map (chain_bitmap index_to_id) sets)
        in Inr (map (\<lambda>i. index_to_id ! i) (sorted_list_of_set (union - intersection)))))"

section \<open>Facts about the split\<close>

definition occurrences_of :: "('k \<times> ('a \<times> nat) list) list \<Rightarrow> 'k \<Rightarrow> 'a \<rightharpoonup> nat" where
  "occurrences_of occ k = (case map_of occ k of None \<Rightarrow> Map.empty | Some v \<Rightarrow> map_of v)"

lemma occurrences_of_count:
  "occurrences_of (count_occurrence (k', i') occ) k i =
     (if (k, i) = (k', i')
      then Some (case occurrences_of occ k i of None \<Rightarrow> 1 | Some n \<Rightarrow> Suc n)
      else occurrences_of occ k i)"
  by (auto simp: occurrences_of_def count_occurrence_def alist.get_entry split: option.splits)

lemma occurrences_of_fold:
  "occurrences_of (fold count_occurrence ps occ) k i =
     (if count_list ps (k, i) = 0 then occurrences_of occ k i
      else Some (count_list ps (k, i) + (case occurrences_of occ k i of None \<Rightarrow> 0 | Some n \<Rightarrow> n)))"
proof (induction ps arbitrary: occ)
  case (Cons p ps)
  then show ?case
    by (cases p) (auto simp: occurrences_of_count split: option.splits)
qed simp

text \<open>Both levels of the table keep their keys distinct.\<close>

definition occ_inv :: "('k \<times> ('a \<times> nat) list) list \<Rightarrow> bool" where
  "occ_inv occ \<longleftrightarrow> distinct (map fst occ) \<and> (\<forall>(k, v)\<in>set occ. distinct (map fst v))"

lemma set_map_default_subset:
  "set (AList.map_default k v f m) \<subseteq> insert (k, v) (set m \<union> {(k, f w) | w. (k, w) \<in> set m})"
  by (induction m) auto

lemma occ_inv_count: "occ_inv occ \<Longrightarrow> occ_inv (count_occurrence kv occ)"
  using set_map_default_subset [of "fst kv" "[(snd kv, 1)]" "AList.map_default (snd kv) 1 Suc" occ]
  by (fastforce simp: occ_inv_def count_occurrence_def alist.inv_entry AList.distinct_map_default)

lemma occ_inv_fold: "occ_inv occ \<Longrightarrow> occ_inv (fold count_occurrence ps occ)"
  by (induction ps arbitrary: occ) (auto intro: occ_inv_count)

lemma occ_entries:
  assumes "occ_inv occ"
  shows "(k, i, n) \<in> set (occurrence_entries occ) \<longleftrightarrow>
    occurrences_of occ k i = Some n"
proof -
  have "(k, i, n) \<in> set (occurrence_entries occ) \<longleftrightarrow>
      (\<exists>v. (k, v) \<in> set occ \<and> (i, n) \<in> set v)"
    by (force simp: occurrence_entries_def)
  also have "\<dots> \<longleftrightarrow> (\<exists>v. map_of occ k = Some v \<and> (i, n) \<in> set v)"
    using assms by (simp add: occ_inv_def)
  also have "\<dots> \<longleftrightarrow> occurrences_of occ k i = Some n"
  proof (cases "map_of occ k")
    case (Some v)
    with assms map_of_SomeD [OF this] have "distinct (map fst v)" by (auto simp: occ_inv_def)
    with Some show ?thesis by (simp add: occurrences_of_def)
  qed (simp add: occurrences_of_def)
  finally show ?thesis .
qed

text \<open>The two result maps, taken apart.\<close>

lemma fold_separate_entry:
  "fold (separate_entry n) es (u, c) =
     (fold (\<lambda>(k, i). AList.update k i) (map (\<lambda>(k, i, _). (k, i)) (filter (\<lambda>(_, _, m). m = n) es)) u,
      fold (\<lambda>(k, i, _). AList.map_default k [i] (\<lambda>xs. xs @ [i])) (filter (\<lambda>(_, _, m). m \<noteq> n) es) c)"
  by (induction es arbitrary: u c) (auto simp: separate_entry_def)

lemma map_of_fold_group:
  "map_of (fold (\<lambda>(k, i, _). AList.map_default k [i] (\<lambda>xs. xs @ [i])) es c) k =
     (let new = map (fst \<circ> snd) (filter (\<lambda>e. fst e = k) es)
      in case map_of c k of
           Some xs \<Rightarrow> Some (xs @ new)
         | None \<Rightarrow> if new = [] then None else Some new)"
proof (induction es arbitrary: c)
  case (Cons e es)
  then show ?case by (cases e) (auto simp: Let_def alist.get_entry split: option.splits)
qed (auto split: option.splits)

lemma map_of_rev_functional:
  assumes "\<And>k v w. (k, v) \<in> set xs \<Longrightarrow> (k, w) \<in> set xs \<Longrightarrow> v = w"
  shows "map_of (rev xs) k = Some v \<longleftrightarrow> (k, v) \<in> set xs"
proof
  assume "map_of (rev xs) k = Some v"
  from map_of_SomeD [OF this] show "(k, v) \<in> set xs" by simp
next
  assume kv: "(k, v) \<in> set xs"
  then have "k \<in> fst ` set (rev xs)" by force
  then obtain w where "map_of (rev xs) k = Some w" by (metis map_of_eq_None_iff not_None_eq)
  with map_of_SomeD [OF this] kv assms show "map_of (rev xs) k = Some v" by simp
qed

text \<open>Each state set counts at most once for a key and an event.\<close>

lemma count_list_distinct_fst:
  "distinct (map fst s) \<Longrightarrow> count_list s (k, i) = (if map_of s k = Some i then 1 else 0)"
  by (induction s) (auto simp: map_of_eq_None_iff dest: map_of_SomeD intro: rev_image_eqI)

lemma count_list_concat: "count_list (concat xss) x = (\<Sum>xs\<leftarrow>xss. count_list xs x)"
  by (induction xss) auto

lemma count_state_sets:
  assumes "\<forall>s\<in>set sets. distinct (map fst s)"
  shows "count_list (concat sets) (k, i) = length (filter (\<lambda>s. map_of s k = Some i) sets)"
  using assms by (induction sets) (auto simp: count_list_concat count_list_distinct_fst)

lemma length_filter_all: "length (filter P xs) = length xs \<longleftrightarrow> (\<forall>x\<in>set xs. P x)"
  by (metis filter_True length_filter_less nat_less_le)

lemma separate_entries:
  assumes "\<forall>s\<in>set sets. distinct (map fst s)"
  shows "(k, i, m) \<in> set (occurrence_entries (fold count_occurrence (concat sets) [])) \<longleftrightarrow>
    m \<noteq> 0 \<and> m = length (filter (\<lambda>s. map_of s k = Some i) sets)"
proof -
  have inv: "occ_inv (fold count_occurrence (concat sets) [])"
    by (rule occ_inv_fold) (simp add: occ_inv_def)
  have "occurrences_of (fold count_occurrence (concat sets) []) k i =
      (let m = length (filter (\<lambda>s. map_of s k = Some i) sets) in if m = 0 then None else Some m)"
    unfolding occurrences_of_fold count_state_sets [OF assms]
    by (simp add: occurrences_of_def Let_def)
  then show ?thesis unfolding occ_entries [OF inv] by (auto simp: Let_def split: if_splits)
qed

text \<open>The split, in terms of the state sets.\<close>

lemma separate_facts:
  assumes sets: "\<forall>s\<in>set sets. distinct (map fst s)" and "sets \<noteq> []"
    and sep: "separate sets = (unconflicted, conflicted)"
  shows "map_of unconflicted k = Some i \<longleftrightarrow> (\<forall>s\<in>set sets. map_of s k = Some i)"
    and "(\<exists>is. map_of conflicted k = Some is \<and> i \<in> set is) \<longleftrightarrow>
      (\<exists>s\<in>set sets. map_of s k = Some i) \<and> (\<exists>s\<in>set sets. map_of s k \<noteq> Some i)"
proof -
  define es where "es = occurrence_entries (fold count_occurrence (concat sets) [])"
  let ?n = "length sets"
  note es = separate_entries [OF sets, folded es_def]
  have res: "unconflicted = fold (\<lambda>(k, i). AList.update k i)
        (map (\<lambda>(k, i, _). (k, i)) (filter (\<lambda>(_, _, m). m = ?n) es)) []"
    "conflicted = fold (\<lambda>(k, i, _). AList.map_default k [i] (\<lambda>xs. xs @ [i]))
        (filter (\<lambda>(_, _, m). m \<noteq> ?n) es) []"
    using sep by (simp_all add: separate_def fold_separate_entry flip: es_def)
  have all: "(k, i) \<in> set (map (\<lambda>(k, i, _). (k, i)) (filter (\<lambda>(_, _, m). m = ?n) es)) \<longleftrightarrow>
      (\<forall>s\<in>set sets. map_of s k = Some i)" for k i
  proof -
    have "(k, i) \<in> set (map (\<lambda>(k, i, _). (k, i)) (filter (\<lambda>(_, _, m). m = ?n) es)) \<longleftrightarrow>
        (k, i, ?n) \<in> set es" by (force split: prod.splits)
    also have "\<dots> \<longleftrightarrow> length (filter (\<lambda>s. map_of s k = Some i) sets) = ?n"
      using \<open>sets \<noteq> []\<close> by (auto simp: es)
    finally show ?thesis by (simp only: length_filter_all)
  qed
  have one: "v = w" if "\<forall>s\<in>set sets. map_of s k = Some v" "\<forall>s\<in>set sets. map_of s k = Some w" for k v w
    using that \<open>sets \<noteq> []\<close> by (cases sets) auto
  let ?agreed = "map (\<lambda>(k, i, _). (k, i)) (filter (\<lambda>(_, _, m). m = ?n) es)"
  have "v = w" if "(k, v) \<in> set ?agreed" "(k, w) \<in> set ?agreed" for k v w
    using that unfolding all by (rule one)
  then have "map_of (rev ?agreed) k = Some i \<longleftrightarrow> (\<forall>s\<in>set sets. map_of s k = Some i)"
    unfolding all [symmetric] by (rule map_of_rev_functional)
  then show "map_of unconflicted k = Some i \<longleftrightarrow> (\<forall>s\<in>set sets. map_of s k = Some i)"
    unfolding res alist.get_extend by simp
  have "i \<in> fst ` snd ` {e \<in> set es. fst e = k \<and> snd (snd e) \<noteq> ?n} \<longleftrightarrow>
      (\<exists>s\<in>set sets. map_of s k = Some i) \<and> (\<exists>s\<in>set sets. map_of s k \<noteq> Some i)"
  proof -
    have "i \<in> fst ` snd ` {e \<in> set es. fst e = k \<and> snd (snd e) \<noteq> ?n} \<longleftrightarrow>
        (\<exists>m. (k, i, m) \<in> set es \<and> m \<noteq> ?n)" by force
    also have "\<dots> \<longleftrightarrow> filter (\<lambda>s. map_of s k = Some i) sets \<noteq> [] \<and>
        length (filter (\<lambda>s. map_of s k = Some i) sets) \<noteq> ?n" by (simp add: es)
    finally show ?thesis unfolding length_filter_all by (simp add: filter_empty_conv)
  qed
  then show "(\<exists>is. map_of conflicted k = Some is \<and> i \<in> set is) \<longleftrightarrow>
      (\<exists>s\<in>set sets. map_of s k = Some i) \<and> (\<exists>s\<in>set sets. map_of s k \<noteq> Some i)"
    unfolding res map_of_fold_group by (auto simp: Let_def image_iff filter_empty_conv split: if_splits)
qed

lemma separate_distinct:
  assumes "separate sets = (unconflicted, conflicted)"
  shows "distinct (map fst unconflicted)" and "distinct (map fst conflicted)"
proof -
  have "distinct (map fst (fold (\<lambda>(k, i). AList.update k i) xs []))" for xs :: "('k \<times> 'v) list"
    by (rule alist.inv_extend) simp
  moreover have "distinct (map fst (fold (\<lambda>(k, i, _). AList.map_default k [i] (\<lambda>xs. xs @ [i])) es []))"
    for es :: "('k \<times> 'v \<times> nat) list"
    using alist.inv_fold_entry [of "[]" fst "\<lambda>x. [fst (snd x)]" "\<lambda>x xs. xs @ [fst (snd x)]" es]
    by (simp add: case_prod_unfold)
  ultimately show "distinct (map fst unconflicted)" and "distinct (map fst conflicted)"
    using assms by (auto simp: separate_def Let_def fold_separate_entry)
qed

text \<open>
  The split is right: a key is unconflicted with an event exactly when every fork has
  that event under the key, and an event is conflicted under a key exactly when some fork has
  it there and some fork does not.
\<close>
lemma separate_splits_state:
  assumes "\<forall>s\<in>set sets. distinct (map fst s)" and "sets \<noteq> []"
  shows "(map_of (fst (separate sets)) k = Some i \<longleftrightarrow> (\<forall>s\<in>set sets. map_of s k = Some i)) \<and>
    ((\<exists>is. map_of (snd (separate sets)) k = Some is \<and> i \<in> set is) \<longleftrightarrow>
      (\<exists>s\<in>set sets. map_of s k = Some i) \<and> (\<exists>s\<in>set sets. map_of s k \<noteq> Some i))"
  using separate_facts [OF assms, of "fst (separate sets)" "snd (separate sets)" k i] by simp

theorem separate_splits_state_witness:
  "map_of (fst (separate [[(''k'', ''a''), (''l'', ''b'')], [(''l'', ''c''), (''k'', ''a'')]])) ''k'' =
     Some ''a'' \<and>
   (\<exists>is. map_of (snd (separate [[(''k'', ''a''), (''l'', ''b'')], [(''l'', ''c''), (''k'', ''a'')]])) ''l'' =
      Some is \<and> ''b'' \<in> set is)"
  using separate_splits_state [of "[[(''k'', ''a''), (''l'', ''b'')], [(''l'', ''c''), (''k'', ''a'')]]" "''k''" "''a''"]
    separate_splits_state [of "[[(''k'', ''a''), (''l'', ''b'')], [(''l'', ''c''), (''k'', ''a'')]]" "''l''" "''b''"]
  by simp

section \<open>Facts about the difference of auth chains\<close>

lemma number_id_Inr:
  "number_id i (Inr ids) =
     (if i \<in> set ids then Inr ids
      else if length ids < 2 ^ 32 then Inr (ids @ [i]) else Inl (Panic ''too many event IDs''))"
  by (simp add: number_id_def)

lemma fold_number_id:
  assumes "length ids + length (remdups (filter (\<lambda>x. x \<notin> set ids) xs)) \<le> 2 ^ 32" and "distinct ids"
  shows "\<exists>ids'. fold number_id xs (Inr ids) = Inr ids' \<and> distinct ids' \<and> set ids' = set ids \<union> set xs"
  using assms
proof (induction xs arbitrary: ids)
  case (Cons x xs)
  show ?case
  proof (cases "x \<in> set ids")
    case True
    with Cons.prems have "length ids + length (remdups (filter (\<lambda>x. x \<notin> set ids) xs)) \<le> 2 ^ 32"
      by simp
    from Cons.IH [OF this Cons.prems(2)] True show ?thesis
      by (simp only: fold_simps number_id_Inr if_True) auto
  next
    case False
    have "length (remdups (filter (\<lambda>y. y \<notin> set ids) (x # xs))) =
        Suc (length (remdups (filter (\<lambda>y. y \<notin> set (ids @ [x])) xs)))"
    proof -
      have "set (filter (\<lambda>y. y \<notin> set ids) (x # xs)) =
          insert x (set (filter (\<lambda>y. y \<notin> set (ids @ [x])) xs))" using False by auto
      then show ?thesis by (simp add: length_remdups_card_conv del: filter.simps)
    qed
    with Cons.prems have "length ids < 2 ^ 32"
      "length (ids @ [x]) + length (remdups (filter (\<lambda>y. y \<notin> set (ids @ [x])) xs)) \<le> 2 ^ 32"
      by simp_all
    with Cons.IH [of "ids @ [x]"] Cons.prems False show ?thesis
      by (simp only: fold_simps number_id_Inr if_True if_False) auto
  qed
qed simp

lemma index_of_nth: "index_of xs x = Some i \<Longrightarrow> i < length xs \<and> xs ! i = x"
  by (induction xs arbitrary: i) (auto split: if_splits)

lemma index_of_in: "x \<in> set xs \<Longrightarrow> \<exists>i. index_of xs x = Some i"
  by (induction xs) auto

lemma nth_chain_bitmap:
  assumes "set s \<subseteq> set ids"
  shows "(\<lambda>i. ids ! i) ` chain_bitmap ids s = set s" and "chain_bitmap ids s \<subseteq> {0..<length ids}"
proof -
  have "\<exists>i. index_of ids x = Some i \<and> i < length ids \<and> ids ! i = x" if "x \<in> set s" for x
    using index_of_in [of x ids] index_of_nth [of ids x] that assms by blast
  then have "\<exists>f. \<forall>x\<in>set s. index_of ids x = Some (f x) \<and> f x < length ids \<and> ids ! f x = x" by metis
  then obtain f where f: "\<forall>x\<in>set s. index_of ids x = Some (f x) \<and> f x < length ids \<and> ids ! f x = x" ..
  then have "chain_bitmap ids s = f ` set s"
    by (force simp: chain_bitmap_def List.map_filter_def)
  with f show "(\<lambda>i. ids ! i) ` chain_bitmap ids s = set s" and "chain_bitmap ids s \<subseteq> {0..<length ids}"
    by (auto simp: image_image)
qed

lemma chain_union_intersection_sets:
  "bs \<noteq> [] \<Longrightarrow> chain_union_intersection bs = (\<Union> (set bs), \<Inter> (set bs))"
proof -
  have "fold (\<lambda>b' (u, i). (u \<union> b', i \<inter> b')) bs (u, i) = (u \<union> \<Union> (set bs), i \<inter> \<Inter> (set bs))"
    for bs :: "nat set list" and u i
    by (induction bs arbitrary: u i) auto
  then show "bs \<noteq> [] \<Longrightarrow> ?thesis" by (cases bs) (auto simp: chain_union_intersection_def)
qed

lemma diff_of_bitmaps:
  assumes "distinct ids" and "set ids = \<Union> (set (map set sets))" and "sets \<noteq> []"
  defines "ui \<equiv> chain_union_intersection (map (chain_bitmap ids) sets)"
  shows "finite (fst ui - snd ui)"
    and "(\<lambda>i. ids ! i) ` (fst ui - snd ui) = \<Union> (set (map set sets)) - \<Inter> (set (map set sets))"
proof -
  let ?f = "\<lambda>i. ids ! i" and ?B = "chain_bitmap ids ` set sets"
  have sub: "set s \<subseteq> set ids" if "s \<in> set sets" for s using that assms(2) by auto
  have ui: "fst ui = \<Union> ?B" "snd ui = \<Inter> ?B"
    using chain_union_intersection_sets [of "map (chain_bitmap ids) sets"] assms(3) by (simp_all add: ui_def)
  have bound: "\<Union> ?B \<subseteq> {0..<length ids}" using nth_chain_bitmap(2) sub by blast
  then show "finite (fst ui - snd ui)" unfolding ui
    by (intro finite_Diff finite_subset [OF bound]) simp
  have inj: "inj_on ?f {0..<length ids}" using assms(1) by (auto simp: inj_on_def nth_eq_iff_index_eq)
  have "\<Inter> ?B \<subseteq> {0..<length ids}" using bound assms(3) by (cases sets) auto
  then have "?f ` (\<Union> ?B - \<Inter> ?B) = ?f ` \<Union> ?B - ?f ` \<Inter> ?B"
    using bound by (intro inj_on_image_set_diff [OF inj]) auto
  also have "?f ` \<Union> ?B = (\<Union>s\<in>set sets. set s)"
    unfolding image_Union image_image by (rule SUP_cong [OF refl]) (rule nth_chain_bitmap(1) [OF sub])
  also have "?f ` \<Inter> ?B = (\<Inter>s\<in>set sets. ?f ` chain_bitmap ids s)"
    using bound assms(3) by (intro image_INT [OF inj, where j = "hd sets"]) auto
  also have "\<dots> = (\<Inter>s\<in>set sets. set s)"
    by (rule INF_cong [OF refl]) (rule nth_chain_bitmap(1) [OF sub])
  finally show "?f ` (fst ui - snd ui) = \<Union> (set (map set sets)) - \<Inter> (set (map set sets))"
    unfolding ui by simp
qed

lemma auth_chain_diff_set:
  assumes "length (remdups (concat sets)) \<le> 2 ^ 32" and "sets \<noteq> []"
  shows "\<exists>diff. get_auth_chain_diff sets = Inr diff \<and> set diff = \<Union> (set ` set sets) - \<Inter> (set ` set sets)"
proof (cases "length sets = 2")
  case True
  then obtain a b where "sets = [a, b]" by (auto simp: length_Suc_conv numeral_2_eq_2)
  then show ?thesis by (auto simp: get_auth_chain_diff_def)
next
  case False
  obtain ids where ids: "fold number_id (concat sets) (Inr []) = Inr ids" "distinct ids"
    "set ids = set (concat sets)"
    using fold_number_id [of "[]" "concat sets"] assms by auto
  let ?ui = "chain_union_intersection (map (chain_bitmap ids) sets)"
  have "set ids = \<Union> (set (map set sets))" using ids(3) by simp
  note d = diff_of_bitmaps [OF ids(2) this assms(2)]
  have "get_auth_chain_diff sets = Inr (map ((!) ids) (sorted_list_of_set (fst ?ui - snd ?ui)))"
    using False ids(1) by (simp add: get_auth_chain_diff_def case_prod_unfold Let_def)
  with d show ?thesis by simp
qed

text \<open>
  The difference of the auth chains is their union without their intersection, on both
  paths of the code: the symmetric difference of two sets and the bitmaps for any other number
  of them (up to the number of events that fit their 32-bit indices).
\<close>
lemma auth_chain_diff_is_union_minus_intersection:
  assumes "length (remdups (concat sets)) \<le> 2 ^ 32"
  shows "\<exists>diff. get_auth_chain_diff sets = Inr diff \<and>
    (\<forall>x. x \<in> set diff \<longleftrightarrow> (\<exists>s\<in>set sets. x \<in> set s) \<and> (\<exists>s\<in>set sets. x \<notin> set s))"
proof (cases "sets = []")
  case True
  then show ?thesis by (simp add: get_auth_chain_diff_def chain_union_intersection_def)
next
  case False
  from auth_chain_diff_set [OF assms this] show ?thesis by auto
qed

theorem auth_chain_diff_is_union_minus_intersection_witness:
  "\<exists>diff. get_auth_chain_diff [[''a'', ''b''], [''b'', ''c''], [''b'']] = Inr diff \<and> ''a'' \<in> set diff \<and> ''b'' \<notin> set diff"
  using auth_chain_diff_is_union_minus_intersection [of "[[''a'', ''b''], [''b'', ''c''], [''b'']]"] by fastforce

text \<open>No key is conflicted without an event.\<close>

lemma separate_nonempty:
  assumes "separate sets = (unconflicted, conflicted)" and "map_of conflicted k = Some is"
  shows "is \<noteq> []"
  using assms
  by (auto simp: separate_def Let_def fold_separate_entry map_of_fold_group split: if_splits)

end
