(* ===== verification/Auth_Graph.thy ===== *)
theory Auth_Graph
  imports State_Sets
begin

text \<open>
  The event store, the graph of auth events, and the conflicted subgraph of version 2.1
  (\<^verbatim>\<open>calculate_conflicted_subgraph\<close>). Events are fetched from a finite store; the closure
  \<^verbatim>\<open>fetch_event\<close> of the sources, with its caches, is the lookup in it. The two searches are
  loops over explicit work lists; \<^verbatim>\<open>FuturesUnordered\<close> completes in an arbitrary order, and the
  theorem on the result speaks about sets only.
\<close>

type_synonym event_store = "(event_id \<times> event) list"

definition fetch_event :: "event_store \<Rightarrow> event_id \<Rightarrow> event option" where
  "fetch_event store i = map_of store i"

text \<open>Every identifier that some stored event cites.\<close>

definition cited_ids :: "event_store \<Rightarrow> event_id set" where
  "cited_ids store = set (concat (map (ev_auth \<circ> snd) store))"

lemma finite_cited_ids [simp]: "finite (cited_ids store)"
  by (simp add: cited_ids_def)

lemma fetch_event_cited: "fetch_event store i = Some ev \<Longrightarrow> set (ev_auth ev) \<subseteq> cited_ids store"
  by (auto simp: fetch_event_def cited_ids_def dest!: map_of_SomeD)

section \<open>The searches\<close>

text \<open>The inner loop of the backwards search: reverse edges, newly seen events, new work.\<close>

fun back_edges ::
  "event_id \<Rightarrow> event_id list \<Rightarrow> event_id list \<times> (event_id \<times> event_id list) list \<times> event_id list
     \<Rightarrow> event_id list \<times> (event_id \<times> event_id list) list \<times> event_id list" where
  "back_edges i [] st = st"
| "back_edges i (a # as) (seen, children, work) =
     (let children' = AList.map_default a [i] (\<lambda>xs. xs @ [i]) children
      in if a \<in> set seen then back_edges i as (seen, children', work)
         else back_edges i as (a # seen, children', work @ [a]))"

lemma back_edges_seen:
  "back_edges i as (seen, children, work) = (seen', children', work') \<Longrightarrow>
     set seen' = set seen \<union> set as \<and> (\<exists>new. work' = work @ new \<and> set new = set as - set seen)"
proof (induction as arbitrary: seen children work)
  case (Cons a as)
  show ?case
  proof (cases "a \<in> set seen")
    case True
    with Cons show ?thesis by (fastforce simp: Let_def)
  next
    case False
    with Cons.prems have "back_edges i as
        (a # seen, AList.map_default a [i] (\<lambda>xs. xs @ [i]) children, work @ [a]) =
        (seen', children', work')" by (simp add: Let_def)
    from Cons.IH [OF this] obtain new where
      new: "set seen' = set (a # seen) \<union> set as" "work' = (work @ [a]) @ new"
        "set new = set as - set (a # seen)" by blast
    with False show ?thesis by (intro conjI exI [of _ "a # new"]) auto
  qed
qed simp

function back_search ::
  "event_store \<Rightarrow> event_id list \<Rightarrow> event_id list \<Rightarrow> event_id list \<Rightarrow> (event_id \<times> event_id list) list
     \<Rightarrow> event_id list \<times> event_id list \<times> (event_id \<times> event_id list) list" where
  "back_search store [] seen missing children = (seen, missing, children)"
| "back_search store (i # work) seen missing children =
     (case fetch_event store i of
        None \<Rightarrow> back_search store work seen (missing @ [i]) children
      | Some ev \<Rightarrow>
          let st = back_edges i (ev_auth ev) (seen, children, work)
          in back_search store (snd (snd st)) (fst st) missing (fst (snd st)))"
  by pat_completeness auto
termination
proof (relation "measures [\<lambda>(store, work, seen, missing, children). card (cited_ids store - set seen),
                           \<lambda>(store, work, seen, missing, children). length work]")
  fix store i work seen missing children ev st
  assume ev: "fetch_event store i = Some ev"
    and st: "st = back_edges i (ev_auth ev) (seen, children, work)"
  obtain seen' children' work' where b: "st = (seen', children', work')" by (cases st)
  from back_edges_seen [OF st [symmetric, unfolded b]] obtain new where
    new: "set seen' = set seen \<union> set (ev_auth ev)" "work' = work @ new"
      "set new = set (ev_auth ev) - set seen" by blast
  have cited: "set (ev_auth ev) \<subseteq> cited_ids store" by (rule fetch_event_cited [OF ev])
  show "((store, snd (snd st), fst st, missing, fst (snd st)), store, i # work, seen, missing, children)
    \<in> measures [\<lambda>(store, work, seen, missing, children). card (cited_ids store - set seen),
                \<lambda>(store, work, seen, missing, children). length work]"
  proof (cases "new = []")
    case True
    then have "set seen' = set seen" using new by auto
    with True new(2) b show ?thesis by simp
  next
    case False
    then obtain x where "x \<in> set (ev_auth ev) - set seen" using new(3) by (cases new) auto
    then have "cited_ids store - set seen' \<subset> cited_ids store - set seen" using cited new(1) by auto
    then have "card (cited_ids store - set seen') < card (cited_ids store - set seen)"
      by (intro psubset_card_mono) auto
    with b show ?thesis by simp
  qed
qed auto

text \<open>The forwards search: along the reverse edges, breadth first.\<close>

definition children_of :: "(event_id \<times> event_id list) list \<Rightarrow> event_id \<Rightarrow> event_id list" where
  "children_of children i = (case map_of children i of None \<Rightarrow> [] | Some cs \<Rightarrow> cs)"

lemma children_of_subset: "set (children_of children i) \<subseteq> set (concat (map snd children))"
proof (cases "map_of children i")
  case (Some cs)
  from map_of_SomeD [OF this] show ?thesis by (auto simp: children_of_def Some intro!: bexI)
qed (simp add: children_of_def)

function forward_search ::
  "(event_id \<times> event_id list) list \<Rightarrow> event_id list \<Rightarrow> event_id list \<Rightarrow> event_id list" where
  "forward_search children [] reached = reached"
| "forward_search children (i # queue) reached =
     (if i \<in> set reached then forward_search children queue reached
      else forward_search children (queue @ children_of children i) (i # reached))"
  by pat_completeness auto
termination
proof (relation "measures [\<lambda>(children, queue, reached).
      card ((set (concat (map snd children)) \<union> set queue) - set reached),
    \<lambda>(children, queue, reached). length queue]")
  fix children :: "(event_id \<times> event_id list) list" and i :: event_id and queue reached
  assume i: "i \<notin> set reached"
  let ?U = "set (concat (map snd children))"
  have "(?U \<union> set (queue @ children_of children i)) - set (i # reached)
      \<subset> (?U \<union> set (i # queue)) - set reached"
    using i children_of_subset [of children i] by auto
  then have "card ((?U \<union> set (queue @ children_of children i)) - set (i # reached))
      < card ((?U \<union> set (i # queue)) - set reached)"
    by (intro psubset_card_mono) auto
  then show "((children, queue @ children_of children i, i # reached), children, i # queue, reached)
    \<in> measures [\<lambda>(children, queue, reached).
          card ((set (concat (map snd children)) \<union> set queue) - set reached),
        \<lambda>(children, queue, reached). length queue]" by simp
qed (auto simp: insert_absorb)

definition calculate_conflicted_subgraph ::
  "event_id list state_map \<Rightarrow> event_store \<Rightarrow> (event_id list \<times> event_id list) option" where
  "calculate_conflicted_subgraph conflicted store =
     (let conflicted_events = remdups (concat (map snd conflicted));
          (seen, missing, children) = back_search store conflicted_events conflicted_events [] [];
          reached = forward_search children conflicted_events []
      in Some (filter (\<lambda>i. i \<in> set reached) seen, missing))"

section \<open>What the searches find\<close>

definition auth_edges :: "event_store \<Rightarrow> (event_id \<times> event_id) set" where
  "auth_edges store = {(i, a). \<exists>ev. fetch_event store i = Some ev \<and> a \<in> set (ev_auth ev)}"

lemma back_edges_children:
  "back_edges i as (seen, children, work) = (seen', children', work') \<Longrightarrow>
     set (children_of children' a) = set (children_of children a) \<union> (if a \<in> set as then {i} else {})"
proof (induction as arbitrary: seen children work)
  case (Cons b as)
  let ?children = "AList.map_default b [i] (\<lambda>xs. xs @ [i]) children"
  have "set (children_of ?children a) = set (children_of children a) \<union> (if a = b then {i} else {})"
    by (auto simp: children_of_def alist.get_entry split: option.splits)
  moreover obtain seen'' work'' where "back_edges i as (seen'', ?children, work'') = (seen', children', work')"
    using Cons.prems by (auto simp: Let_def split: if_splits)
  note Cons.IH [OF this]
  ultimately show ?case by auto
qed simp

text \<open>
  The invariant of the backwards search from the events \<open>C\<close>: what was seen is reachable, and
  every event seen and not waiting has its edges recorded or is missing.
\<close>

definition back_inv ::
  "event_store \<Rightarrow> event_id set \<Rightarrow> event_id list \<Rightarrow> event_id list \<Rightarrow> event_id list
     \<Rightarrow> (event_id \<times> event_id list) list \<Rightarrow> bool" where
  "back_inv store C work seen missing children \<longleftrightarrow>
     C \<union> set work \<subseteq> set seen \<and> set seen \<subseteq> (auth_edges store)\<^sup>* `` C \<and>
     (\<forall>p\<in>set seen - set work. fetch_event store p = None \<longrightarrow> p \<in> set missing) \<and>
     (\<forall>p\<in>set missing. p \<in> set seen \<and> fetch_event store p = None) \<and>
     (\<forall>p\<in>set seen - set work. \<forall>a. (p, a) \<in> auth_edges store \<longrightarrow>
        a \<in> set seen \<and> p \<in> set (children_of children a)) \<and>
     (\<forall>a. \<forall>p\<in>set (children_of children a). p \<in> set seen \<and> (p, a) \<in> auth_edges store)"

lemma back_invD:
  assumes "back_inv store C work seen missing children"
  shows "C \<subseteq> set seen" and "set work \<subseteq> set seen" and "set seen \<subseteq> (auth_edges store)\<^sup>* `` C"
    and "p \<in> set seen \<Longrightarrow> p \<notin> set work \<Longrightarrow> fetch_event store p = None \<Longrightarrow> p \<in> set missing"
    and "p \<in> set missing \<Longrightarrow> p \<in> set seen \<and> fetch_event store p = None"
    and "p \<in> set seen \<Longrightarrow> p \<notin> set work \<Longrightarrow> (p, a) \<in> auth_edges store \<Longrightarrow>
      a \<in> set seen \<and> p \<in> set (children_of children a)"
    and "p \<in> set (children_of children a) \<Longrightarrow> p \<in> set seen \<and> (p, a) \<in> auth_edges store"
  using assms unfolding back_inv_def by blast+

lemma back_invI:
  assumes "C \<subseteq> set seen" and "set work \<subseteq> set seen" and "set seen \<subseteq> (auth_edges store)\<^sup>* `` C"
    and "\<And>p. p \<in> set seen \<Longrightarrow> p \<notin> set work \<Longrightarrow> fetch_event store p = None \<Longrightarrow> p \<in> set missing"
    and "\<And>p. p \<in> set missing \<Longrightarrow> p \<in> set seen \<and> fetch_event store p = None"
    and "\<And>p a. p \<in> set seen \<Longrightarrow> p \<notin> set work \<Longrightarrow> (p, a) \<in> auth_edges store \<Longrightarrow>
      a \<in> set seen \<and> p \<in> set (children_of children a)"
    and "\<And>p a. p \<in> set (children_of children a) \<Longrightarrow> p \<in> set seen \<and> (p, a) \<in> auth_edges store"
  shows "back_inv store C work seen missing children"
  unfolding back_inv_def Un_subset_iff by (intro conjI assms(1-3) ballI allI impI) (use assms(4-7) in blast)+

lemma back_inv_missing:
  assumes inv: "back_inv store C (i # work) seen missing children" and i: "fetch_event store i = None"
  shows "back_inv store C work seen (missing @ [i]) children"
proof (rule back_invI)
  note D = back_invD [OF inv]
  show "C \<subseteq> set seen" "set seen \<subseteq> (auth_edges store)\<^sup>* `` C" by (rule D)+
  show "set work \<subseteq> set seen" using D(2) by simp
  show "p \<in> set (missing @ [i])" if "p \<in> set seen" "p \<notin> set work" "fetch_event store p = None" for p
    using D(4) [of p] that by (cases "p = i") auto
  show "p \<in> set seen \<and> fetch_event store p = None" if "p \<in> set (missing @ [i])" for p
    using D(2) D(5) [of p] that i by (cases "p = i") auto
  show "a \<in> set seen \<and> p \<in> set (children_of children a)"
    if "p \<in> set seen" "p \<notin> set work" "(p, a) \<in> auth_edges store" for p a
    using D(6) [of p a] that i by (cases "p = i") (auto simp: auth_edges_def)
  show "p \<in> set seen \<and> (p, a) \<in> auth_edges store" if "p \<in> set (children_of children a)" for p a
    using that by (rule D(7))
qed

lemma back_inv_found:
  assumes inv: "back_inv store C (i # work) seen missing children"
    and ev: "fetch_event store i = Some ev"
    and step: "back_edges i (ev_auth ev) (seen, children, work) = (seen', children', work')"
  shows "back_inv store C work' seen' missing children'"
proof (rule back_invI)
  note D = back_invD [OF inv]
  have edges: "(i, a) \<in> auth_edges store \<longleftrightarrow> a \<in> set (ev_auth ev)" for a
    using ev by (simp add: auth_edges_def)
  obtain new where new: "set seen' = set seen \<union> set (ev_auth ev)" "work' = work @ new"
    "set new = set (ev_auth ev) - set seen" using back_edges_seen [OF step] by blast
  note children = back_edges_children [OF step]
  have i: "i \<in> set seen" using D(2) by simp
  have "set (ev_auth ev) \<subseteq> (auth_edges store)\<^sup>* `` C"
    using edges i D(3) by (blast intro: rtrancl_into_rtrancl)
  then show "set seen' \<subseteq> (auth_edges store)\<^sup>* `` C" using D(3) new(1) by simp
  show "C \<subseteq> set seen'" using D(1) new(1) by auto
  show "set work' \<subseteq> set seen'" using D(2) new by auto
  show "p \<in> set missing" if "p \<in> set seen'" "p \<notin> set work'" "fetch_event store p = None" for p
    using D(4) [of p] that new ev by (cases "p = i") auto
  show "p \<in> set seen' \<and> fetch_event store p = None" if "p \<in> set missing" for p
    using D(5) [OF that] new(1) by simp
  show "a \<in> set seen' \<and> p \<in> set (children_of children' a)"
    if "p \<in> set seen'" "p \<notin> set work'" "(p, a) \<in> auth_edges store" for p a
    using D(6) [of p a] that new edges by (cases "p = i") (auto simp: children)
  show "p \<in> set seen' \<and> (p, a) \<in> auth_edges store" if "p \<in> set (children_of children' a)" for p a
    using D(7) [of p a] that new(1) i edges by (auto simp: children split: if_splits)
qed

lemma back_search_inv:
  assumes "back_inv store C work seen missing children"
  shows "case back_search store work seen missing children of
    (seen', missing', children') \<Rightarrow> back_inv store C [] seen' missing' children'"
  using assms
proof (induction store work seen missing children rule: back_search.induct)
  case (2 store i work seen missing children)
  show ?case
  proof (cases "fetch_event store i")
    case None
    with 2 back_inv_missing [OF "2.prems"] show ?thesis by simp
  next
    case (Some ev)
    obtain seen' children' work' where
      st: "back_edges i (ev_auth ev) (seen, children, work) = (seen', children', work')"
      by (cases "back_edges i (ev_auth ev) (seen, children, work)")
    from "2.IH"(2) [OF Some refl] back_inv_found [OF "2.prems" Some st] Some st
    show ?thesis by simp
  qed
qed simp

lemma back_inv_done:
  assumes "back_inv store C [] seen missing children"
  shows "set seen = (auth_edges store)\<^sup>* `` C"
    and "set missing = {p \<in> set seen. fetch_event store p = None}"
    and "set (children_of children a) = {p \<in> set seen. (p, a) \<in> auth_edges store}"
proof -
  note D = back_invD [OF assms]
  have "auth_edges store `` set seen \<subseteq> set seen" using D(6) by auto
  then have "(auth_edges store)\<^sup>* `` set seen = set seen" by (rule Image_closed_trancl)
  then have "(auth_edges store)\<^sup>* `` C \<subseteq> set seen" using Image_mono [OF subset_refl D(1)] by metis
  then show "set seen = (auth_edges store)\<^sup>* `` C" using D(3) by simp
  show "set missing = {p \<in> set seen. fetch_event store p = None}" using D(4,5) by auto
  show "set (children_of children a) = {p \<in> set seen. (p, a) \<in> auth_edges store}"
    using D(6) [of _ a] D(7) [of _ a] by (intro set_eqI) (simp, blast)
qed

text \<open>The forwards search computes the closure along the recorded edges.\<close>

definition child_edges :: "(event_id \<times> event_id list) list \<Rightarrow> (event_id \<times> event_id) set" where
  "child_edges children = {(a, p). p \<in> set (children_of children a)}"

lemma forward_search_closure:
  assumes "child_edges children `` set reached \<subseteq> set reached \<union> set queue"
  shows "set (forward_search children queue reached) = (child_edges children)\<^sup>* `` (set queue \<union> set reached)"
  using assms
proof (induction children queue reached rule: forward_search.induct)
  case (1 children reached)
  then show ?case by (simp add: Image_closed_trancl)
next
  case (2 children i queue reached)
  show ?case
  proof (cases "i \<in> set reached")
    case True
    with 2 show ?thesis by (simp add: insert_absorb)
  next
    case False
    let ?R = "child_edges children"
    have next_set: "set (children_of children i) = ?R `` {i}" by (auto simp: child_edges_def)
    have "?R `` set (i # reached) \<subseteq> set (i # reached) \<union> set (queue @ children_of children i)"
      using "2.prems" next_set by auto
    with "2.IH"(2) False have "set (forward_search children (i # queue) reached) =
        ?R\<^sup>* `` (set queue \<union> ?R `` {i} \<union> insert i (set reached))"
      by (simp add: next_set)
    also have "\<dots> = ?R\<^sup>* `` (set (i # queue) \<union> set reached)"
      by (auto intro: converse_rtrancl_into_rtrancl)
    finally show ?thesis .
  qed
qed

text \<open>Inside what the backwards search saw, the recorded edges lead to the same events.\<close>

lemma child_edges_reach:
  assumes seen: "S = (auth_edges store)\<^sup>* `` C" and "x \<in> S"
    and "\<And>a. set (children_of children a) = {p \<in> S. (p, a) \<in> auth_edges store}"
  shows "x \<in> (child_edges children)\<^sup>* `` C \<longleftrightarrow> (\<exists>b\<in>C. (x, b) \<in> (auth_edges store)\<^sup>*)"
proof
  assume "x \<in> (child_edges children)\<^sup>* `` C"
  then obtain b where b: "b \<in> C" "(b, x) \<in> (child_edges children)\<^sup>*" by blast
  have "child_edges children \<subseteq> (auth_edges store)\<inverse>" by (auto simp: child_edges_def assms(3))
  from rtrancl_mono [OF this] b(2) have "(b, x) \<in> ((auth_edges store)\<inverse>)\<^sup>*" by (rule subsetD)
  with b(1) show "\<exists>b\<in>C. (x, b) \<in> (auth_edges store)\<^sup>*" by (auto simp: rtrancl_converse)
next
  assume "\<exists>b\<in>C. (x, b) \<in> (auth_edges store)\<^sup>*"
  then obtain b where b: "b \<in> C" "(x, b) \<in> (auth_edges store)\<^sup>*" by blast
  from b(2) \<open>x \<in> S\<close> show "x \<in> (child_edges children)\<^sup>* `` C"
  proof (induction rule: converse_rtrancl_induct)
    case base
    with b(1) show ?case by blast
  next
    case (step y z)
    then have "z \<in> S" unfolding seen by (blast intro: rtrancl_into_rtrancl)
    moreover have "(z, y) \<in> child_edges children"
      using step by (simp add: child_edges_def assms(3))
    ultimately show ?case using step.IH by (blast intro: rtrancl_into_rtrancl)
  qed
qed

lemma conflicted_subgraph_sets:
  assumes "calculate_conflicted_subgraph conflicted store = Some (sub, missing)"
  defines "C \<equiv> set (concat (map snd conflicted))" and "E \<equiv> auth_edges store"
  shows "set sub = {x. (\<exists>a\<in>C. (a, x) \<in> E\<^sup>*) \<and> (\<exists>b\<in>C. (x, b) \<in> E\<^sup>*)}"
    and "set missing = {x \<in> E\<^sup>* `` C. fetch_event store x = None}"
proof -
  let ?c = "remdups (concat (map snd conflicted))"
  obtain seen children where b: "back_search store ?c ?c [] [] = (seen, missing, children)"
    and sub: "sub = filter (\<lambda>i. i \<in> set (forward_search children ?c [])) seen"
    using assms(1) by (auto simp: calculate_conflicted_subgraph_def Let_def split: prod.splits)
  have C: "set ?c = C" by (simp add: C_def)
  have "back_inv store C ?c ?c [] []" by (auto simp: back_inv_def children_of_def C_def)
  from back_search_inv [OF this] have inv: "back_inv store C [] seen missing children" by (simp add: b)
  note seen = back_inv_done [OF inv]
  have "set (forward_search children ?c []) = (child_edges children)\<^sup>* `` C"
    by (subst forward_search_closure) (simp_all add: C_def)
  then have "x \<in> set sub \<longleftrightarrow> x \<in> set seen \<and> x \<in> (child_edges children)\<^sup>* `` C" for x
    by (auto simp: sub)
  also have "\<dots> x \<longleftrightarrow> x \<in> set seen \<and> (\<exists>b\<in>C. (x, b) \<in> E\<^sup>*)" for x
    using child_edges_reach [OF seen(1) _ seen(3), of x] unfolding E_def by blast
  finally show "set sub = {x. (\<exists>a\<in>C. (a, x) \<in> E\<^sup>*) \<and> (\<exists>b\<in>C. (x, b) \<in> E\<^sup>*)}"
    unfolding seen(1) E_def by blast
  show "set missing = {x \<in> E\<^sup>* `` C. fetch_event store x = None}"
    using seen(1,2) by (simp add: E_def)
qed

text \<open>
  The conflicted subgraph consists of exactly the events that lie on a path of auth events
  between two conflicted events (the conflicted events themselves included), and the events
  reported as missing are exactly those in the auth chains of conflicted events that cannot be
  fetched.
\<close>
lemma conflicted_subgraph_is_between:
  "\<exists>sub missing. calculate_conflicted_subgraph conflicted store = Some (sub, missing) \<and>
     set sub = {x. (\<exists>a\<in>set (concat (map snd conflicted)). (a, x) \<in> (auth_edges store)\<^sup>*) \<and>
                   (\<exists>b\<in>set (concat (map snd conflicted)). (x, b) \<in> (auth_edges store)\<^sup>*)} \<and>
     set missing = {x. fetch_event store x = None \<and>
                   (\<exists>a\<in>set (concat (map snd conflicted)). (a, x) \<in> (auth_edges store)\<^sup>*)}"
proof -
  obtain sub missing where "calculate_conflicted_subgraph conflicted store = Some (sub, missing)"
    by (cases "calculate_conflicted_subgraph conflicted store")
      (auto simp: calculate_conflicted_subgraph_def Let_def split: prod.splits)
  from conflicted_subgraph_sets [OF this] this show ?thesis by blast
qed

end
