(* ===== verification/Power_Sort.thy ===== *)
theory Power_Sort
  imports Auth_Graph Sample_Codec Kahn
begin

text \<open>
  The reverse topological power sort of \<^verbatim>\<open>state_res/mod.rs\<close>: the graph of the events to
  sort (\<^verbatim>\<open>reverse_topological_power_sort\<close>), the power level of each sender
  (\<^verbatim>\<open>get_power_level_for_sender\<close>, with its two caches as explicit state), and the
  lexicographical topological sort over Kahn's algorithm.
\<close>

definition is_type_and_key :: "event \<Rightarrow> event_type \<Rightarrow> string \<Rightarrow> bool" where
  "is_type_and_key ev t k \<longleftrightarrow> ev_kind ev = t \<and> ev_state_key ev = Some k"

definition is_power_event :: "'v codec \<Rightarrow> event \<Rightarrow> bool" where
  "is_power_event c ev =
     (case ev_kind ev of
        RoomPowerLevels \<Rightarrow> ev_state_key ev = Some ''''
      | RoomJoinRules \<Rightarrow> ev_state_key ev = Some ''''
      | RoomCreate \<Rightarrow> ev_state_key ev = Some ''''
      | RoomMember \<Rightarrow>
          (case c_member c (ev_content ev) of
             Some m \<Rightarrow> m \<in> {Leave, Ban} \<and> Some (ev_sender ev) \<noteq> ev_state_key ev
           | None \<Rightarrow> False)
      | _ \<Rightarrow> False)"

definition is_power_event_id :: "'v codec \<Rightarrow> event_store \<Rightarrow> event_id \<Rightarrow> bool" where
  "is_power_event_id c store i =
     (case fetch_event store i of Some ev \<Rightarrow> is_power_event c ev | None \<Rightarrow> False)"

section \<open>The power level of a sender\<close>

text \<open>The caches that one run of \<^verbatim>\<open>resolve\<close> shares between its sorts.\<close>

record pl_caches =
  parsed_pl :: "(event_id \<times> power_levels_fields) list"
  sender_pl :: "((user_id \<times> event_id option) \<times> int) list"

text \<open>
  The scan of the auth events: an event that was parsed as power levels before is taken
  again, otherwise the first create event and the first power level event are kept, and the
  scan stops once both are known.
\<close>

fun scan_auth ::
  "event_store \<Rightarrow> (event_id \<times> power_levels_fields) list \<Rightarrow> event_id list \<Rightarrow> event option
     \<Rightarrow> event option \<Rightarrow> event option \<times> event option" where
  "scan_auth store parsed [] creator pl = (creator, pl)"
| "scan_auth store parsed (a # as) creator pl =
     (if a \<in> fst ` set parsed
      then scan_auth store parsed as creator
             (case fetch_event store a of Some aev \<Rightarrow> Some aev | None \<Rightarrow> pl)
      else
        let (creator', pl') =
              (case fetch_event store a of
                 None \<Rightarrow> (creator, pl)
               | Some aev \<Rightarrow>
                   if is_type_and_key aev RoomCreate '''' \<and> creator = None then (Some aev, pl)
                   else if is_type_and_key aev RoomPowerLevels '''' \<and> pl = None
                   then (creator, Some aev)
                   else (creator, pl))
        in if creator' \<noteq> None \<and> pl' \<noteq> None then (creator', pl')
           else scan_auth store parsed as creator' pl')"

definition parse_or_default :: "'v codec \<Rightarrow> event \<Rightarrow> power_levels_fields" where
  "parse_or_default c ev =
     (case plf_parse c (ev_content ev) of
        Inr f \<Rightarrow> f
      | Inl _ \<Rightarrow> \<lparr>plf_users = [], plf_users_default = 0\<rparr>)"

definition is_privileged_creator :: "'v codec \<Rightarrow> event option \<Rightarrow> user_id \<Rightarrow> bool" where
  "is_privileged_creator c creator s =
     (case creator of
        None \<Rightarrow> False
      | Some cev \<Rightarrow>
          (case c_create c (ev_content cev) of
             None \<Rightarrow> False
           | Some cc \<Rightarrow>
               (case room_version_new (cc_room_version cc) of
                  Inl _ \<Rightarrow> False
                | Inr rv \<Rightarrow> explicitly_privilege_room_creators rv)
               \<and> (ev_sender cev = s
                  \<or> (case cc_additional_creators cc of None \<Rightarrow> False | Some cs \<Rightarrow> s \<in> set cs))))"

definition creator_level :: "'v codec \<Rightarrow> event \<Rightarrow> user_id \<Rightarrow> int" where
  "creator_level c cev s =
     (let by_content = Option.bind (c_create c (ev_content cev)) cc_creator
      in if (case by_content of Some u \<Rightarrow> u = s | None \<Rightarrow> ev_sender cev = s) then int_max else 0)"

text \<open>The level under a power level event, through both caches.\<close>

definition level_under ::
  "'v codec \<Rightarrow> event option \<Rightarrow> event \<Rightarrow> user_id \<Rightarrow> pl_caches \<Rightarrow> int \<times> pl_caches" where
  "level_under c creator plev s caches =
     (let pl_id = ev_id plev;
          parsed = AList.map_default pl_id (parse_or_default c plev) id (parsed_pl caches);
          caches' = caches\<lparr>parsed_pl := parsed\<rparr>;
          f = the (map_of parsed pl_id);
          key = (s, Some pl_id)
      in case map_of (sender_pl caches') key of
           Some l \<Rightarrow> (l, caches')
         | None \<Rightarrow>
             let l = (if is_privileged_creator c creator s then int_max else user_level f s)
             in (l, caches'\<lparr>sender_pl := AList.update key l (sender_pl caches')\<rparr>))"

definition get_power_level_for_sender ::
  "'v codec \<Rightarrow> event_store \<Rightarrow> power_levels_fields option \<Rightarrow> event_id \<Rightarrow> pl_caches \<Rightarrow> int \<times> pl_caches"
where
  "get_power_level_for_sender c store global i caches =
     (let event = fetch_event store i in
      case global of
        Some f \<Rightarrow> ((case event of Some ev \<Rightarrow> user_level f (ev_sender ev) | None \<Rightarrow> 0), caches)
      | None \<Rightarrow>
          (case event of
             None \<Rightarrow> (0, caches)
           | Some ev \<Rightarrow>
               if is_type_and_key ev RoomCreate '''' then (int_max, caches)
               else
                 (case scan_auth store (parsed_pl caches) (ev_auth ev) None None of
                    (creator, Some plev) \<Rightarrow> level_under c creator plev (ev_sender ev) caches
                  | (Some cev, None) \<Rightarrow> (creator_level c cev (ev_sender ev), caches)
                  | (None, None) \<Rightarrow> (0, caches))))"

section \<open>The graph\<close>

text \<open>The local cache holds the events to sort and those of the auth difference.\<close>

definition local_event :: "event_store \<Rightarrow> event_id list \<Rightarrow> event_id \<Rightarrow> event option" where
  "local_event store needed i = (if i \<in> set needed then fetch_event store i else None)"

type_synonym event_graph = "(event_id \<times> event_id list) list"

definition auth_in_diff :: "event_store \<Rightarrow> event_id list \<Rightarrow> event_id list \<Rightarrow> event_id \<Rightarrow> event_id list" where
  "auth_in_diff store needed diff i =
     (case local_event store needed i of
        None \<Rightarrow> []
      | Some ev \<Rightarrow> filter (\<lambda>a. a \<in> set diff) (ev_auth ev))"

text \<open>One walk from an event, with a stack of events to visit.\<close>

function graph_walk ::
  "event_store \<Rightarrow> event_id list \<Rightarrow> event_id list \<Rightarrow> event_id list \<Rightarrow> event_graph \<Rightarrow> event_graph" where
  "graph_walk store needed diff [] graph = graph"
| "graph_walk store needed diff (i # stack) graph =
     (if i \<in> fst ` set graph then graph_walk store needed diff stack graph
      else
        let as = auth_in_diff store needed diff i;
            new = filter (\<lambda>a. a \<notin> insert i (fst ` set graph)) as
        in graph_walk store needed diff (rev new @ stack) ((i, remdups as) # graph))"
  by pat_completeness auto
termination
proof (relation "measures [\<lambda>(store, needed, diff, stack, graph).
      card ((set diff \<union> set stack) - fst ` set graph),
    \<lambda>(store, needed, diff, stack, graph). length stack]")
  fix store needed diff i stack graph as new
  assume i: "i \<notin> fst ` set (graph :: event_graph)"
    and as: "as = auth_in_diff store needed diff i"
    and new: "new = filter (\<lambda>a. a \<notin> insert i (fst ` set graph)) as"
  have "set as \<subseteq> set diff" by (auto simp: as auth_in_diff_def split: option.splits)
  then have "(set diff \<union> set (rev new @ stack)) - fst ` set ((i, remdups as) # graph)
      \<subset> (set diff \<union> set (i # stack)) - fst ` set graph"
    using i by (auto simp: new)
  then have "card ((set diff \<union> set (rev new @ stack)) - fst ` set ((i, remdups as) # graph))
      < card ((set diff \<union> set (i # stack)) - fst ` set graph)"
    by (intro psubset_card_mono) auto
  then show "((store, needed, diff, rev new @ stack, (i, remdups as) # graph),
       store, needed, diff, i # stack, graph)
     \<in> measures [\<lambda>(store, needed, diff, stack, graph). card ((set diff \<union> set stack) - fst ` set graph),
         \<lambda>(store, needed, diff, stack, graph). length stack]" by simp
qed (auto simp: insert_absorb)

definition build_graph ::
  "event_store \<Rightarrow> event_id list \<Rightarrow> event_id list \<Rightarrow> event_id list \<Rightarrow> event_graph" where
  "build_graph store needed diff events =
     fold (\<lambda>i graph. graph_walk store needed diff [i] graph) events []"

section \<open>The sort\<close>

text \<open>The nodes in the order in which the graph is indexed.\<close>

definition graph_nodes :: "event_graph \<Rightarrow> event_id list" where
  "graph_nodes graph =
     fold (\<lambda>x xs. if x \<in> set xs then xs else xs @ [x])
       (concat (map (\<lambda>(i, es). i # es) graph)) []"

text \<open>\<^verbatim>\<open>Reverse(power_level)\<close> orders like the negated level.\<close>

definition lexicographical_topological_sort ::
  "event_graph \<Rightarrow> (event_id \<Rightarrow> (int \<times> nat) sres) \<Rightarrow> event_id list sres" where
  "lexicographical_topological_sort graph key_fn =
     (let index_to_id = graph_nodes graph in
      try_res (map_res key_fn index_to_id) (\<lambda>keys.
      Inr (kahn_sort
        (map (\<lambda>(i, (power_level, ts)).
            (i, (case map_of graph i of None \<Rightarrow> [] | Some es \<Rightarrow> es), (- power_level, ts, i)))
          (zip index_to_id keys)))))"

text \<open>The sort keys of all nodes, threading the caches; events that cannot be fetched have none.\<close>

fun event_keys ::
  "'v codec \<Rightarrow> event_store \<Rightarrow> event_id list \<Rightarrow> power_levels_fields option \<Rightarrow> event_id list \<Rightarrow> pl_caches
     \<Rightarrow> (event_id \<times> int \<times> nat) list \<times> pl_caches" where
  "event_keys c store needed global [] caches = ([], caches)"
| "event_keys c store needed global (i # is) caches =
     (let (pl, caches') = get_power_level_for_sender c store global i caches;
          (keys, caches'') = event_keys c store needed global is caches'
      in ((case local_event store needed i of
             None \<Rightarrow> keys
           | Some ev \<Rightarrow> (i, pl, ev_ts ev) # keys), caches''))"

definition reverse_topological_power_sort ::
  "'v codec \<Rightarrow> event_store \<Rightarrow> event_id list \<Rightarrow> event_id list \<Rightarrow> power_levels_fields option \<Rightarrow> pl_caches
     \<Rightarrow> event_id list sres \<times> pl_caches" where
  "reverse_topological_power_sort c store events_to_sort auth_diff global caches =
     (let needed = remdups (auth_diff @ events_to_sort);
          graph = build_graph store needed auth_diff events_to_sort;
          (event_to_key, caches') = event_keys c store needed global (map fst graph) caches
      in (lexicographical_topological_sort graph
            (\<lambda>i. ok_or (map_of event_to_key i) (NotFound '''')), caches'))"

declare graph_walk.simps [simp del]

section \<open>The graph is closed\<close>

definition diff_edges :: "event_store \<Rightarrow> event_id list \<Rightarrow> event_id list \<Rightarrow> (event_id \<times> event_id) set" where
  "diff_edges store needed diff = {(i, a). a \<in> set (auth_in_diff store needed diff i)}"

text \<open>Every node has its edges, and every edge leads to a node or to the stack.\<close>

definition graph_inv ::
  "event_store \<Rightarrow> event_id list \<Rightarrow> event_id list \<Rightarrow> event_id list \<Rightarrow> event_graph \<Rightarrow> bool" where
  "graph_inv store needed diff stack graph \<longleftrightarrow>
     distinct (map fst graph) \<and>
     (\<forall>(i, es)\<in>set graph. es = remdups (auth_in_diff store needed diff i)) \<and>
     (\<forall>i\<in>fst ` set graph. \<forall>a\<in>set (auth_in_diff store needed diff i).
        a \<in> fst ` set graph \<union> set stack)"

lemma graph_inv_visit:
  assumes "graph_inv store needed diff (i # stack) graph" and "i \<notin> fst ` set graph"
  shows "graph_inv store needed diff
    (rev (filter (\<lambda>a. a \<notin> insert i (fst ` set graph)) (auth_in_diff store needed diff i)) @ stack)
    ((i, remdups (auth_in_diff store needed diff i)) # graph)"
  using assms unfolding graph_inv_def by (intro conjI ballI) auto

lemma graph_inv_skip:
  "graph_inv store needed diff (i # stack) graph \<Longrightarrow> i \<in> fst ` set graph \<Longrightarrow>
     graph_inv store needed diff stack graph"
  unfolding graph_inv_def by (elim conjE, intro conjI ballI) auto

lemma graph_inv_closed:
  "graph_inv store needed diff [] graph \<Longrightarrow>
     (diff_edges store needed diff)\<^sup>* `` fst ` set graph = fst ` set graph"
  by (rule Image_closed_trancl) (auto simp: graph_inv_def diff_edges_def)

lemma graph_walk_spec:
  assumes "graph_inv store needed diff stack graph"
  shows "graph_inv store needed diff [] (graph_walk store needed diff stack graph) \<and>
    fst ` set (graph_walk store needed diff stack graph) =
      fst ` set graph \<union> (diff_edges store needed diff)\<^sup>* `` set stack"
  using assms
proof (induction store needed diff stack graph rule: graph_walk.induct)
  case (2 store needed diff i stack graph)
  let ?R = "diff_edges store needed diff" and ?keys = "fst ` set graph"
  show ?case
  proof (cases "i \<in> ?keys")
    case True
    with 2 graph_inv_skip [OF "2.prems"]
    have IH: "graph_inv store needed diff [] (graph_walk store needed diff stack graph)"
      "fst ` set (graph_walk store needed diff stack graph) = ?keys \<union> ?R\<^sup>* `` set stack" by auto
    from graph_inv_closed [OF IH(1)] have "?R\<^sup>* `` {i} \<subseteq> ?keys \<union> ?R\<^sup>* `` set stack"
      unfolding IH(2) using True by blast
    moreover have "?R\<^sup>* `` set (i # stack) = ?R\<^sup>* `` {i} \<union> ?R\<^sup>* `` set stack" by auto
    ultimately show ?thesis using True IH by (simp only: graph_walk.simps if_True) blast
  next
    case False
    let ?as = "auth_in_diff store needed diff i"
    let ?new = "filter (\<lambda>a. a \<notin> insert i ?keys) ?as"
    let ?walk = "graph_walk store needed diff (rev ?new @ stack) ((i, remdups ?as) # graph)"
    have step: "graph_walk store needed diff (i # stack) graph = ?walk"
      using False by (simp add: graph_walk.simps Let_def)
    from "2.IH"(2) [OF False refl refl] graph_inv_visit [OF "2.prems" False]
    have IH: "graph_inv store needed diff [] ?walk"
      "fst ` set ?walk = insert i ?keys \<union> ?R\<^sup>* `` set (rev ?new @ stack)" by auto
    note closed = graph_inv_closed [OF IH(1)]
    have "?R\<^sup>* `` insert i (set stack) \<subseteq> fst ` set ?walk"
    proof -
      have "insert i (set stack) \<subseteq> fst ` set ?walk" unfolding IH(2) by auto
      then have "?R\<^sup>* `` insert i (set stack) \<subseteq> ?R\<^sup>* `` fst ` set ?walk" by (rule Image_mono [OF subset_refl])
      then show ?thesis unfolding closed .
    qed
    moreover have "?R\<^sup>* `` set (rev ?new @ stack) \<subseteq> ?R\<^sup>* `` insert i (set stack)"
      by (auto simp: diff_edges_def intro: converse_rtrancl_into_rtrancl)
    ultimately have "fst ` set ?walk = ?keys \<union> ?R\<^sup>* `` set (i # stack)" unfolding IH(2) by auto
    with IH(1) step show ?thesis by simp
  qed
qed (simp add: graph_walk.simps)

lemma build_graph_fold:
  assumes "graph_inv store needed diff [] graph"
  shows "graph_inv store needed diff [] (fold (\<lambda>i g. graph_walk store needed diff [i] g) events graph) \<and>
    fst ` set (fold (\<lambda>i g. graph_walk store needed diff [i] g) events graph) =
      fst ` set graph \<union> (diff_edges store needed diff)\<^sup>* `` set events"
  using assms
proof (induction events arbitrary: graph)
  case (Cons i events)
  have "graph_inv store needed diff [i] graph"
    using Cons.prems unfolding graph_inv_def by (elim conjE, intro conjI ballI) auto
  note walk = graph_walk_spec [OF this]
  from Cons.IH [OF conjunct1 [OF walk]] show ?case
    unfolding fold_simps conjunct2 [OF walk] by auto
qed simp

lemma build_graph_spec:
  "graph_inv store needed diff [] (build_graph store needed diff events)"
  "fst ` set (build_graph store needed diff events) = (diff_edges store needed diff)\<^sup>* `` set events"
proof -
  have "graph_inv store needed diff [] []" by (simp add: graph_inv_def)
  from build_graph_fold [OF this, of events]
  show "graph_inv store needed diff [] (build_graph store needed diff events)"
    "fst ` set (build_graph store needed diff events) = (diff_edges store needed diff)\<^sup>* `` set events"
    by (simp_all add: build_graph_def)
qed

lemma build_graph_edges:
  assumes "i \<in> fst ` set (build_graph store needed diff events)"
  shows "map_of (build_graph store needed diff events) i =
    Some (remdups (auth_in_diff store needed diff i))"
proof -
  from assms obtain es where "(i, es) \<in> set (build_graph store needed diff events)" by auto
  with build_graph_spec(1) [of store needed diff events] show ?thesis
    unfolding graph_inv_def by (auto simp: map_of_eq_Some_iff)
qed

lemma set_graph_nodes: "set (graph_nodes graph) = fst ` set graph \<union> \<Union> (set ` snd ` set graph)"
  and distinct_graph_nodes: "distinct (graph_nodes graph)"
proof -
  have "set (fold (\<lambda>x xs. if x \<in> set xs then xs else xs @ [x]) ys xs) = set xs \<union> set ys \<and>
      (distinct xs \<longrightarrow> distinct (fold (\<lambda>x xs. if x \<in> set xs then xs else xs @ [x]) ys xs))"
    for ys xs :: "event_id list"
    by (induction ys arbitrary: xs) auto
  note nodes = this [of "concat (map (\<lambda>(i, es). i # es) graph)" "[]", folded graph_nodes_def]
  show "set (graph_nodes graph) = fst ` set graph \<union> \<Union> (set ` snd ` set graph)"
    and "distinct (graph_nodes graph)" using nodes by (auto simp: case_prod_unfold)
qed

lemma graph_nodes_closed:
  assumes "graph_inv store needed diff [] graph"
  shows "set (graph_nodes graph) = fst ` set graph"
proof -
  have "set es \<subseteq> fst ` set graph" if "(i, es) \<in> set graph" for i es
  proof -
    have "es = remdups (auth_in_diff store needed diff i)"
      using assms that unfolding graph_inv_def by blast
    moreover have "i \<in> fst ` set graph" using that by (rule image_eqI [rotated]) simp
    ultimately show ?thesis using assms by (auto simp: graph_inv_def)
  qed
  then show ?thesis unfolding set_graph_nodes by (intro Un_absorb2 Union_least) fastforce
qed

section \<open>The caches are transparent\<close>

text \<open>
  What the level of a sender should be, without caches: under the first power level event
  among the auth events, or the creator's level when there is none.
\<close>

definition first_of :: "event_store \<Rightarrow> event_type \<Rightarrow> event_id list \<Rightarrow> event option" where
  "first_of store t as =
     List.find (\<lambda>ev. is_type_and_key ev t '''') (List.map_filter (fetch_event store) as)"

definition sender_power ::
  "'v codec \<Rightarrow> event_store \<Rightarrow> power_levels_fields option \<Rightarrow> event_id \<Rightarrow> int" where
  "sender_power c store global i =
     (case fetch_event store i of
        None \<Rightarrow> 0
      | Some ev \<Rightarrow>
          (case global of
             Some f \<Rightarrow> user_level f (ev_sender ev)
           | None \<Rightarrow>
               if is_type_and_key ev RoomCreate '''' then int_max
               else
                 (case first_of store RoomPowerLevels (ev_auth ev) of
                    Some plev \<Rightarrow> user_level (parse_or_default c plev) (ev_sender ev)
                  | None \<Rightarrow>
                      (case first_of store RoomCreate (ev_auth ev) of
                         Some cev \<Rightarrow> creator_level c cev (ev_sender ev)
                       | None \<Rightarrow> 0))))"

text \<open>
  The conditions under which the caches cannot be seen: the store is keyed by event
  identifiers, no event cites two power level events, and no cited create event privileges
  anybody (before version 12 none does, and from version 12 on none is cited).
\<close>

definition plain_store :: "'v codec \<Rightarrow> event_store \<Rightarrow> bool" where
  "plain_store c store \<longleftrightarrow>
     (\<forall>(i, ev)\<in>set store. ev_id ev = i) \<and>
     (\<forall>ev\<in>snd ` set store. \<forall>a\<in>set (ev_auth ev). \<forall>b\<in>set (ev_auth ev). \<forall>x y.
        fetch_event store a = Some x \<longrightarrow> fetch_event store b = Some y \<longrightarrow>
        is_type_and_key x RoomPowerLevels '''' \<longrightarrow> is_type_and_key y RoomPowerLevels '''' \<longrightarrow> x = y) \<and>
     (\<forall>ev\<in>snd ` set store. \<forall>a\<in>set (ev_auth ev). \<forall>cev s. fetch_event store a = Some cev \<longrightarrow>
        \<not> is_privileged_creator c (Some cev) s)"

definition cache_inv :: "'v codec \<Rightarrow> event_store \<Rightarrow> pl_caches \<Rightarrow> bool" where
  "cache_inv c store caches \<longleftrightarrow>
     (\<forall>p f. map_of (parsed_pl caches) p = Some f \<longrightarrow>
        (\<exists>ev. fetch_event store p = Some ev \<and> is_type_and_key ev RoomPowerLevels '''' \<and>
              f = parse_or_default c ev)) \<and>
     (\<forall>s p l. map_of (sender_pl caches) (s, Some p) = Some l \<longrightarrow>
        (\<exists>ev. fetch_event store p = Some ev \<and> l = user_level (parse_or_default c ev) s))"

lemma first_of_simps [simp]:
  "first_of store t [] = None"
  "first_of store t (a # as) =
     (case fetch_event store a of
        Some ev \<Rightarrow> if is_type_and_key ev t '''' then Some ev else first_of store t as
      | None \<Rightarrow> first_of store t as)"
  by (simp_all add: first_of_def map_filter_simps split: option.splits)

lemma first_of_Some:
  "first_of store t as = Some ev \<Longrightarrow>
     is_type_and_key ev t '''' \<and> (\<exists>a\<in>set as. fetch_event store a = Some ev)"
  by (induction as) (auto split: option.splits if_splits)

lemma scan_auth_pl:
  assumes "\<And>p. p \<in> fst ` set parsed \<Longrightarrow>
      \<exists>ev. fetch_event store p = Some ev \<and> is_type_and_key ev RoomPowerLevels ''''"
    and "\<And>a b x y. a \<in> set as \<Longrightarrow> b \<in> set as \<Longrightarrow> fetch_event store a = Some x \<Longrightarrow>
      fetch_event store b = Some y \<Longrightarrow> is_type_and_key x RoomPowerLevels '''' \<Longrightarrow>
      is_type_and_key y RoomPowerLevels '''' \<Longrightarrow> x = y"
    and "\<And>e a x. pl = Some e \<Longrightarrow> a \<in> set as \<Longrightarrow> fetch_event store a = Some x \<Longrightarrow>
      is_type_and_key x RoomPowerLevels '''' \<Longrightarrow> x = e"
  shows "snd (scan_auth store parsed as creator pl) =
    (case pl of Some e \<Rightarrow> Some e | None \<Rightarrow> first_of store RoomPowerLevels as)"
  using assms(2,3)
proof (induction as arbitrary: creator pl)
  case (Cons a as)
  note uniq = Cons.prems(1)
  have IH: "snd (scan_auth store parsed as creator' pl') =
      (case pl' of Some e \<Rightarrow> Some e | None \<Rightarrow> first_of store RoomPowerLevels as)"
    if "\<And>e b x. pl' = Some e \<Longrightarrow> b \<in> set as \<Longrightarrow> fetch_event store b = Some x \<Longrightarrow>
      is_type_and_key x RoomPowerLevels '''' \<Longrightarrow> x = e" for creator' pl'
    by (rule Cons.IH) (use uniq that in \<open>auto intro: uniq\<close>)
  have kept: "snd (scan_auth store parsed as creator' pl) =
      (case pl of Some e \<Rightarrow> Some e | None \<Rightarrow> first_of store RoomPowerLevels as)" for creator'
    by (rule IH) (use Cons.prems(2) in auto)
  show ?case
  proof (cases "fetch_event store a")
    case None
    then have "a \<notin> fst ` set parsed" using assms(1) by fastforce
    with None show ?thesis by (auto simp: kept Let_def split: option.splits)
  next
    case (Some ev)
    show ?thesis
    proof (cases "is_type_and_key ev RoomPowerLevels ''''")
      case True
      have new: "snd (scan_auth store parsed as creator' (Some ev)) = Some ev" for creator'
        by (subst IH) (use uniq [of a _ ev] Some True in \<open>auto\<close>)
      have "pl = Some e \<Longrightarrow> e = ev" for e using Cons.prems(2) [of e a ev] Some True by simp
      moreover have "\<not> is_type_and_key ev RoomCreate ''''" using True by (auto simp: is_type_and_key_def)
      ultimately show ?thesis using Some True new
        by (cases pl) (auto simp: Let_def)
    next
      case False
      then have "a \<notin> fst ` set parsed" using assms(1) Some by fastforce
      with Some False show ?thesis
        using kept [of creator] kept [of "Some ev"] by (auto simp: Let_def split: option.splits)
    qed
  qed
qed (simp split: option.splits)

lemma scan_auth_creator:
  assumes "\<And>p. p \<in> fst ` set parsed \<Longrightarrow>
      \<exists>ev. fetch_event store p = Some ev \<and> is_type_and_key ev RoomPowerLevels ''''"
    and "first_of store RoomPowerLevels as = None"
  shows "fst (scan_auth store parsed as creator None) =
    (case creator of Some e \<Rightarrow> Some e | None \<Rightarrow> first_of store RoomCreate as)"
  using assms(2)
proof (induction as arbitrary: creator)
  case (Cons a as)
  have "a \<notin> fst ` set parsed"
    using assms(1) [of a] Cons.prems by (auto split: option.splits if_splits)
  moreover have "first_of store RoomPowerLevels as = None"
    using Cons.prems by (auto split: option.splits if_splits)
  note Cons.IH [OF this]
  ultimately show ?case using Cons.prems by (auto simp: Let_def split: option.splits if_splits)
qed (simp split: option.splits)

lemma scan_auth_creator_stored:
  "fst (scan_auth store parsed as creator pl) = Some e \<Longrightarrow>
     creator = Some e \<or> (\<exists>a\<in>set as. fetch_event store a = Some e)"
proof (induction as arbitrary: creator pl)
  case (Cons a as)
  then show ?case
    by (auto simp: Let_def split: if_splits option.splits prod.splits)
qed simp

lemma level_under_transparent:
  assumes inv: "cache_inv c store caches" and pl: "fetch_event store (ev_id plev) = Some plev"
    "is_type_and_key plev RoomPowerLevels ''''"
    and priv: "\<not> is_privileged_creator c creator s"
  shows "fst (level_under c creator plev s caches) = user_level (parse_or_default c plev) s"
    and "cache_inv c store (snd (level_under c creator plev s caches))"
proof -
  define parsed where
    "parsed = AList.map_default (ev_id plev) (parse_or_default c plev) id (parsed_pl caches)"
  have old: "map_of (parsed_pl caches) (ev_id plev) = Some f \<Longrightarrow> f = parse_or_default c plev" for f
    using inv pl unfolding cache_inv_def by fastforce
  have here: "map_of parsed (ev_id plev) = Some (parse_or_default c plev)"
    by (auto simp: parsed_def alist.get_entry old split: option.splits)
  have parsed: "\<exists>ev. fetch_event store p = Some ev \<and> is_type_and_key ev RoomPowerLevels '''' \<and>
      f = parse_or_default c ev" if "map_of parsed p = Some f" for p f
    using that inv pl here
    by (cases "p = ev_id plev") (auto simp: parsed_def alist.get_entry cache_inv_def)
  have cached: "l = user_level (parse_or_default c plev) s"
    if "map_of (sender_pl caches) (s, Some (ev_id plev)) = Some l" for l
    using inv pl that unfolding cache_inv_def by fastforce
  show "fst (level_under c creator plev s caches) = user_level (parse_or_default c plev) s"
    using here priv cached
    by (auto simp: level_under_def Let_def parsed_def [symmetric] split: option.splits)
  show "cache_inv c store (snd (level_under c creator plev s caches))"
    using inv here priv pl parsed unfolding level_under_def Let_def parsed_def [symmetric]
    by (auto simp: cache_inv_def AList.update_conv' split: option.splits)
qed

lemma plain_store_fetch:
  assumes "plain_store c store" and "fetch_event store a = Some e"
  shows "ev_id e = a \<and> e \<in> snd ` set store"
proof -
  have "(a, e) \<in> set store" using assms(2) by (simp add: fetch_event_def map_of_SomeD)
  moreover from this have "e \<in> snd ` set store" by (rule image_eqI [rotated]) simp
  ultimately show ?thesis using assms(1) unfolding plain_store_def by blast
qed

lemma get_power_level_transparent:
  assumes plain: "plain_store c store" and inv: "cache_inv c store caches"
  shows "fst (get_power_level_for_sender c store global i caches) = sender_power c store global i \<and>
    cache_inv c store (snd (get_power_level_for_sender c store global i caches))"
proof (cases "fetch_event store i")
  case None
  with inv show ?thesis
    by (auto simp: get_power_level_for_sender_def sender_power_def Let_def split: option.splits)
next
  case (Some ev)
  note stored = plain_store_fetch [OF plain]
  have parsed: "\<exists>ev. fetch_event store p = Some ev \<and> is_type_and_key ev RoomPowerLevels ''''"
    if "p \<in> fst ` set (parsed_pl caches)" for p
  proof -
    from that obtain f where "map_of (parsed_pl caches) p = Some f"
      by (metis map_of_eq_None_iff not_None_eq)
    with inv show ?thesis unfolding cache_inv_def by blast
  qed
  have uniq: "x = y" if "a \<in> set (ev_auth ev)" "b \<in> set (ev_auth ev)" "fetch_event store a = Some x"
    "fetch_event store b = Some y" "is_type_and_key x RoomPowerLevels ''''"
    "is_type_and_key y RoomPowerLevels ''''" for a b x y
    using plain stored [OF Some] that unfolding plain_store_def by blast
  let ?scan = "scan_auth store (parsed_pl caches) (ev_auth ev) None None"
  have pl: "snd ?scan = first_of store RoomPowerLevels (ev_auth ev)"
    using scan_auth_pl [of "parsed_pl caches" store "ev_auth ev" None None, OF parsed uniq] by simp
  show ?thesis
  proof (cases "global = None \<and> \<not> is_type_and_key ev RoomCreate ''''")
    case False
    with Some inv show ?thesis
      by (auto simp: get_power_level_for_sender_def sender_power_def Let_def split: option.splits)
  next
    case True
    show ?thesis
    proof (cases "snd ?scan")
      case None
      then have "fst ?scan = first_of store RoomCreate (ev_auth ev)"
        using scan_auth_creator [of "parsed_pl caches" store "ev_auth ev" None, OF parsed] pl by simp
      with None pl True Some inv show ?thesis
        by (cases ?scan) (auto simp: get_power_level_for_sender_def sender_power_def Let_def
            split: option.splits)
    next
      case plev: (Some plev)
      have "get_power_level_for_sender c store global i caches =
          level_under c (fst ?scan) plev (ev_sender ev) caches"
        using plev True Some
        by (cases ?scan) (simp add: get_power_level_for_sender_def Let_def split: option.splits)
      moreover have "sender_power c store global i = user_level (parse_or_default c plev) (ev_sender ev)"
        using plev pl True Some by (simp add: sender_power_def)
      moreover have "fetch_event store (ev_id plev) = Some plev"
        "is_type_and_key plev RoomPowerLevels ''''"
        using first_of_Some [of store _ "ev_auth ev" plev] plev pl stored by auto
      moreover have "\<not> is_privileged_creator c (fst ?scan) (ev_sender ev)"
      proof (cases "fst ?scan")
        case (Some cev)
        then obtain a where "a \<in> set (ev_auth ev)" "fetch_event store a = Some cev"
          using scan_auth_creator_stored by blast
        with plain stored [OF \<open>fetch_event store i = Some ev\<close>] show ?thesis
          unfolding Some plain_store_def by blast
      qed (simp add: is_privileged_creator_def)
      ultimately show ?thesis using level_under_transparent [OF inv] by simp
    qed
  qed
qed

lemma event_keys_transparent:
  assumes "plain_store c store" and "cache_inv c store caches"
  shows "fst (event_keys c store needed global is caches) =
      List.map_filter (\<lambda>i. map_option (\<lambda>ev. (i, sender_power c store global i, ev_ts ev))
        (local_event store needed i)) is \<and>
    cache_inv c store (snd (event_keys c store needed global is caches))"
  using assms(2)
proof (induction "is" arbitrary: caches)
  case (Cons i "is")
  let ?r = "get_power_level_for_sender c store global i caches"
  have step: "fst ?r = sender_power c store global i" "cache_inv c store (snd ?r)"
    using get_power_level_transparent [OF assms(1) Cons.prems] by auto
  with Cons.IH [OF step(2)] show ?case
    by (auto simp: map_filter_simps case_prod_unfold Let_def split: option.splits)
qed (simp add: map_filter_simps)

section \<open>The order of the result\<close>

lemma event_keys_dom:
  "fst ` set (fst (event_keys c store needed global is caches)) =
     {i \<in> set is. local_event store needed i \<noteq> None}"
  by (induction "is" arbitrary: caches) (auto simp: case_prod_unfold Let_def split: option.splits)

text \<open>The sort as a run of Kahn's algorithm on nodes with their edges and keys.\<close>

lemma lexicographical_sort_nodes:
  assumes "\<forall>i\<in>set (graph_nodes graph). key_fn i = Inr (lv i, tm i)"
  defines "nodes \<equiv> map (\<lambda>i. (i, (case map_of graph i of None \<Rightarrow> [] | Some es \<Rightarrow> es),
      (- lv i, tm i, i))) (graph_nodes graph)"
  shows "lexicographical_topological_sort graph key_fn = Inr (kahn_sort nodes)"
    and "distinct (map fst nodes)" and "fst ` set nodes = set (graph_nodes graph)"
    and "i \<in> set (graph_nodes graph) \<Longrightarrow> node_key nodes i = (- lv i, tm i, i)"
    and "i \<in> set (graph_nodes graph) \<Longrightarrow>
      node_parents nodes i = (case map_of graph i of None \<Rightarrow> {} | Some es \<Rightarrow> set es)"
proof -
  have keys: "map_res key_fn (graph_nodes graph) = Inr (map (\<lambda>i. (lv i, tm i)) (graph_nodes graph))"
    using assms(1) unfolding map_res_eq_Inr by (simp add: list_all2_conv_all_nth)
  have "map (\<lambda>(i, power_level, ts). (i, (case map_of graph i of None \<Rightarrow> [] | Some es \<Rightarrow> es),
      (- power_level, ts, i))) (zip (graph_nodes graph) (map (\<lambda>i. (lv i, tm i)) (graph_nodes graph))) = nodes"
    unfolding nodes_def by (rule nth_equalityI) simp_all
  then show "lexicographical_topological_sort graph key_fn = Inr (kahn_sort nodes)"
    by (simp add: lexicographical_topological_sort_def keys)
  have fst: "map fst nodes = graph_nodes graph" by (simp add: nodes_def comp_def)
  then show dist: "distinct (map fst nodes)" by (simp add: distinct_graph_nodes)
  show "fst ` set nodes = set (graph_nodes graph)" using fst by (metis list.set_map)
  assume "i \<in> set (graph_nodes graph)"
  then have "map_of nodes i = Some ((case map_of graph i of None \<Rightarrow> [] | Some es \<Rightarrow> es),
      (- lv i, tm i, i))"
    using dist by (intro map_of_is_SomeI) (auto simp: nodes_def)
  then show "node_key nodes i = (- lv i, tm i, i)"
    "node_parents nodes i = (case map_of graph i of None \<Rightarrow> {} | Some es \<Rightarrow> set es)"
    by (auto simp: node_key_def node_parents_def split: option.splits)
qed

text \<open>The nodes of the sort, their keys and their edges.\<close>

lemma power_sort_graph:
  assumes "\<forall>i\<in>set diff \<union> set events. fetch_event store i \<noteq> None"
  defines "needed \<equiv> remdups (diff @ events)"
  defines "graph \<equiv> build_graph store needed diff events"
  shows "set (graph_nodes graph) = (diff_edges store needed diff)\<^sup>* `` set events"
    and "set (graph_nodes graph) \<subseteq> set diff \<union> set events"
    and "i \<in> set (graph_nodes graph) \<Longrightarrow> map_of graph i = Some (remdups (auth_in_diff store needed diff i))"
    and "i \<in> set (graph_nodes graph) \<Longrightarrow> local_event store needed i \<noteq> None"
proof -
  show nodes: "set (graph_nodes graph) = (diff_edges store needed diff)\<^sup>* `` set events"
    unfolding graph_def graph_nodes_closed [OF build_graph_spec(1)] by (rule build_graph_spec(2))
  have "diff_edges store needed diff `` (set diff \<union> set events) \<subseteq> set diff \<union> set events"
    by (auto simp: diff_edges_def auth_in_diff_def split: option.splits)
  from Image_closed_trancl [OF this]
  show sub: "set (graph_nodes graph) \<subseteq> set diff \<union> set events" unfolding nodes by blast
  assume i: "i \<in> set (graph_nodes graph)"
  then show "map_of graph i = Some (remdups (auth_in_diff store needed diff i))"
    unfolding graph_def by (intro build_graph_edges) (simp add: graph_nodes_closed [OF build_graph_spec(1)])
  show "local_event store needed i \<noteq> None"
    using assms(1) i sub by (auto simp: local_event_def needed_def)
qed

lemma event_keys_ts:
  "(i, l, t) \<in> set (fst (event_keys c store needed global is caches)) \<Longrightarrow>
     \<exists>ev. local_event store needed i = Some ev \<and> t = ev_ts ev"
  by (induction "is" arbitrary: caches) (auto simp: case_prod_unfold Let_def split: option.splits)

lemma power_sort_result:
  assumes fetchable: "\<forall>i\<in>set diff \<union> set events. fetch_event store i \<noteq> None"
  obtains lv nodes where
    "fst (reverse_topological_power_sort c store events diff global caches) = Inr (kahn_sort nodes)"
    "distinct (map fst nodes)"
    "fst ` set nodes = (diff_edges store (remdups (diff @ events)) diff)\<^sup>* `` set events"
    "\<forall>i\<in>fst ` set nodes.
       node_parents nodes i = set (auth_in_diff store (remdups (diff @ events)) diff i)"
    "\<forall>i\<in>fst ` set nodes.
       \<exists>ev. fetch_event store i = Some ev \<and> node_key nodes i = (- lv i, ev_ts ev, i)"
    "plain_store c store \<and> cache_inv c store caches \<longrightarrow>
       (\<forall>i\<in>fst ` set nodes. lv i = sender_power c store global i)"
proof -
  let ?needed = "remdups (diff @ events)"
  define graph where "graph = build_graph store ?needed diff events"
  define keys where "keys = fst (event_keys c store ?needed global (map fst graph) caches)"
  define lv where "lv i = fst (the (map_of keys i))" for i
  define tm where "tm i = snd (the (map_of keys i))" for i
  define nodes where "nodes = map (\<lambda>i. (i, (case map_of graph i of None \<Rightarrow> [] | Some es \<Rightarrow> es),
      (- lv i, tm i, i))) (graph_nodes graph)"
  note g = power_sort_graph [OF fetchable, folded graph_def]
  have "fst ` set keys = set (graph_nodes graph)"
    unfolding keys_def event_keys_dom using g(4)
    by (auto simp: graph_def graph_nodes_closed [OF build_graph_spec(1)])
  then have key: "map_of keys i = Some (lv i, tm i)" if "i \<in> set (graph_nodes graph)" for i
    using that by (cases "map_of keys i") (auto simp: lv_def tm_def map_of_eq_None_iff)
  then have "\<forall>i\<in>set (graph_nodes graph). ok_or (map_of keys i) (NotFound '''') = Inr (lv i, tm i)" by simp
  note n = lexicographical_sort_nodes [OF this, folded nodes_def]
  show ?thesis
  proof
    show "fst (reverse_topological_power_sort c store events diff global caches) = Inr (kahn_sort nodes)"
      using n(1) by (simp add: reverse_topological_power_sort_def Let_def case_prod_unfold
          graph_def [symmetric] keys_def [symmetric])
    show "distinct (map fst nodes)" by (rule n(2))
    show "fst ` set nodes = (diff_edges store ?needed diff)\<^sup>* `` set events" using n(3) g(1) by simp
    show "\<forall>i\<in>fst ` set nodes. node_parents nodes i = set (auth_in_diff store ?needed diff i)"
      using n(3,5) g(3) by simp
    show "\<forall>i\<in>fst ` set nodes.
       \<exists>ev. fetch_event store i = Some ev \<and> node_key nodes i = (- lv i, ev_ts ev, i)"
    proof
      fix i assume "i \<in> fst ` set nodes"
      then have i: "i \<in> set (graph_nodes graph)" using n(3) by simp
      from event_keys_ts [OF map_of_SomeD [OF key [OF i], unfolded keys_def]] n(4) [OF i]
      show "\<exists>ev. fetch_event store i = Some ev \<and> node_key nodes i = (- lv i, ev_ts ev, i)"
        by (auto simp: local_event_def split: if_splits)
    qed
    show "plain_store c store \<and> cache_inv c store caches \<longrightarrow>
       (\<forall>i\<in>fst ` set nodes. lv i = sender_power c store global i)"
    proof (intro impI ballI)
      fix i assume "plain_store c store \<and> cache_inv c store caches" and "i \<in> fst ` set nodes"
      with event_keys_transparent [of c store caches ?needed global "map fst graph"] n(3)
      show "lv i = sender_power c store global i"
        using map_of_SomeD [OF key [of i]]
        by (auto simp: keys_def List.map_filter_def)
    qed
  qed
qed



text \<open>
  The power sort depends on the sets of events only, in whatever order the hash maps list them
  and whatever earlier sorts left in the caches, and it leaves the caches correct.
\<close>

lemma power_sort_caches:
  assumes "plain_store c store" and "cache_inv c store caches"
  shows "cache_inv c store (snd (reverse_topological_power_sort c store events diff global caches))"
  using event_keys_transparent [OF assms]
  by (simp add: reverse_topological_power_sort_def Let_def case_prod_unfold)

lemma power_sort_cong:
  assumes "\<forall>i\<in>set diff \<union> set events. fetch_event store i \<noteq> None"
    and "set events' = set events" and "set diff' = set diff"
    and "plain_store c store" and "cache_inv c store caches" and "cache_inv c store caches'"
  shows "fst (reverse_topological_power_sort c store events' diff' global caches') =
    fst (reverse_topological_power_sort c store events diff global caches)"
proof -
  have fetchable': "\<forall>i\<in>set diff' \<union> set events'. fetch_event store i \<noteq> None" using assms(1-3) by simp
  have auth: "auth_in_diff store (remdups (diff' @ events')) diff' = auth_in_diff store (remdups (diff @ events)) diff"
    unfolding auth_in_diff_def local_event_def fun_eq_iff set_remdups set_append assms(2,3) by simp
  then have edges: "diff_edges store (remdups (diff' @ events')) diff' = diff_edges store (remdups (diff @ events)) diff"
    by (simp add: diff_edges_def)
  obtain lv nodes where a:
    "fst (reverse_topological_power_sort c store events diff global caches) = Inr (kahn_sort nodes)"
    "distinct (map fst nodes)"
    "fst ` set nodes = (diff_edges store (remdups (diff @ events)) diff)\<^sup>* `` set events"
    "\<forall>i\<in>fst ` set nodes. node_parents nodes i = set (auth_in_diff store (remdups (diff @ events)) diff i)"
    "\<forall>i\<in>fst ` set nodes. \<exists>ev. fetch_event store i = Some ev \<and> node_key nodes i = (- lv i, ev_ts ev, i)"
    "plain_store c store \<and> cache_inv c store caches \<longrightarrow>
       (\<forall>i\<in>fst ` set nodes. lv i = sender_power c store global i)"
    by (rule power_sort_result [OF assms(1)])
  obtain lv' nodes' where b:
    "fst (reverse_topological_power_sort c store events' diff' global caches') = Inr (kahn_sort nodes')"
    "distinct (map fst nodes')"
    "fst ` set nodes' = (diff_edges store (remdups (diff' @ events')) diff')\<^sup>* `` set events'"
    "\<forall>i\<in>fst ` set nodes'. node_parents nodes' i = set (auth_in_diff store (remdups (diff' @ events')) diff' i)"
    "\<forall>i\<in>fst ` set nodes'. \<exists>ev. fetch_event store i = Some ev \<and> node_key nodes' i = (- lv' i, ev_ts ev, i)"
    "plain_store c store \<and> cache_inv c store caches' \<longrightarrow>
       (\<forall>i\<in>fst ` set nodes'. lv' i = sender_power c store global i)"
    by (rule power_sort_result [OF fetchable'])
  have same: "fst ` set nodes' = fst ` set nodes" using a(3) b(3) edges assms(2) by simp
  have "kahn_sort nodes' = kahn_sort nodes"
  proof (rule kahn_sort_cong [OF b(2) a(2) same])
    fix i assume i: "i \<in> fst ` set nodes'"
    with same have i': "i \<in> fst ` set nodes" by simp
    from bspec [OF a(4) i'] bspec [OF b(4) i] auth
    show "node_parents nodes' i = node_parents nodes i" by simp
    have "lv i = sender_power c store global i" "lv' i = sender_power c store global i"
      using bspec [OF mp [OF a(6)] i'] bspec [OF mp [OF b(6)] i] assms(4-6) by simp_all
    then have "lv' i = lv i" by simp
    with bspec [OF a(5) i'] bspec [OF b(5) i] show "node_key nodes' i = node_key nodes i" by auto
  next
    show "inj_on (node_key nodes') (fst ` set nodes')"
      using b(5) by (intro inj_onI) (metis prod.inject)
  qed
  with a(1) b(1) show ?thesis by simp
qed

text \<open>A small room for the witnesses: a create event, power levels and join rules.\<close>

definition sample_store :: event_store where
  "sample_store = map (\<lambda>e. (ev_id e, e))
     [sample_create,
      sample_event ''$p:x'' ''@a:x'' RoomPowerLevels (Some '''') ''levels'' [''$create:x''],
      sample_event ''$r:x'' ''@b:x'' RoomJoinRules (Some '''') ''public'' [''$create:x'', ''$p:x'']]"

lemma fetch_sample_store:
  "fetch_event sample_store i = Some ev \<longleftrightarrow>
     i = ''$create:x'' \<and> ev = sample_create \<or>
     i = ''$p:x'' \<and> ev = sample_event ''$p:x'' ''@a:x'' RoomPowerLevels (Some '''') ''levels'' [''$create:x''] \<or>
     i = ''$r:x'' \<and>
       ev = sample_event ''$r:x'' ''@b:x'' RoomJoinRules (Some '''') ''public'' [''$create:x'', ''$p:x'']"
  by (auto simp: fetch_event_def sample_store_def sample_create_def sample_event_def)

text \<open>A numbering that decreases along auth events shows that there is no cycle.\<close>

lemma acyclic_by_rank:
  assumes "list_all (\<lambda>(i, ev). list_all (\<lambda>a. rank a < (rank i :: nat)) (ev_auth ev)) store"
  shows "acyclic (auth_edges store)"
proof -
  have "rank a < rank i" if "fetch_event store i = Some ev" "a \<in> set (ev_auth ev)" for i ev a
    using assms map_of_SomeD [OF that(1) [unfolded fetch_event_def]] that(2)
    by (auto simp: list_all_iff)
  then have "(auth_edges store)\<inverse> \<subseteq> measure rank" by (auto simp: auth_edges_def)
  then have "wf ((auth_edges store)\<inverse>)" by (rule wf_subset [OF wf_measure])
  then show ?thesis by (metis acyclic_converse wf_acyclic)
qed

definition sample_rank :: "event_id \<Rightarrow> nat" where
  "sample_rank i = (if i = ''$create:x'' then 0 else if i = ''$p:x'' then 1 else 2)"

lemma sample_store_acyclic: "acyclic (auth_edges sample_store)"
  by (rule acyclic_by_rank [where rank = sample_rank]) code_simp

lemma sample_store_plain: "plain_store sample_codec sample_store"
proof -
  have keyed: "\<forall>(i, ev)\<in>set sample_store. ev_id ev = i" by (simp add: sample_store_def)
  have one: "x = y" if "fetch_event sample_store a = Some x" "fetch_event sample_store b = Some y"
    "is_type_and_key x RoomPowerLevels ''''" "is_type_and_key y RoomPowerLevels ''''" for a b x y
    using that by (auto simp: fetch_sample_store is_type_and_key_def sample_create_def sample_event_def)
  have none: "\<not> is_privileged_creator sample_codec (Some e) s" if "fetch_event sample_store a = Some e" for a e s
    using that
    by (auto simp: fetch_sample_store is_privileged_creator_def sample_create_def sample_event_def
        sample_codec_def sample_docs_def room_version_new_def room_version_defs json_get_def json_str_def)
  show ?thesis unfolding plain_store_def
    by (intro conjI keyed ballI allI impI) (erule (3) one, erule none)
qed

definition empty_caches :: pl_caches where
  "empty_caches = \<lparr>parsed_pl = [], sender_pl = []\<rparr>"

lemma empty_caches_inv: "cache_inv c store empty_caches"
  by (simp add: cache_inv_def empty_caches_def)


text \<open>
  The caches are transparent only under a condition on the store: for an event that cites two power level events the
  level of its sender depends on which of the two an earlier lookup left in the cache, so
  on the order in which the events of a room happen to be processed.
\<close>
lemma cache_order_dependence:
  "let store = sample_store @ map (\<lambda>e. (ev_id e, e))
         [sample_event ''$q:x'' ''@a:x'' RoomPowerLevels (Some '''') ''levels3'' [''$create:x''],
          sample_event ''$s:x'' ''@b:x'' RoomJoinRules (Some '''') ''public'' [''$p:x'', ''$q:x''],
          sample_event ''$t:x'' ''@b:x'' RoomJoinRules (Some '''') ''public'' [''$q:x'']];
       fresh = get_power_level_for_sender sample_codec store None ''$s:x'' empty_caches;
       warm = snd (get_power_level_for_sender sample_codec store None ''$t:x'' empty_caches)
   in fst fresh = 50 \<and> fst (get_power_level_for_sender sample_codec store None ''$s:x'' warm) = 60"
  by code_simp

end
