(* ===== verification/Iterative_Auth.thy ===== *)
theory Iterative_Auth
  imports Auth_Errors Power_Sort
begin

text \<open>
  The iterative authorisation of \<^verbatim>\<open>state_res/mod.rs\<close>: the sorted events are checked one after
  the other against a state assembled from their auth events and what was resolved before, and
  those that pass are added. Batch fetching only warms a cache and is not modelled.
\<close>

text \<open>\<^verbatim>\<open>str::replacen(from, to, 1)\<close> for single characters.\<close>

fun replace_first :: "char \<Rightarrow> char \<Rightarrow> string \<Rightarrow> string" where
  "replace_first a b [] = []"
| "replace_first a b (ch # s) = (if ch = a then b # s else ch # replace_first a b s)"

section \<open>Preparing the run\<close>

definition fetch_all :: "event_store \<Rightarrow> event_id list \<Rightarrow> event list sres" where
  "fetch_all store ids =
     map_res (\<lambda>i. ok_or (fetch_event store i) (NotFound (''Failed to find '' @ i))) ids"

text \<open>The last state set, overwritten by the others in their order.\<close>

definition merge_state_sets :: "event_id state_map list \<Rightarrow> event_id state_map" where
  "merge_state_sets sets =
     (if sets = [] then []
      else fold (\<lambda>state resolved. map_extend state resolved) (butlast sets) (last sets))"

text \<open>An event that may be used for authorisation: it can be fetched and was not rejected.\<close>

definition good_event :: "event_store \<Rightarrow> event_id \<Rightarrow> event option" where
  "good_event store i =
     (case fetch_event store i of
        None \<Rightarrow> None
      | Some ev \<Rightarrow> if ev_rejected ev then None else Some ev)"

text \<open>Where room identifiers are hashes the create event is read off the first event.\<close>

definition hoisted_create ::
  "'v codec \<Rightarrow> room_version \<Rightarrow> event_store \<Rightarrow> event list \<Rightarrow> event option" where
  "hoisted_create c rv store events =
     (if room_ids_as_hashes rv
      then (case events of
              [] \<Rightarrow> None
            | first # _ \<Rightarrow>
                Option.bind (room_id_or_hash c first) (\<lambda>room_id.
                Option.bind (c_event_id c (replace_first (CHR ''!'') (CHR ''$'') room_id)) (\<lambda>i.
                fetch_event store i)))
      else None)"

section \<open>The state an event is checked against\<close>

type_synonym auth_state = "(type_state_key \<times> event) list"

text \<open>The event's own auth events, in their order; missing and rejected ones are left out.\<close>

fun own_auth_state :: "event_store \<Rightarrow> event_id list \<Rightarrow> auth_state sres" where
  "own_auth_state store [] = Inr []"
| "own_auth_state store (a # as) =
     (case good_event store a of
        None \<Rightarrow> own_auth_state store as
      | Some ev \<Rightarrow>
          (case ev_state_key ev of
             None \<Rightarrow> Inl (InvalidPdu ''State event had no state key'')
           | Some k \<Rightarrow>
               try_res (own_auth_state store as) (\<lambda>rest.
               Inr ((with_state_key (ev_kind ev) k, ev) # rest))))"

text \<open>The resolved state under the keys that authorise the event.\<close>

definition supplemental_state ::
  "event_store \<Rightarrow> event_id state_map \<Rightarrow> type_state_key list \<Rightarrow> auth_state" where
  "supplemental_state store resolved types =
     List.map_filter (\<lambda>key.
       Option.bind (map_of resolved key) (\<lambda>i. map_option (Pair key) (good_event store i))) types"

text \<open>
  Sorting and removing duplicates. Before version 2.1 the entry that was pushed last wins, from
  2.1 on the one that was pushed first.
\<close>

definition settle_auth_state :: "room_version \<Rightarrow> auth_state \<Rightarrow> auth_state" where
  "settle_auth_state rv entries =
     (let sorted_entries = sort_key fst entries
      in if state_res rv < StateV2_1
         then sort_key fst (dedup_key fst (rev sorted_entries))
         else dedup_key fst sorted_entries)"

definition auth_lookup :: "auth_state \<Rightarrow> event_type \<Rightarrow> string \<Rightarrow> event option" where
  "auth_lookup entries t k =
     map_option (\<lambda>i. snd (entries ! i)) (binary_search fst entries (with_state_key t k))"

definition find_third_party :: "auth_state \<Rightarrow> event option" where
  "find_third_party entries =
     map_option snd (List.find (\<lambda>(_, ev). ev_kind ev = RoomThirdPartyInvite) entries)"

section \<open>One event\<close>

text \<open>
  The loop keeps the resolved state and the create event it found. An event that cannot be
  checked or is refused leaves the state as it is; only malformed input and errors of the
  check itself stop the run.
\<close>

type_synonym iter_state = "event_id state_map \<times> event option"

definition create_entry ::
  "'v codec \<Rightarrow> room_version \<Rightarrow> event option \<Rightarrow> event \<Rightarrow> auth_state option" where
  "create_entry c rv local_create ev =
     (if room_ids_as_hashes rv
      then if ev_kind ev = RoomCreate then Some [(with_state_key (ev_kind ev) '''', ev)]
           else map_option (\<lambda>ce. [(with_state_key (ev_kind ce) '''', ce)]) local_create
      else Some [])"

definition create_for ::
  "auth_state \<Rightarrow> event option \<Rightarrow> event \<Rightarrow> event option" where
  "create_for entries local_create ev =
     (if ev_kind ev = RoomCreate then Some ev
      else case local_create of
             Some ce \<Rightarrow> Some ce
           | None \<Rightarrow> auth_lookup entries RoomCreate '''')"

text \<open>The checks of one event once its auth state is assembled.\<close>

definition check_event ::
  "'v codec \<Rightarrow> room_version \<Rightarrow> auth_state \<Rightarrow> string \<Rightarrow> event \<Rightarrow> iter_state \<Rightarrow> iter_state sres" where
  "check_event c rv entries state_key ev st =
     (case create_for entries (snd st) ev of
        None \<Rightarrow> Inr st
      | Some create \<Rightarrow>
          try_res (auth_check c rv ev (find_third_party entries) (auth_lookup entries) create) (\<lambda>ok.
          Inr (if ok
               then (AList.update (with_state_key (ev_kind ev) state_key) (ev_id ev) (fst st),
                     Some create)
               else (fst st, Some create))))"

definition auth_entries ::
  "'v codec \<Rightarrow> room_version \<Rightarrow> event_store \<Rightarrow> type_state_key list \<Rightarrow> auth_state \<Rightarrow> event
     \<Rightarrow> event_id state_map \<Rightarrow> auth_state sres" where
  "auth_entries c rv store types created ev resolved =
     try_res (own_auth_state store (ev_auth ev)) (\<lambda>own.
     Inr (settle_auth_state rv (created @ own @ supplemental_state store resolved types)))"

definition iterative_step ::
  "'v codec \<Rightarrow> room_version \<Rightarrow> event_store \<Rightarrow> event \<Rightarrow> iter_state \<Rightarrow> iter_state sres" where
  "iterative_step c rv store ev st =
     (case ev_state_key ev of
        None \<Rightarrow> Inr st
      | Some state_key \<Rightarrow>
          (case c_parse c (ev_content ev) of
             None \<Rightarrow> Inl (InvalidPdu ''invalid event content'')
           | Some content \<Rightarrow>
               (case auth_types_for_event c (ev_kind ev) (ev_sender ev) (Some state_key) content rv of
                  Inl _ \<Rightarrow> Inr st
                | Inr types \<Rightarrow>
                    (case create_entry c rv (snd st) ev of
                       None \<Rightarrow> Inr st
                     | Some created \<Rightarrow>
                         try_res (auth_entries c rv store types created ev (fst st)) (\<lambda>entries.
                         check_event c rv entries state_key ev st)))))"

fun iterative_loop ::
  "'v codec \<Rightarrow> room_version \<Rightarrow> event_store \<Rightarrow> event list \<Rightarrow> iter_state \<Rightarrow> iter_state sres" where
  "iterative_loop c rv store [] st = Inr st"
| "iterative_loop c rv store (ev # evs) st =
     try_res (iterative_step c rv store ev st) (iterative_loop c rv store evs)"

definition iterative_auth_check ::
  "'v codec \<Rightarrow> room_version \<Rightarrow> event_store \<Rightarrow> event_id list \<Rightarrow> event_id state_map list
     \<Rightarrow> event_id state_map sres" where
  "iterative_auth_check c rv store ids sets =
     try_res (fetch_all store ids) (\<lambda>fetched.
     let events = filter (\<lambda>ev. \<not> ev_rejected ev) fetched
     in if events = [] then Inr (merge_state_sets sets)
        else
          try_res (iterative_loop c rv store events
                     (merge_state_sets sets, hoisted_create c rv store events)) (\<lambda>st.
          Inr (fst st)))"

section \<open>Looking up the assembled state\<close>

lemma distinct_dedup_desc:
  "sorted_wrt (\<lambda>x y. f y \<le> (f x :: 'k::linorder)) xs \<Longrightarrow> distinct (map f (dedup_key f xs))"
proof (induction f xs rule: dedup_key.induct)
  case (3 f x y ys)
  show ?case
  proof (cases "f y = f x")
    case False
    have "f z < f x" if "z \<in> set (dedup_key f (y # ys))" for z
    proof -
      have "z \<in> set (y # ys)" using set_dedup_key_subset that by (rule subsetD)
      then have "f z \<le> f y" using "3.prems" by auto
      moreover have "f y < f x" using "3.prems" False by (simp add: less_le)
      ultimately show ?thesis by (rule le_less_trans)
    qed
    with "3.IH"(2) [OF False] "3.prems" False show ?thesis by fastforce
  qed (use 3 in simp)
qed auto

lemma map_of_rev_sort_key: "map_of (rev (sort_key fst xs)) = map_of (rev xs)"
proof
  fix k
  have first: "map_of ys k = (case filter (\<lambda>p. fst p = k) ys of [] \<Rightarrow> None | p # _ \<Rightarrow> Some (snd p))"
    for ys :: "('a \<times> 'b) list"
    by (induction ys) auto
  have "filter (\<lambda>p. fst p = k) (rev (sort_key fst xs)) = filter (\<lambda>p. fst p = k) (rev xs)"
    by (simp add: rev_filter [symmetric] filter_sort)
      (induction xs, auto intro: insort_is_Cons)
  then show "map_of (rev (sort_key fst xs)) k = map_of (rev xs) k" by (simp add: first)
qed

lemma auth_lookup_map_of:
  "sorted (map fst entries) \<Longrightarrow> distinct (map fst entries) \<Longrightarrow>
     auth_lookup entries t k = map_of entries (t, k)"
  by (simp add: auth_lookup_def binary_search_map_of with_state_key_def)

text \<open>
  C29: The binary search over the sorted and deduplicated list finds what a map would hold: for
  rooms before version 2.1 of the algorithm the entry that was added last (the resolved state
  overrides the event's own auth events), from 2.1 on the one that was added first (the event's
  own auth events take precedence).
\<close>
theorem auth_state_lookup:
  "auth_lookup (settle_auth_state rv entries) t k =
     (if state_res rv < StateV2_1 then map_of (rev entries) (t, k) else map_of entries (t, k))"
proof (cases "state_res rv < StateV2_1")
  case True
  let ?d = "dedup_key fst (rev (sort_key fst entries))"
  have "sorted_wrt (\<lambda>x y. fst y \<le> fst x) (rev (sort_key fst entries))"
    using sorted_sort_key [of fst entries] by (simp add: sorted_wrt_rev sorted_map)
  then have "distinct (map fst ?d)" by (rule distinct_dedup_desc)
  moreover have "mset (map fst (sort_key fst ?d)) = mset (map fst ?d)" by simp
  ultimately have "distinct (map fst (sort_key fst ?d))" using mset_eq_imp_distinct_iff by blast
  then have "auth_lookup (settle_auth_state rv entries) t k = map_of (sort_key fst ?d) (t, k)"
    using True by (simp add: settle_auth_state_def auth_lookup_map_of)
  also have "\<dots> = map_of (rev entries) (t, k)"
    by (simp add: map_of_sort_key_fst map_of_dedup_key map_of_rev_sort_key)
  finally show ?thesis using True by simp
next
  case False
  have "sorted (map fst (dedup_key fst (sort_key fst entries))) \<and>
      distinct (map fst (dedup_key fst (sort_key fst entries)))"
    by (rule sorted_dedup_key) simp
  with False show ?thesis
    by (simp add: settle_auth_state_def auth_lookup_map_of map_of_dedup_key map_of_sort_key_fst)
qed

section \<open>What the loop adds\<close>

text \<open>An event that passed the check against some assembled state.\<close>

definition passed :: "'v codec \<Rightarrow> room_version \<Rightarrow> event \<Rightarrow> type_state_key \<Rightarrow> bool" where
  "passed c rv ev key \<longleftrightarrow>
     (\<exists>k entries create. ev_state_key ev = Some k \<and> key = (ev_kind ev, k) \<and>
        auth_check c rv ev (find_third_party entries) (auth_lookup entries) create = Inr True)"

lemma iterative_step_adds:
  assumes "iterative_step c rv store ev st = Inr st'"
  shows "fst st' = fst st \<or>
    (\<exists>key. passed c rv ev key \<and> fst st' = AList.update key (ev_id ev) (fst st))"
  using assms
  by (auto simp: iterative_step_def check_event_def passed_def with_state_key_def try_res_eq_Inr
      split: option.splits sum.splits if_splits) blast+

lemma iterative_loop_adds:
  assumes "iterative_loop c rv store evs st = Inr st'"
    and "map_of (fst st') key = Some i"
  shows "map_of (fst st) key = Some i \<or> (\<exists>ev\<in>set evs. ev_id ev = i \<and> passed c rv ev key)"
  using assms
proof (induction evs arbitrary: st)
  case (Cons ev evs)
  then obtain st1 where step: "iterative_step c rv store ev st = Inr st1"
    and rest: "iterative_loop c rv store evs st1 = Inr st'" by (auto simp: try_res_eq_Inr)
  from Cons.IH [OF rest Cons.prems(2)] iterative_step_adds [OF step] show ?case
    by (auto simp: AList.update_conv' split: if_splits)
qed simp

lemma iterative_loop_keeps:
  assumes "iterative_loop c rv store evs st = Inr st'" and "key \<in> dom (map_of (fst st))"
  shows "key \<in> dom (map_of (fst st'))"
  using assms
proof (induction evs arbitrary: st)
  case (Cons ev evs)
  then obtain st1 where step: "iterative_step c rv store ev st = Inr st1"
    and rest: "iterative_loop c rv store evs st1 = Inr st'" by (auto simp: try_res_eq_Inr)
  from iterative_step_adds [OF step] Cons.prems(2) have "key \<in> dom (map_of (fst st1))"
    by (auto simp: AList.update_conv')
  with Cons.IH [OF rest] show ?case .
qed simp

lemma fetch_all_Inr: "fetch_all store ids = Inr evs \<longleftrightarrow> list_all2 (\<lambda>i ev. fetch_event store i = Some ev) ids evs"
  by (simp add: fetch_all_def map_res_eq_Inr)

lemma fetch_all_source:
  assumes "fetch_all store ids = Inr evs" and "ev \<in> set evs"
  shows "\<exists>j\<in>set ids. fetch_event store j = Some ev"
proof -
  from assms(2) obtain n where "n < length evs" "ev = evs ! n" by (auto simp: in_set_conv_nth)
  with assms(1) have "n < length ids" "fetch_event store (ids ! n) = Some ev"
    by (auto simp: fetch_all_Inr list_all2_conv_all_nth)
  then show ?thesis by (blast intro: nth_mem)
qed

lemma iterative_auth_check_Inr:
  assumes "iterative_auth_check c rv store ids sets = Inr state"
  obtains (none) "state = merge_state_sets sets"
  | (run) fetched created st where "fetch_all store ids = Inr fetched"
      "iterative_loop c rv store (filter (\<lambda>ev. \<not> ev_rejected ev) fetched)
         (merge_state_sets sets, created) = Inr st" "state = fst st"
  using assms by (auto simp: iterative_auth_check_def try_res_eq_Inr Let_def split: if_splits)

lemma iterative_auth_check_adds:
  assumes "iterative_auth_check c rv store ids sets = Inr state" and "map_of state key = Some i"
  shows "map_of (merge_state_sets sets) key = Some i \<or>
      (\<exists>j\<in>set ids. \<exists>ev. fetch_event store j = Some ev \<and> ev_id ev = i \<and> \<not> ev_rejected ev \<and>
         passed c rv ev key)"
  using assms(1)
proof (cases rule: iterative_auth_check_Inr)
  case none
  with assms(2) show ?thesis by simp
next
  case (run fetched created st)
  from iterative_loop_adds [OF run(2), of key i] run(3) assms(2)
  have "map_of (merge_state_sets sets) key = Some i \<or>
      (\<exists>ev\<in>set fetched. \<not> ev_rejected ev \<and> ev_id ev = i \<and> passed c rv ev key)" by simp blast
  with fetch_all_source [OF run(1)] show ?thesis by blast
qed

lemma iterative_auth_check_keeps:
  assumes "iterative_auth_check c rv store ids sets = Inr state"
  shows "dom (map_of (merge_state_sets sets)) \<subseteq> dom (map_of state)"
  using assms by (cases rule: iterative_auth_check_Inr) (use iterative_loop_keeps in fastforce)+

text \<open>
  Whatever the iterative check returns was in the state it started from or is an event of
  the list that was not rejected before and passed the authorisation rules, filed under its own
  type and state key; and no key of the starting state is lost.
\<close>
lemma iterative_auth_check_sound:
  assumes "iterative_auth_check c rv store ids sets = Inr state"
  shows "(\<forall>key i. map_of state key = Some i \<longrightarrow>
      map_of (merge_state_sets sets) key = Some i \<or>
      (\<exists>j\<in>set ids. \<exists>ev. fetch_event store j = Some ev \<and> ev_id ev = i \<and> \<not> ev_rejected ev \<and>
         passed c rv ev key)) \<and>
    dom (map_of (merge_state_sets sets)) \<subseteq> dom (map_of state)"
  using iterative_auth_check_adds [OF assms] iterative_auth_check_keeps [OF assms] by blast

text \<open>A room for the witnesses: the creator joins, sets power levels and join rules.\<close>

definition sample_room :: event_store where
  "sample_room = map (\<lambda>e. (ev_id e, e))
     [sample_create,
      (sample_event ''$m:x'' ''@a:x'' RoomMember (Some ''@a:x'') ''join'' [''$create:x''])
        \<lparr>ev_prev := [''$create:x'']\<rparr>,
      sample_event ''$p:x'' ''@a:x'' RoomPowerLevels (Some '''') ''levels'' [''$create:x'', ''$m:x''],
      sample_event ''$r:x'' ''@a:x'' RoomJoinRules (Some '''') ''public''
        [''$create:x'', ''$m:x'', ''$p:x''],
      sample_event ''$s:x'' ''@a:x'' RoomJoinRules (Some '''') ''restricted''
        [''$create:x'', ''$m:x'', ''$p:x'']]"

theorem iterative_auth_check_sound_witness:
  "\<exists>j\<in>{''$create:x'', ''$m:x'', ''$p:x''}. \<exists>ev. fetch_event sample_room j = Some ev \<and>
     ev_id ev = ''$p:x'' \<and> \<not> ev_rejected ev \<and> passed sample_codec room_v10 ev (RoomPowerLevels, '''')"
proof -
  have run: "iterative_auth_check sample_codec room_v10 sample_room [''$create:x'', ''$m:x'', ''$p:x''] [[]] =
      Inr [((RoomCreate, ''''), ''$create:x''), ((RoomMember, ''@a:x''), ''$m:x''),
           ((RoomPowerLevels, ''''), ''$p:x'')]" by code_simp
  from iterative_auth_check_sound [OF run] show ?thesis by (simp add: merge_state_sets_def)
qed

end
