(* ===== verification/Mainline.thy ===== *)
theory Mainline
  imports Power_Sort
begin

text \<open>
  The mainline sort of \<^verbatim>\<open>state_res/mod.rs\<close>. The mainline is the chain of power level events
  behind the resolved one; each event is ordered by how far back its own chain meets it. The
  first loop follows the chain without a check for cycles and is a partial function: not
  returning is \<open>None\<close>. The second loop keeps the events it visited and always ends. The local
  event cache and \<^verbatim>\<open>is_pl_cache\<close> memoise lookups in the store and are not modelled.
\<close>

text \<open>The first auth event that is a power level event, as an identifier.\<close>

fun next_pl :: "event_store \<Rightarrow> event_id list \<Rightarrow> event_id option" where
  "next_pl store [] = None"
| "next_pl store (a # as) =
     (case fetch_event store a of
        None \<Rightarrow> next_pl store as
      | Some aev \<Rightarrow>
          if is_type_and_key aev RoomPowerLevels '''' then Some a else next_pl store as)"

text \<open>Phase 1: positions on the mainline.\<close>

partial_function (option) mainline_walk ::
  "event_store \<Rightarrow> event_id option \<Rightarrow> nat \<Rightarrow> (event_id \<times> nat) list \<Rightarrow> (event_id \<times> nat) list option" where
  [code]: "mainline_walk store pl position depth =
     (case pl of
        None \<Rightarrow> Some depth
      | Some p \<Rightarrow>
          (case fetch_event store p of
             None \<Rightarrow> Some depth
           | Some ev \<Rightarrow>
               mainline_walk store (next_pl store (ev_auth ev)) (Suc position)
                 (AList.update (ev_id ev) position depth)))"

text \<open>
  Phase 2: the chain of an event until it meets the mainline. \<open>path\<close> collects the events on the
  way, \<open>visited\<close> stops a cycle.
\<close>

definition next_pl_event :: "event_store \<Rightarrow> event_id list \<Rightarrow> event option" where
  "next_pl_event store as = Option.bind (next_pl store as) (fetch_event store)"

lemma next_pl_Some:
  "next_pl store as = Some a \<Longrightarrow>
     a \<in> set as \<and> (\<exists>ev. fetch_event store a = Some ev \<and> is_type_and_key ev RoomPowerLevels '''')"
  by (induction as) (auto split: option.splits if_splits)

lemma next_pl_event_stored: "next_pl_event store as = Some ev \<Longrightarrow> ev_id ev \<in> ev_id ` snd ` set store"
  by (auto simp: next_pl_event_def fetch_event_def bind_eq_Some_conv dest!: map_of_SomeD) force

function chain_depth ::
  "event_store \<Rightarrow> (event_id \<times> nat) list \<Rightarrow> event option \<Rightarrow> event_id list \<Rightarrow> event_id list
     \<Rightarrow> nat option \<times> event_id list" where
  "chain_depth store depth current path visited =
     (case current of
        None \<Rightarrow> (None, path)
      | Some ev \<Rightarrow>
          if ev_id ev \<in> set visited then (None, path)
          else
            (case map_of depth (ev_id ev) of
               Some d \<Rightarrow> (Some d, path @ [ev_id ev])
             | None \<Rightarrow>
                 chain_depth store depth (next_pl_event store (ev_auth ev)) (path @ [ev_id ev])
                   (ev_id ev # visited)))"
  by pat_completeness auto

termination
proof (relation "measure (\<lambda>(store, depth, current, path, visited).
      card ((ev_id ` snd ` set store \<union> ev_id ` set_option current) - set visited))")
  fix store depth and current :: "event option" and path visited ev
  assume cur: "current = Some ev" and new: "ev_id ev \<notin> set visited"
  let ?U = "ev_id ` snd ` set store" and ?next = "next_pl_event store (ev_auth ev)"
  have "ev_id ` set_option ?next \<subseteq> ?U" using next_pl_event_stored [of store "ev_auth ev"] by auto
  then have "(?U \<union> ev_id ` set_option ?next) - set (ev_id ev # visited)
      \<subset> (?U \<union> ev_id ` set_option current) - set visited"
    using cur new by auto
  then have "card ((?U \<union> ev_id ` set_option ?next) - set (ev_id ev # visited))
      < card ((?U \<union> ev_id ` set_option current) - set visited)"
    by (intro psubset_card_mono) (auto simp: cur)
  then show "((store, depth, ?next, path @ [ev_id ev], ev_id ev # visited), store, depth, current, path, visited)
    \<in> measure (\<lambda>(store, depth, current, path, visited).
        card ((ev_id ` snd ` set store \<union> ev_id ` set_option current) - set visited))" by simp
qed simp

declare chain_depth.simps [simp del]

text \<open>The depth of one event, and the table with the events on its path added.\<close>

definition event_depth ::
  "event_store \<Rightarrow> (event_id \<times> nat) list \<Rightarrow> event \<Rightarrow> nat option \<times> (event_id \<times> nat) list" where
  "event_depth store depth ev =
     (if is_type_and_key ev RoomPowerLevels '''' then (map_of depth (ev_id ev), depth)
      else
        case chain_depth store depth (next_pl_event store (ev_auth ev)) [] [] of
          (Some d, path) \<Rightarrow> (Some d, fold (\<lambda>i. AList.update i d) path depth)
        | (None, _) \<Rightarrow> (None, depth))"

text \<open>The sort keys of the events that can be fetched, in the order of the input.\<close>

type_synonym mainline_key = "nat option \<times> nat \<times> event_id"

fun mainline_keys ::
  "event_store \<Rightarrow> (event_id \<times> nat) list \<Rightarrow> event_id list \<Rightarrow> mainline_key list" where
  "mainline_keys store depth [] = []"
| "mainline_keys store depth (i # is) =
     (case fetch_event store i of
        None \<Rightarrow> mainline_keys store depth is
      | Some ev \<Rightarrow>
          (let (d, depth') = event_depth store depth ev
           in (d, ev_ts ev, i) # mainline_keys store depth' is))"

text \<open>
  Phase 3: events without a depth come first, then those that meet the mainline furthest back;
  ties are broken by the timestamp and the identifier. The order is the one of the tuples below.
\<close>

definition mainline_order :: "mainline_key \<Rightarrow> int option \<times> nat \<times> event_id" where
  "mainline_order k = (case k of (d, ts, i) \<Rightarrow> (map_option (\<lambda>n. - int n) d, ts, i))"

definition mainline_sort ::
  "event_store \<Rightarrow> event_id list \<Rightarrow> event_id option \<Rightarrow> event_id list option" where
  "mainline_sort store to_sort resolved =
     (if to_sort = [] then Some []
      else
        Option.bind (mainline_walk store resolved 0 []) (\<lambda>depth.
        Some (remdups_adj (map (\<lambda>(_, _, i). i)
          (sort_key mainline_order (mainline_keys store depth to_sort))))))"

section \<open>The first loop\<close>

text \<open>The chain of power level events: an event and the one its auth events name next.\<close>

definition pl_chain :: "event_store \<Rightarrow> (event_id \<times> event_id) set" where
  "pl_chain store =
     {(q, p). \<exists>ev. fetch_event store p = Some ev \<and> next_pl store (ev_auth ev) = Some q}"

lemma pl_chain_auth: "pl_chain store \<subseteq> (auth_edges store)\<inverse>"
  by (auto simp: pl_chain_def auth_edges_def dest: next_pl_Some)

lemma finite_pl_chain: "finite (pl_chain store)"
proof -
  have "pl_chain store \<subseteq> cited_ids store \<times> fst ` set store"
  proof
    fix x assume "x \<in> pl_chain store"
    then obtain q p ev where x: "x = (q, p)" "fetch_event store p = Some ev"
      "next_pl store (ev_auth ev) = Some q" by (auto simp: pl_chain_def)
    have "q \<in> cited_ids store" using fetch_event_cited [OF x(2)] next_pl_Some [OF x(3)] by auto
    moreover have "(p, ev) \<in> set store" using x(2) by (simp add: fetch_event_def map_of_SomeD)
    ultimately show "x \<in> cited_ids store \<times> fst ` set store" unfolding x(1) by force
  qed
  then show ?thesis by (rule finite_subset) simp
qed

lemma mainline_walk_returns:
  assumes "acyclic (auth_edges store)"
  shows "\<exists>depth'. mainline_walk store pl position depth = Some depth'"
proof -
  have "acyclic (pl_chain store)"
    using assms pl_chain_auth [of store] by (metis acyclic_converse acyclic_subset)
  then have wf: "wf (pl_chain store)" by (rule finite_acyclic_wf [OF finite_pl_chain])
  have "\<exists>depth'. mainline_walk store (Some p) position depth = Some depth'" for p
    using wf
  proof (induction p arbitrary: position depth rule: wf_induct_rule)
    case (less p)
    show ?case
    proof (cases "fetch_event store p")
      case None
      then show ?thesis by (simp add: mainline_walk.simps)
    next
      case (Some ev)
      show ?thesis
      proof (cases "next_pl store (ev_auth ev)")
        case None
        with Some show ?thesis by (simp add: mainline_walk.simps)
      next
        case q: (Some q)
        with Some have "(q, p) \<in> pl_chain store" by (auto simp: pl_chain_def)
        from less.IH [OF this] Some q show ?thesis
          by (subst mainline_walk.simps) simp
      qed
    qed
  qed
  then show ?thesis by (cases pl) (auto simp: mainline_walk.simps)
qed

text \<open>
  The walk along the mainline has no protection against cycles: on a set of power level
  events whose auth events lead back into the set it never returns. (The second loop of the
  same function is protected.) Event identifiers that are not hashes, as in the first two room
  versions, allow such sets.
\<close>
lemma mainline_diverges_on_cycle:
  assumes "p \<in> S" and "to_sort \<noteq> []"
    and "\<forall>q\<in>S. \<exists>ev. fetch_event store q = Some ev \<and> (\<exists>r\<in>S. next_pl store (ev_auth ev) = Some r)"
  shows "mainline_sort store to_sort (Some p) = None"
proof -
  have "store' = store \<longrightarrow> pl \<notin> Some ` S" if "mainline_walk store' pl position depth = Some y"
    for store' pl position depth y
    using that
  proof (induction rule: mainline_walk.raw_induct [rotated, consumes 1])
    case (1 walk store' pl position depth y)
    show ?case
    proof (intro impI notI)
      assume eq: "store' = store" and "pl \<in> Some ` S"
      then obtain q where q: "pl = Some q" "q \<in> S" by blast
      with assms(3) obtain ev r where ev: "fetch_event store q = Some ev" "r \<in> S"
        "next_pl store (ev_auth ev) = Some r" by blast
      with "1.IH" "1.hyps" eq q have "Some r \<notin> Some ` S" by fastforce
      with ev(2) show False by blast
    qed
  qed
  with assms(1) have "mainline_walk store (Some p) 0 [] = None"
    by (cases "mainline_walk store (Some p) 0 []") blast+
  with assms(2) show ?thesis by (simp add: mainline_sort_def)
qed

theorem mainline_diverges_on_cycle_witness:
  "mainline_sort
     [(''$p:x'', sample_event ''$p:x'' ''@a:x'' RoomPowerLevels (Some '''') ''levels'' [''$q:x'']),
      (''$q:x'', sample_event ''$q:x'' ''@a:x'' RoomPowerLevels (Some '''') ''levels'' [''$p:x''])]
     [''$p:x''] (Some ''$p:x'') = None"
  by (rule mainline_diverges_on_cycle [where S = "{''$p:x'', ''$q:x''}"])
    (auto simp: fetch_event_def sample_event_def is_type_and_key_def)

section \<open>The memo of the second loop\<close>

text \<open>Where the chain of an event meets the mainline, without the memo.\<close>

inductive meets :: "event_store \<Rightarrow> (event_id \<times> nat) list \<Rightarrow> event \<Rightarrow> nat \<Rightarrow> bool"
  for store main
where
  here: "map_of main (ev_id ev) = Some d \<Longrightarrow> meets store main ev d"
| further: "map_of main (ev_id ev) = None \<Longrightarrow> next_pl_event store (ev_auth ev) = Some ev' \<Longrightarrow>
     meets store main ev' d \<Longrightarrow> meets store main ev d"

inductive_cases meetsE: "meets store main ev d"

lemma meets_unique: "meets store main ev d \<Longrightarrow> meets store main ev d' \<Longrightarrow> d' = d"
proof (induction arbitrary: d' rule: meets.induct)
  case (here ev d)
  from here(2) show ?case by (rule meetsE) (use here(1) in simp_all)
next
  case (further ev ev' d)
  from further(5) show ?case
  proof (rule meetsE)
    assume "map_of main (ev_id ev) = Some d'"
    with further(1) show ?thesis by simp
  next
    fix ev'' assume "next_pl_event store (ev_auth ev) = Some ev''" "meets store main ev'' d'"
    with further(2,4) show ?thesis by simp
  qed
qed

definition keyed_store :: "event_store \<Rightarrow> bool" where
  "keyed_store store \<longleftrightarrow> (\<forall>(i, ev)\<in>set store. ev_id ev = i)"

definition stored :: "event_store \<Rightarrow> event \<Rightarrow> bool" where
  "stored store ev \<longleftrightarrow> fetch_event store (ev_id ev) = Some ev"

lemma keyed_store_fetch: "keyed_store store \<Longrightarrow> fetch_event store i = Some ev \<Longrightarrow> stored store ev \<and> ev_id ev = i"
  using map_of_SomeD [of store i ev] by (auto simp: keyed_store_def stored_def fetch_event_def)

lemma next_pl_event_edge:
  assumes "keyed_store store" and "stored store ev" and "next_pl_event store (ev_auth ev) = Some ev'"
  shows "stored store ev'" and "(ev_id ev', ev_id ev) \<in> pl_chain store"
proof -
  obtain a where a: "next_pl store (ev_auth ev) = Some a" "fetch_event store a = Some ev'"
    using assms(3) by (auto simp: next_pl_event_def bind_eq_Some_conv)
  with keyed_store_fetch [OF assms(1)] have "stored store ev'" "ev_id ev' = a" by auto
  with a assms(2) show "stored store ev'" and "(ev_id ev', ev_id ev) \<in> pl_chain store"
    by (auto simp: pl_chain_def stored_def)
qed

text \<open>The memo extends the mainline, and each entry is the depth its event meets.\<close>

definition memo_inv :: "event_store \<Rightarrow> (event_id \<times> nat) list \<Rightarrow> (event_id \<times> nat) list \<Rightarrow> bool" where
  "memo_inv store main memo \<longleftrightarrow>
     (\<forall>i d. map_of main i = Some d \<longrightarrow> map_of memo i = Some d) \<and>
     (\<forall>ev d. stored store ev \<longrightarrow> map_of memo (ev_id ev) = Some d \<longrightarrow> meets store main ev d)"

lemma memo_inv_main: "memo_inv store main main"
  by (auto simp: memo_inv_def intro: meets.here)

lemma memo_inv_None: "memo_inv store main memo \<Longrightarrow> map_of memo i = None \<Longrightarrow> map_of main i = None"
  by (cases "map_of main i") (auto simp: memo_inv_def)

lemma chain_depth_correct:
  assumes keyed: "keyed_store store" and wf: "wf (pl_chain store)" and inv: "memo_inv store main memo"
    and "stored store ev" and "\<forall>v\<in>set visited. (ev_id ev, v) \<in> (pl_chain store)\<^sup>+"
  shows "\<exists>new. snd (chain_depth store memo (Some ev) path visited) = path @ new \<and>
    (\<forall>d. fst (chain_depth store memo (Some ev) path visited) = Some d \<longleftrightarrow> meets store main ev d) \<and>
    (\<forall>i\<in>set new. \<exists>e. stored store e \<and> ev_id e = i \<and> (\<forall>d. meets store main ev d \<longrightarrow> meets store main e d))"
  using wf assms(4,5)
proof (induction "ev_id ev" arbitrary: ev path visited rule: wf_induct_rule)
  case less
  let ?chain = "chain_depth store memo (Some ev) path visited"
  have new: "ev_id ev \<notin> set visited"
    using less.prems(2) wf_not_sym [OF wf_trancl [OF wf]] by blast
  show ?case
  proof (cases "map_of memo (ev_id ev)")
    case (Some d)
    then have "meets store main ev d" using inv less.prems(1) by (simp add: memo_inv_def)
    then have "Some d = Some d' \<longleftrightarrow> meets store main ev d'" for d' using meets_unique by blast
    moreover have "?chain = (Some d, path @ [ev_id ev])"
      using Some new by (simp add: chain_depth.simps [of store memo "Some ev"])
    ultimately show ?thesis using less.prems(1) by auto
  next
    case None
    note main = memo_inv_None [OF inv None]
    let ?next = "next_pl_event store (ev_auth ev)"
    have step: "?chain = chain_depth store memo ?next (path @ [ev_id ev]) (ev_id ev # visited)"
      using None new by (simp add: chain_depth.simps [of store memo "Some ev"])
    show ?thesis
    proof (cases ?next)
      case None
      then have "?chain = (None, path @ [ev_id ev])"
        using step by (simp add: chain_depth.simps [of store memo None])
      moreover have "\<not> meets store main ev d" for d using main None by (auto elim: meetsE)
      ultimately show ?thesis using less.prems(1) by auto
    next
      case (Some ev')
      note edge = next_pl_event_edge [OF keyed less.prems(1) Some]
      have "\<forall>v\<in>set (ev_id ev # visited). (ev_id ev', v) \<in> (pl_chain store)\<^sup>+"
        using less.prems(2) edge(2) by (auto intro: trancl_into_trancl2)
      from less.hyps [OF edge(2,1) this, of "path @ [ev_id ev]"] obtain new where IH:
        "snd ?chain = (path @ [ev_id ev]) @ new"
        "\<forall>d. fst ?chain = Some d \<longleftrightarrow> meets store main ev' d"
        "\<forall>i\<in>set new. \<exists>e. stored store e \<and> ev_id e = i \<and> (\<forall>d. meets store main ev' d \<longrightarrow> meets store main e d)"
        unfolding step Some by blast
      have "meets store main ev d \<longleftrightarrow> meets store main ev' d" for d
        using main Some by (auto elim: meetsE intro: meets.further)
      with IH less.prems(1) show ?thesis by (intro exI [of _ "ev_id ev # new"]) auto
    qed
  qed
qed

lemma memo_inv_path:
  assumes "memo_inv store main memo"
    and "\<forall>i\<in>set path. \<exists>e. stored store e \<and> ev_id e = i \<and> meets store main e d"
  shows "memo_inv store main (fold (\<lambda>i. AList.update i d) path memo)"
  using assms
proof (induction path arbitrary: memo)
  case (Cons i path)
  obtain e where e: "stored store e" "ev_id e = i" "meets store main e d" using Cons.prems(2) by auto
  have "m = d" if "map_of main i = Some m" for m
    using that e meets.here [of main e m store] meets_unique by blast
  moreover have "ev = e" if "stored store ev" "ev_id ev = i" for ev
    using that e by (simp add: stored_def)
  ultimately have "memo_inv store main (AList.update i d memo)"
    using Cons.prems(1) e(3)
    by (auto simp: memo_inv_def AList.update_conv')
  from Cons.IH [OF this] Cons.prems(2) show ?case by simp
qed simp

text \<open>The depth that an event has on the mainline itself.\<close>

lemma event_depth_memo:
  assumes "keyed_store store" and "wf (pl_chain store)" and "memo_inv store main memo"
    and "stored store ev" and "\<not> is_type_and_key ev RoomPowerLevels ''''"
  shows "fst (event_depth store memo ev) = fst (event_depth store main ev) \<and>
    memo_inv store main (snd (event_depth store memo ev))"
proof (cases "next_pl_event store (ev_auth ev)")
  case None
  with assms(3,5) show ?thesis by (simp add: event_depth_def chain_depth.simps)
next
  case (Some ev')
  note stored' = next_pl_event_edge(1) [OF assms(1,4) Some]
  from chain_depth_correct [OF assms(1,2,3) stored', of "[]" "[]"]
  obtain path where m: "snd (chain_depth store memo (Some ev') [] []) = path"
    "\<forall>d. fst (chain_depth store memo (Some ev') [] []) = Some d \<longleftrightarrow> meets store main ev' d"
    "\<forall>i\<in>set path. \<exists>e. stored store e \<and> ev_id e = i \<and> (\<forall>d. meets store main ev' d \<longrightarrow> meets store main e d)"
    by auto
  from chain_depth_correct [OF assms(1,2) memo_inv_main stored', of "[]" main "[]"]
  have "\<forall>d. fst (chain_depth store main (Some ev') [] []) = Some d \<longleftrightarrow> meets store main ev' d" by auto
  with m(2) have same: "fst (chain_depth store memo (Some ev') [] []) = fst (chain_depth store main (Some ev') [] [])"
    by (metis not_Some_eq)
  show ?thesis
  proof (cases "fst (chain_depth store memo (Some ev') [] [])")
    case None
    with same Some assms(3,5) show ?thesis
      by (auto simp: event_depth_def split: prod.splits option.splits)
  next
    case d: (Some d)
    with m(2,3) have "\<forall>i\<in>set path. \<exists>e. stored store e \<and> ev_id e = i \<and> meets store main e d" by blast
    from memo_inv_path [OF assms(3) this] d same m(1) Some assms(5) show ?thesis
      by (auto simp: event_depth_def split: prod.splits option.splits)
  qed
qed

section \<open>The positions on the mainline\<close>

text \<open>The event that is \<open>n\<close> steps up the chain of power levels.\<close>

definition next_of :: "event_store \<Rightarrow> event_id option \<Rightarrow> event_id option" where
  "next_of store p =
     Option.bind p (\<lambda>p. Option.bind (fetch_event store p) (\<lambda>ev. next_pl store (ev_auth ev)))"

definition on_mainline :: "event_store \<Rightarrow> event_id option \<Rightarrow> nat \<Rightarrow> event_id \<Rightarrow> bool" where
  "on_mainline store pl n i \<longleftrightarrow> (next_of store ^^ n) pl = Some i \<and> fetch_event store i \<noteq> None"

lemma next_of_None [simp]: "(next_of store ^^ n) None = None"
  by (induction n) (simp_all add: next_of_def)

lemma on_mainline_simps [simp]:
  "on_mainline store pl 0 i \<longleftrightarrow> pl = Some i \<and> fetch_event store i \<noteq> None"
  "on_mainline store pl (Suc n) i \<longleftrightarrow> on_mainline store (next_of store pl) n i"
  "\<not> on_mainline store None n i"
  by (simp_all add: on_mainline_def funpow_swap1)

lemma on_mainline_below:
  "on_mainline store (next_of store (Some p)) n i \<Longrightarrow> (i, p) \<in> (pl_chain store)\<^sup>+"
proof (induction n arbitrary: p)
  case 0
  then show ?case by (auto simp: next_of_def pl_chain_def bind_eq_Some_conv)
next
  case (Suc n)
  then obtain q where q: "next_of store (Some p) = Some q"
    by (cases "next_of store (Some p)") (auto simp: on_mainline_def next_of_def)
  then have "(q, p) \<in> pl_chain store" by (auto simp: next_of_def pl_chain_def bind_eq_Some_conv)
  moreover have "(i, q) \<in> (pl_chain store)\<^sup>+" using Suc q by simp
  ultimately show ?case by (rule trancl_into_trancl [rotated])
qed

lemma ex_nat_split: "(\<exists>n. P n) \<longleftrightarrow> P 0 \<or> (\<exists>m. P (Suc m))"
  by (metis not0_implies_Suc)

lemma mainline_walk_positions:
  assumes wf: "wf (pl_chain store)" and keyed: "keyed_store store"
  shows "mainline_walk store (Some p) position depth = Some main \<Longrightarrow>
    map_of main i = Some d \<longleftrightarrow>
      (\<exists>n. on_mainline store (Some p) n i \<and> d = position + n) \<or>
      (\<nexists>n. on_mainline store (Some p) n i) \<and> map_of depth i = Some d"
  using wf
proof (induction p arbitrary: position depth rule: wf_induct_rule)
  case (less p)
  show ?case
  proof (cases "fetch_event store p")
    case None
    then have "\<not> on_mainline store (Some p) n i" for n
      by (cases n) (auto simp: next_of_def)
    with None less.prems show ?thesis by (simp add: mainline_walk.simps)
  next
    case (Some ev)
    have id: "ev_id ev = p" using keyed_store_fetch [OF keyed Some] by simp
    let ?depth = "AList.update p position depth"
    have walk: "mainline_walk store (next_pl store (ev_auth ev)) (Suc position) ?depth = Some main"
      using less.prems Some id by (subst (asm) mainline_walk.simps) simp
    have nx: "next_of store (Some p) = next_pl store (ev_auth ev)" using Some by (simp add: next_of_def)
    have here: "on_mainline store (Some p) n i \<longleftrightarrow>
        (case n of 0 \<Rightarrow> i = p | Suc m \<Rightarrow> on_mainline store (next_pl store (ev_auth ev)) m i)" for n
      using Some nx by (cases n) auto
    show ?thesis
    proof (cases "next_pl store (ev_auth ev)")
      case None
      then have "main = ?depth" using walk by (simp add: mainline_walk.simps)
      moreover have "on_mainline store (Some p) n i \<longleftrightarrow> n = 0 \<and> i = p" for n
        unfolding here None by (cases n) (auto simp: on_mainline_def)
      ultimately show ?thesis by (auto simp: AList.update_conv')
    next
      case q: (Some q)
      then have edge: "(q, p) \<in> pl_chain store" using Some by (auto simp: pl_chain_def)
      have fresh: "\<not> on_mainline store (Some q) n p" for n
        using on_mainline_below [of store p n p] nx q wf_not_refl [OF wf_trancl [OF wf]] by auto
      have "(\<exists>n. on_mainline store (Some p) n i \<and> d = position + n) \<longleftrightarrow>
          i = p \<and> d = position \<or> (\<exists>n. on_mainline store (Some q) n i \<and> d = Suc position + n)"
        unfolding here q by (subst ex_nat_split) auto
      moreover have "(\<exists>n. on_mainline store (Some p) n i) \<longleftrightarrow> i = p \<or> (\<exists>n. on_mainline store (Some q) n i)"
        unfolding here q by (subst ex_nat_split) auto
      ultimately show ?thesis
        using less.IH [OF edge walk [unfolded q]] fresh by (auto simp: AList.update_conv')
    qed
  qed
qed
section \<open>The order of the result\<close>

text \<open>
  The position of an event that is not itself a power level event: where the chain from its
  first power level event meets the mainline.
\<close>

definition joins :: "event_store \<Rightarrow> (event_id \<times> nat) list \<Rightarrow> event \<Rightarrow> nat \<Rightarrow> bool" where
  "joins store main ev d \<longleftrightarrow>
     (\<exists>p. next_pl_event store (ev_auth ev) = Some p \<and> meets store main p d)"

lemma event_depth_joins:
  assumes "keyed_store store" and "wf (pl_chain store)" and "memo_inv store main memo"
    and "stored store ev" and "\<not> is_type_and_key ev RoomPowerLevels ''''"
  shows "fst (event_depth store memo ev) = Some d \<longleftrightarrow> joins store main ev d"
proof (cases "next_pl_event store (ev_auth ev)")
  case None
  with assms(5) show ?thesis by (simp add: event_depth_def chain_depth.simps joins_def)
next
  case (Some p)
  from chain_depth_correct [OF assms(1-3) next_pl_event_edge(1) [OF assms(1,4) Some], of "[]" "[]"]
  have "fst (chain_depth store memo (Some p) [] []) = Some d \<longleftrightarrow> meets store main p d" by auto
  with Some assms(5) show ?thesis
    by (auto simp: event_depth_def joins_def split: prod.splits option.splits)
qed

text \<open>
  The order the specification asks for: events that do not reach the mainline first, then those
  that reach it further from the resolved power levels, then by timestamp and identifier.
\<close>

definition mainline_before ::
  "event_store \<Rightarrow> (event_id \<times> nat) list \<Rightarrow> event_id \<Rightarrow> event_id \<Rightarrow> bool" where
  "mainline_before store main i j \<longleftrightarrow>
     (\<exists>x y. fetch_event store i = Some x \<and> fetch_event store j = Some y \<and>
        ((\<nexists>d. joins store main x d) \<and> (\<exists>d. joins store main y d) \<or>
         (\<exists>d e. joins store main x d \<and> joins store main y e \<and> e < d) \<or>
         (\<forall>d. joins store main x d \<longleftrightarrow> joins store main y d) \<and> (ev_ts x, i) < (ev_ts y, j)))"

text \<open>The key of an event, computed on the mainline alone.\<close>

definition mainline_position ::
  "event_store \<Rightarrow> (event_id \<times> nat) list \<Rightarrow> event_id \<Rightarrow> int option \<times> nat \<times> event_id" where
  "mainline_position store main i =
     (case fetch_event store i of
        None \<Rightarrow> (None, 0, i)
      | Some ev \<Rightarrow> mainline_order (fst (event_depth store main ev), ev_ts ev, i))"

lemma mainline_keys_positions:
  assumes "keyed_store store" and "wf (pl_chain store)" and "memo_inv store main memo"
    and "\<forall>i\<in>set is. \<forall>ev. fetch_event store i = Some ev \<longrightarrow> \<not> is_type_and_key ev RoomPowerLevels ''''"
  shows "map (\<lambda>k. (snd (snd k), mainline_order k)) (mainline_keys store memo is) =
    map (\<lambda>i. (i, mainline_position store main i)) (filter (\<lambda>i. fetch_event store i \<noteq> None) is)"
  using assms(3,4)
proof (induction "is" arbitrary: memo)
  case (Cons i "is")
  show ?case
  proof (cases "fetch_event store i")
    case None
    with Cons show ?thesis by simp
  next
    case (Some ev)
    have "stored store ev" "\<not> is_type_and_key ev RoomPowerLevels ''''"
      using keyed_store_fetch [OF assms(1) Some] Cons.prems(2) Some by auto
    from event_depth_memo [OF assms(1,2) Cons.prems(1) this]
    have "fst (event_depth store memo ev) = fst (event_depth store main ev)"
      "memo_inv store main (snd (event_depth store memo ev))" by auto
    with Cons.IH Cons.prems(2) Some show ?thesis
      by (simp add: case_prod_unfold Let_def mainline_position_def)
  qed
qed simp

lemma distinct_remdups_adj_sorted:
  "sorted (map f xs) \<Longrightarrow> inj_on f (set xs) \<Longrightarrow> distinct (remdups_adj xs) \<and> sorted (map f (remdups_adj xs))"
proof (induction xs rule: remdups_adj.induct)
  case (3 x y xs)
  show ?case
  proof (cases "x = y")
    case False
    have IH: "distinct (remdups_adj (y # xs))" "sorted (map f (remdups_adj (y # xs)))"
      using 3 False by (auto simp: inj_on_def)
    have "x \<notin> set (y # xs)"
    proof
      assume "x \<in> set (y # xs)"
      then have "f y \<le> f x" using "3.prems"(1) by auto
      with "3.prems"(1) have "f x = f y" by auto
      with "3.prems"(2) False show False by (auto simp: inj_on_def)
    qed
    with IH False "3.prems"(1) show ?thesis by auto
  qed (use 3 in \<open>auto simp: inj_on_def\<close>)
qed auto

lemma mainline_position_before:
  assumes "keyed_store store" and "wf (pl_chain store)"
    and "fetch_event store i = Some x" and "\<not> is_type_and_key x RoomPowerLevels ''''"
    and "fetch_event store j = Some y" and "\<not> is_type_and_key y RoomPowerLevels ''''"
    and less: "mainline_position store main i < mainline_position store main j"
  shows "mainline_before store main i j"
proof -
  note joins = event_depth_joins [OF assms(1,2) memo_inv_main]
  have x: "fst (event_depth store main x) = Some d \<longleftrightarrow> joins store main x d" for d
    using joins keyed_store_fetch [OF assms(1,3)] assms(4) by blast
  have y: "fst (event_depth store main y) = Some d \<longleftrightarrow> joins store main y d" for d
    using joins keyed_store_fetch [OF assms(1,5)] assms(6) by blast
  show ?thesis
  proof (cases "fst (event_depth store main x)")
    case None
    with x have nx: "\<not> joins store main x d" for d by simp
    show ?thesis
      using less None nx y assms(3,5)
      by (cases "fst (event_depth store main y)")
        (auto simp: mainline_before_def mainline_position_def mainline_order_def less_prod_def)
  next
    case (Some d)
    with less assms(3,5) obtain e where e: "fst (event_depth store main y) = Some e"
      by (cases "fst (event_depth store main y)")
        (auto simp: mainline_position_def mainline_order_def less_prod_def)
    have "joins store main x d' \<longleftrightarrow> d' = d" "joins store main y d' \<longleftrightarrow> d' = e" for d'
      using x [of d'] y [of d'] Some e by auto
    with less Some e assms(3,5) show ?thesis
      by (auto simp: mainline_before_def mainline_position_def mainline_order_def less_prod_def)
  qed
qed

lemma wf_pl_chain: "acyclic (auth_edges store) \<Longrightarrow> wf (pl_chain store)"
  using pl_chain_auth [of store]
  by (metis acyclic_converse acyclic_subset finite_acyclic_wf finite_pl_chain)

lemma inj_mainline_position: "inj (mainline_position store main)"
  by (rule injI) (auto simp: mainline_position_def mainline_order_def split: option.splits)

lemma mainline_sort_positions:
  assumes "wf (pl_chain store)" and "keyed_store store"
    and "\<forall>i\<in>set to_sort. \<forall>ev. fetch_event store i = Some ev \<longrightarrow>
      \<not> is_type_and_key ev RoomPowerLevels ''''"
    and main: "mainline_walk store pl 0 [] = Some main"
  shows "\<exists>xs. mainline_sort store to_sort pl = Some xs \<and> distinct xs \<and>
    set xs = {i \<in> set to_sort. fetch_event store i \<noteq> None} \<and>
    sorted (map (mainline_position store main) xs)"
proof (cases "to_sort = []")
  case True
  then show ?thesis by (auto simp: mainline_sort_def)
next
  case False
  let ?keys = "mainline_keys store main to_sort"
  let ?ids = "map (\<lambda>(_, _, i). i) (sort_key mainline_order ?keys)"
  note pos = mainline_keys_positions [OF assms(2,1) memo_inv_main assms(3)]
  have key: "mainline_order k = mainline_position store main (snd (snd k))" if "k \<in> set ?keys" for k
  proof -
    have "(snd (snd k), mainline_order k) \<in> set (map (\<lambda>k. (snd (snd k), mainline_order k)) ?keys)"
      using that by auto
    then show ?thesis unfolding pos by auto
  qed
  have "map (mainline_position store main) ?ids = map mainline_order (sort_key mainline_order ?keys)"
    using key by (auto simp: case_prod_unfold)
  then have "sorted (map (mainline_position store main) ?ids)" by (simp only: sorted_sort_key)
  moreover have "inj_on (mainline_position store main) (set ?ids)"
    using inj_mainline_position by (rule inj_on_subset) simp
  ultimately have "distinct (remdups_adj ?ids)" "sorted (map (mainline_position store main) (remdups_adj ?ids))"
    using distinct_remdups_adj_sorted by blast+
  moreover have "set ?ids = fst ` set (map (\<lambda>k. (snd (snd k), mainline_order k)) ?keys)"
    by (auto simp: case_prod_unfold image_image)
  then have "set (remdups_adj ?ids) = {i \<in> set to_sort. fetch_event store i \<noteq> None}"
    unfolding pos by (auto simp: image_image)
  moreover have "mainline_sort store to_sort pl = Some (remdups_adj ?ids)"
    using False main by (simp add: mainline_sort_def)
  ultimately show ?thesis by blast
qed

text \<open>
  C28: On events without cyclic auth chains the mainline sort returns. The mainline numbers the
  power level events from the resolved one backwards, and the result consists of exactly the
  events that could be fetched, each once, in the order of the specification: first those whose
  chain of power levels does not meet the mainline, then from the far end of the mainline to
  the resolved power levels, ties broken by timestamp and identifier. The memo of the second
  phase and the order of the input play no part. (Power level events are never sorted this way:
  they are control events.)
\<close>
theorem mainline_sort_correct:
  assumes "acyclic (auth_edges store)" and "keyed_store store"
    and "\<forall>i\<in>set to_sort. \<forall>ev. fetch_event store i = Some ev \<longrightarrow>
      \<not> is_type_and_key ev RoomPowerLevels ''''"
  shows "\<exists>main xs. (\<forall>i d. map_of main i = Some d \<longleftrightarrow> on_mainline store pl d i) \<and>
    mainline_sort store to_sort pl = Some xs \<and> distinct xs \<and>
    set xs = {i \<in> set to_sort. fetch_event store i \<noteq> None} \<and>
    sorted_wrt (mainline_before store main) xs"
proof -
  have wf: "wf (pl_chain store)" using assms(1) by (rule wf_pl_chain)
  obtain main where main: "mainline_walk store pl 0 [] = Some main"
    using mainline_walk_returns [OF assms(1)] by blast
  have "map_of main i = Some d \<longleftrightarrow> on_mainline store pl d i" for i d
    using main mainline_walk_positions [OF wf assms(2), of _ 0 "[]" main i d]
    by (cases pl) (auto simp: mainline_walk.simps [of store None])
  moreover obtain xs where xs: "mainline_sort store to_sort pl = Some xs" "distinct xs"
    "set xs = {i \<in> set to_sort. fetch_event store i \<noteq> None}"
    "sorted (map (mainline_position store main) xs)"
    using mainline_sort_positions [OF wf assms(2,3) main] by blast
  have "sorted_wrt (<) (map (mainline_position store main) xs)"
    unfolding strict_sorted_iff
    using xs(2,4) inj_on_subset [OF inj_mainline_position, of "set xs"] by (simp add: distinct_map)
  then have "sorted_wrt (\<lambda>i j. mainline_position store main i < mainline_position store main j) xs"
    by (simp only: sorted_wrt_map)
  then have "sorted_wrt (mainline_before store main) xs"
    by (rule sorted_wrt_mono_rel [rotated])
      (use xs(3) assms(3) mainline_position_before [OF assms(2) wf] in blast)
  ultimately show ?thesis using xs by blast
qed

theorem mainline_sort_correct_witness:
  "\<exists>xs. mainline_sort sample_store [''$r:x'', ''$create:x''] (Some ''$p:x'') = Some xs \<and>
     set xs = {''$r:x'', ''$create:x''}"
proof -
  have "keyed_store sample_store" by (simp add: keyed_store_def sample_store_def)
  moreover have "\<forall>i\<in>set [''$r:x'', ''$create:x'']. \<forall>ev. fetch_event sample_store i = Some ev \<longrightarrow>
      \<not> is_type_and_key ev RoomPowerLevels ''''"
    by (auto simp: fetch_sample_store is_type_and_key_def sample_create_def sample_event_def)
  moreover have "{i \<in> set [''$r:x'', ''$create:x'']. fetch_event sample_store i \<noteq> None} =
      {''$r:x'', ''$create:x''}" by (auto simp: fetch_sample_store)
  ultimately show ?thesis
    using mainline_sort_correct [OF sample_store_acyclic, of "[''$r:x'', ''$create:x'']" "Some ''$p:x''"]
    by auto
qed

end
