(* ===== verification/Resolve.thy ===== *)
theory Resolve
  imports Iterative_Auth Mainline
begin

text \<open>
  The whole of \<^verbatim>\<open>resolve\<close> (\<^verbatim>\<open>state_res/mod.rs\<close>), composed of the stages of the other theories.
  The outer option of the result is divergence (of the mainline walk), the inner sum the
  \<^verbatim>\<open>Result\<close> of the source. \<^verbatim>\<open>auth_chain_fetch\<close> is a parameter, as in the source; the callback for
  missing events, the batch prefetch and the timing output have no influence on the result.
\<close>

definition state_res_max_conflicted :: nat where
  "state_res_max_conflicted = 200000"

section \<open>The stages\<close>

text \<open>The conflicted subgraph and the state to start from.\<close>

definition initial_stage ::
  "state_resolution_version \<Rightarrow> event_store \<Rightarrow> event_id state_map \<Rightarrow> event_id list state_map
     \<Rightarrow> (event_id list \<times> event_id state_map) sres" where
  "initial_stage v store unconflicted conflicting =
     (if v = StateV2_1
      then try_res (ok_or (calculate_conflicted_subgraph conflicting store)
                      (InvalidPdu ''Failed to calculate conflicted subgraph'')) (\<lambda>(csg, missing).
           if missing \<noteq> []
           then Inl (InvalidPdu ''Cannot resolve state with missing auth events'')
           else Inr (csg, []))
      else Inr ([], copy_state_map unconflicted))"

text \<open>The auth chains of the conflicted events of each fork, and their difference.\<close>

definition auth_diff_stage ::
  "state_resolution_version \<Rightarrow> (event_id list \<Rightarrow> event_id list) \<Rightarrow> event_id state_map list
     \<Rightarrow> event_id list state_map \<Rightarrow> event_id list sres" where
  "auth_diff_stage v auth_chain_fetch state_sets conflicting =
     (if v = StateV2_1 then Inr []
      else get_auth_chain_diff
             (map (\<lambda>s. auth_chain_fetch (map snd (filter (\<lambda>(key, _). key \<in> fst ` set conflicting) s)))
               state_sets))"

text \<open>Only state events that can be fetched take part.\<close>

definition is_state_event_id :: "event_store \<Rightarrow> event_id \<Rightarrow> bool" where
  "is_state_event_id store i =
     (case fetch_event store i of None \<Rightarrow> False | Some ev \<Rightarrow> ev_state_key ev \<noteq> None)"

definition conflicted_set ::
  "event_store \<Rightarrow> event_id list \<Rightarrow> event_id list state_map \<Rightarrow> event_id list \<Rightarrow> event_id list" where
  "conflicted_set store auth_diff conflicting subgraph =
     filter (is_state_event_id store)
       (remdups (filter (is_state_event_id store)
          (auth_diff @ concat (map snd conflicting) @ subgraph)))"

text \<open>The creators of version 12 rooms in the global power level context.\<close>

definition push_creator :: "user_id \<Rightarrow> power_levels_fields \<Rightarrow> power_levels_fields" where
  "push_creator u f =
     (if get_user_power f u = None then f\<lparr>plf_users := plf_users f @ [(u, int_max)]\<rparr> else f)"

definition inject_privileged_creators ::
  "'v codec \<Rightarrow> event_store \<Rightarrow> event_id state_map \<Rightarrow> power_levels_fields \<Rightarrow> power_levels_fields" where
  "inject_privileged_creators c store unconflicted f =
     (case map_of unconflicted (RoomCreate, '''') of
        None \<Rightarrow> f
      | Some i \<Rightarrow>
          (case fetch_event store i of
             None \<Rightarrow> f
           | Some create \<Rightarrow>
               (case c_create c (ev_content create) of
                  None \<Rightarrow> f
                | Some cc \<Rightarrow>
                    let f1 = push_creator (ev_sender create) f;
                        f2 = (case cc_additional_creators cc of
                                None \<Rightarrow> f1
                              | Some us \<Rightarrow> fold push_creator us f1)
                    in f2\<lparr>plf_users := sort_key fst (plf_users f2)\<rparr>)))"

definition is_foundation_event_id :: "event_store \<Rightarrow> event_id \<Rightarrow> bool" where
  "is_foundation_event_id store i =
     (case fetch_event store i of
        None \<Rightarrow> False
      | Some ev \<Rightarrow> ev_kind ev \<in> {RoomPowerLevels, RoomCreate, RoomJoinRules, RoomMember})"

text \<open>The power level context from one power level event.\<close>

definition pl_context ::
  "'v codec \<Rightarrow> room_version \<Rightarrow> event_store \<Rightarrow> event_id state_map \<Rightarrow> event_id \<Rightarrow> power_levels_fields option"
where
  "pl_context c rv store unconflicted i =
     (case fetch_event store i of
        None \<Rightarrow> None
      | Some ev \<Rightarrow>
          map_option (\<lambda>f. if explicitly_privilege_room_creators rv
                          then inject_privileged_creators c store unconflicted f else f)
            (res_ok (plf_parse c (ev_content ev))))"

text \<open>Version 2.1: the power and foundation events are resolved first, on their own.\<close>

definition global_context_stage ::
  "'v codec \<Rightarrow> state_resolution_version \<Rightarrow> room_version \<Rightarrow> event_store \<Rightarrow> event_id list
     \<Rightarrow> event_id state_map \<Rightarrow> event_id state_map \<Rightarrow> pl_caches
     \<Rightarrow> (power_levels_fields option \<times> pl_caches) sres" where
  "global_context_stage c v rv store all_conflicted unconflicted initial_state caches =
     (if v = StateV2_1
      then
        let pl_events = filter (is_foundation_event_id store) all_conflicted;
            (sorted_pl, caches') =
              reverse_topological_power_sort c store pl_events all_conflicted None caches
        in try_res sorted_pl (\<lambda>ids.
           try_res (iterative_auth_check c rv store ids [copy_state_map initial_state]) (\<lambda>partial.
           Inr (case map_of partial (RoomPowerLevels, '''') of
                  Some i \<Rightarrow> (pl_context c rv store unconflicted i, caches')
                | None \<Rightarrow>
                    (Option.bind (map_of unconflicted (RoomPowerLevels, ''''))
                       (pl_context c rv store unconflicted), caches'))))
      else Inr (None, caches))"

text \<open>The control events: sorted by power, then checked.\<close>

definition control_stage ::
  "'v codec \<Rightarrow> room_version \<Rightarrow> event_store \<Rightarrow> event_id list \<Rightarrow> event_id state_map
     \<Rightarrow> power_levels_fields option \<Rightarrow> pl_caches \<Rightarrow> (event_id list \<times> event_id state_map) sres" where
  "control_stage c rv store all_conflicted initial_state global caches =
     (let control_events = sort (filter (is_power_event_id c store) all_conflicted)
      in try_res (fst (reverse_topological_power_sort c store control_events all_conflicted global caches))
           (\<lambda>sorted_control.
         try_res (iterative_auth_check c rv store sorted_control [initial_state]) (\<lambda>resolved_control.
         Inr (sorted_control, resolved_control))))"

text \<open>The remaining events: sorted by the mainline, then checked.\<close>

definition remaining_stage ::
  "'v codec \<Rightarrow> room_version \<Rightarrow> event_store \<Rightarrow> event_id list \<Rightarrow> event_id list \<Rightarrow> event_id state_map
     \<Rightarrow> event_id state_map sres option" where
  "remaining_stage c rv store all_conflicted sorted_control resolved_control =
     (let events_to_resolve = sort (filter (\<lambda>i. i \<notin> set sorted_control) all_conflicted);
          power_event = map_of resolved_control (RoomPowerLevels, '''')
      in map_option (\<lambda>ids. iterative_auth_check c rv store ids [resolved_control])
           (mainline_sort store events_to_resolve power_event))"

text \<open>From the conflicted set on; the hard cap returns the unconflicted state alone.\<close>

definition resolve_conflicts ::
  "'v codec \<Rightarrow> room_version_id \<Rightarrow> event_store \<Rightarrow> event_id state_map \<Rightarrow> event_id list
     \<Rightarrow> event_id state_map \<Rightarrow> event_id state_map sres option" where
  "resolve_conflicts c rvid store unconflicted all_conflicted initial_state =
     (if state_res_max_conflicted < length all_conflicted then Some (Inr unconflicted)
      else
        case room_version_new rvid of
          Inl e \<Rightarrow> Some (Inl e)
        | Inr rv \<Rightarrow>
            (case global_context_stage c (stateres_version_of rvid) rv store all_conflicted
                    unconflicted initial_state \<lparr>parsed_pl = [], sender_pl = []\<rparr> of
               Inl e \<Rightarrow> Some (Inl e)
             | Inr (global, caches) \<Rightarrow>
                 (case control_stage c rv store all_conflicted initial_state global caches of
                    Inl e \<Rightarrow> Some (Inl e)
                  | Inr (sorted_control, resolved_control) \<Rightarrow>
                      map_option (\<lambda>r. try_res r (\<lambda>state. Inr (map_extend unconflicted state)))
                        (remaining_stage c rv store all_conflicted sorted_control resolved_control))))"

definition resolve ::
  "'v codec \<Rightarrow> room_version_id \<Rightarrow> event_id state_map list \<Rightarrow> event_store
     \<Rightarrow> (event_id list \<Rightarrow> event_id list) \<Rightarrow> event_id state_map sres option" where
  "resolve c rvid state_sets store auth_chain_fetch =
     (let v = stateres_version_of rvid;
          (unconflicted, conflicting) = separate state_sets
      in if conflicting = [] then Some (Inr unconflicted)
         else
           case initial_stage v store unconflicted conflicting of
             Inl e \<Rightarrow> Some (Inl e)
           | Inr (subgraph, initial_state) \<Rightarrow>
               (case auth_diff_stage v auth_chain_fetch state_sets conflicting of
                  Inl e \<Rightarrow> Some (Inl e)
                | Inr auth_diff \<Rightarrow>
                    resolve_conflicts c rvid store unconflicted
                      (conflicted_set store auth_diff conflicting subgraph) initial_state))"

section \<open>What the result contains\<close>

text \<open>Inversion: how a run that succeeds got its result.\<close>

lemma resolve_conflicts_Inr:
  assumes "resolve_conflicts c rvid store unconflicted conflicted initial = Some (Inr state)"
  obtains (cap) "state = unconflicted"
  | (full) rv global caches sorted_control resolved_control ids state' where
      "room_version_new rvid = Inr rv"
      "control_stage c rv store conflicted initial global caches = Inr (sorted_control, resolved_control)"
      "mainline_sort store (sort (filter (\<lambda>i. i \<notin> set sorted_control) conflicted))
         (map_of resolved_control (RoomPowerLevels, '''')) = Some ids"
      "iterative_auth_check c rv store ids [resolved_control] = Inr state'"
      "state = map_extend unconflicted state'"
  using assms
  by (auto simp: resolve_conflicts_def remaining_stage_def Let_def try_res_eq_Inr
      split: if_splits sum.splits)

lemma resolve_Inr:
  assumes "resolve c rvid sets store fetch = Some (Inr state)"
    and "separate sets = (unconflicted, conflicting)"
  obtains (agreed) "conflicting = []" "state = unconflicted"
  | (conflicts) subgraph initial auth_diff where "conflicting \<noteq> []"
      "initial_stage (stateres_version_of rvid) store unconflicted conflicting = Inr (subgraph, initial)"
      "auth_diff_stage (stateres_version_of rvid) fetch sets conflicting = Inr auth_diff"
      "resolve_conflicts c rvid store unconflicted
         (conflicted_set store auth_diff conflicting subgraph) initial = Some (Inr state)"
  using assms by (auto simp: resolve_def Let_def split: if_splits sum.splits)

lemma resolve_conflicts_unconflicted:
  assumes "resolve_conflicts c rvid store unconflicted conflicted initial = Some (Inr state)"
    and "distinct (map fst unconflicted)" and "map_of unconflicted k = Some i"
  shows "map_of state k = Some i"
  using assms(1)
proof (cases rule: resolve_conflicts_Inr)
  case (full rv global caches sorted_control resolved_control ids state')
  with assms(2,3) show ?thesis by (simp add: map_of_map_extend)
qed (use assms in simp)

text \<open>
  C3: State on which all forks agree survives: whatever else the resolution decides, a key
  that every fork maps to the same event is mapped to that event in the result.
\<close>
theorem resolve_keeps_agreement:
  assumes "resolve c rvid sets store fetch = Some (Inr state)"
    and "\<forall>s\<in>set sets. distinct (map fst s)" and "sets \<noteq> []"
    and "\<forall>s\<in>set sets. map_of s k = Some i"
  shows "map_of state k = Some i"
proof -
  obtain u conf where sep: "separate sets = (u, conf)" by (cases "separate sets")
  have u: "map_of u k = Some i" using separate_facts(1) [OF assms(2,3) sep] assms(4) by blast
  from assms(1) sep show ?thesis
  proof (cases rule: resolve_Inr)
    case agreed
    with u show ?thesis by simp
  next
    case (conflicts subgraph initial auth_diff)
    from resolve_conflicts_unconflicted [OF conflicts(4) separate_distinct(1) [OF sep] u] show ?thesis .
  qed
qed

text \<open>
  Resolution of forks that agree is the identity: if all forks hold the same state, that
  state is the result, for every room version and without reading a single event.
\<close>
corollary resolve_agreement:
  assumes "\<forall>s\<in>set sets. distinct (map fst s)" and "sets \<noteq> []"
    and "\<forall>s\<in>set sets. map_of s = m"
  shows "\<exists>state. resolve c rvid sets store fetch = Some (Inr state) \<and> map_of state = m"
proof -
  obtain u conf where sep: "separate sets = (u, conf)" by (cases "separate sets")
  note facts = separate_facts [OF assms(1,2) sep]
  have "map_of u k = m k" for k
  proof (cases "m k")
    case None
    have "map_of u k \<noteq> Some i" for i
      using facts(1) [of k i] assms(2,3) None by (cases sets) auto
    with None show ?thesis by (cases "map_of u k") auto
  next
    case (Some i)
    with facts(1) [of k i] assms(3) show ?thesis by simp
  qed
  moreover have "conf = []"
  proof (rule ccontr)
    assume "conf \<noteq> []"
    then obtain k js where "(k, js) \<in> set conf" by (cases conf) auto
    then have js: "map_of conf k = Some js" using separate_distinct(2) [OF sep] by simp
    then obtain j where "j \<in> set js" using separate_nonempty [OF sep js] by (cases js) auto
    with js facts(2) [of k j] assms(3) show False by auto
  qed
  ultimately show ?thesis using sep by (simp add: resolve_def fun_eq_iff)
qed

text \<open>The stages only handle events of the conflicted set, and start from agreed state.\<close>

lemma merge_single [simp]: "merge_state_sets [s] = s"
  by (simp add: merge_state_sets_def)

lemma control_stage_Inr:
  assumes "control_stage c rv store conflicted initial global caches = Inr (sorted_control, resolved)"
  shows "iterative_auth_check c rv store sorted_control [initial] = Inr resolved"
    and "fst (reverse_topological_power_sort c store (sort (filter (is_power_event_id c store) conflicted))
      conflicted global caches) = Inr sorted_control"
  using assms by (auto simp: control_stage_def Let_def try_res_eq_Inr)

lemma conflicted_set_fetchable: "i \<in> set (conflicted_set store d cf g) \<Longrightarrow> fetch_event store i \<noteq> None"
  by (auto simp: conflicted_set_def is_state_event_id_def split: option.splits)

lemma power_sort_subset:
  assumes "\<forall>i\<in>set diff \<union> set events. fetch_event store i \<noteq> None"
  shows "\<exists>xs. fst (reverse_topological_power_sort c store events diff global caches) = Inr xs \<and>
    set events \<subseteq> set xs \<and> set xs \<subseteq> set events \<union> set diff"
proof -
  obtain lv nodes where n:
    "fst (reverse_topological_power_sort c store events diff global caches) = Inr (kahn_sort nodes)"
    "distinct (map fst nodes)"
    "fst ` set nodes = (diff_edges store (remdups (diff @ events)) diff)\<^sup>* `` set events"
    "\<forall>i\<in>fst ` set nodes. node_parents nodes i = set (auth_in_diff store (remdups (diff @ events)) diff i)"
    "\<forall>i\<in>fst ` set nodes. \<exists>ev. fetch_event store i = Some ev \<and> node_key nodes i = (- lv i, ev_ts ev, i)"
    "plain_store c store \<and> cache_inv c store caches \<longrightarrow>
       (\<forall>i\<in>fst ` set nodes. lv i = sender_power c store global i)"
    by (rule power_sort_result [OF assms])
  have "set (kahn_sort nodes) = (diff_edges store (remdups (diff @ events)) diff)\<^sup>* `` set events"
    using n(3) by (simp add: set_kahn_sort)
  moreover note power_sort_graph(1,2) [OF assms]
  ultimately show ?thesis using n(1) by blast
qed

lemma mainline_keys_ids: "snd ` snd ` set (mainline_keys store depth is) \<subseteq> set is"
  by (induction "is" arbitrary: depth) (force simp: case_prod_unfold Let_def split: option.splits)+

lemma mainline_sort_subset: "mainline_sort store ids pl = Some xs \<Longrightarrow> set xs \<subseteq> set ids"
  using mainline_keys_ids [of store _ ids]
  by (auto simp: mainline_sort_def bind_eq_Some_conv split: if_splits) force


text \<open>Two forks of the sample room that disagree about the join rules.\<close>

definition sample_fork :: "event_id \<Rightarrow> event_id state_map" where
  "sample_fork rule =
     [((RoomCreate, ''''), ''$create:x''), ((RoomMember, ''@a:x''), ''$m:x''),
      ((RoomPowerLevels, ''''), ''$p:x''), ((RoomJoinRules, ''''), rule)]"

definition sample_forks :: "event_id state_map list" where
  "sample_forks = [sample_fork ''$r:x'', sample_fork ''$s:x'']"

definition sample_chain :: "event_id list \<Rightarrow> event_id list" where
  "sample_chain ids = ids @ [''$create:x'', ''$m:x'', ''$p:x'']"

lemma sample_forks_distinct: "\<forall>s\<in>set sample_forks. distinct (map fst s)"
  by (simp add: sample_forks_def sample_fork_def)


lemma sample_resolution:
  "resolve sample_codec V10 sample_forks sample_room sample_chain = Some (Inr (sample_fork ''$s:x''))"
proof -
  let ?u = "butlast (sample_fork ''$r:x'')" and ?cf = "[((RoomJoinRules, ''''), [''$r:x'', ''$s:x''])]"
  let ?c = "[''$r:x'', ''$s:x'']"
  have start: "separate sample_forks = (?u, ?cf)" "stateres_version_of V10 = StateV2"
    "initial_stage StateV2 sample_room ?u ?cf = Inr ([], ?u)"
    "auth_diff_stage StateV2 sample_chain sample_forks ?cf = Inr ?c"
    "conflicted_set sample_room ?c ?cf [] = ?c" by code_simp+
  moreover have "room_version_new V10 = Inr room_v10" "length ?c < 3"
    "global_context_stage sample_codec StateV2 room_v10 sample_room ?c ?u ?u \<lparr>parsed_pl = [], sender_pl = []\<rparr> =
       Inr (None, \<lparr>parsed_pl = [], sender_pl = []\<rparr>)"
    "control_stage sample_codec room_v10 sample_room ?c ?u None \<lparr>parsed_pl = [], sender_pl = []\<rparr> =
       Inr (?c, sample_fork ''$s:x'')"
    "remaining_stage sample_codec room_v10 sample_room ?c ?c (sample_fork ''$s:x'') =
       Some (Inr (sample_fork ''$s:x''))"
    "map_extend ?u (sample_fork ''$s:x'') = sample_fork ''$s:x''" by code_simp+
  ultimately show ?thesis by (simp add: resolve_def resolve_conflicts_def state_res_max_conflicted_def)
qed

theorem resolve_keeps_agreement_witness:
  "map_of (sample_fork ''$s:x'') (RoomPowerLevels, '''') = Some ''$p:x''"
  by (rule resolve_keeps_agreement [OF sample_resolution sample_forks_distinct])
    (simp_all add: sample_forks_def sample_fork_def)


section \<open>The resolution returns\<close>

lemma fold_number_id_not_found: "fold number_id xs (Inr ids) \<noteq> Inl (NotFound s)"
proof (induction xs arbitrary: ids)
  case (Cons x xs)
  have "fold number_id xs (Inl e) = Inl e" for e :: sr_error and xs
    by (induction xs) (simp_all add: number_id_def)
  with Cons show ?case by (simp add: number_id_Inr)
qed simp

lemma get_auth_chain_diff_not_found: "get_auth_chain_diff css \<noteq> Inl (NotFound s)"
  by (auto simp: get_auth_chain_diff_def try_res_eq_Inl fold_number_id_not_found split: prod.splits)

lemma own_auth_state_not_found: "own_auth_state store as \<noteq> Inl (NotFound s)"
  by (induction as) (auto simp: try_res_eq_Inl split: option.splits)

lemma iterative_step_not_found: "iterative_step c rv store ev st \<noteq> Inl (NotFound s)"
  by (auto simp: iterative_step_def check_event_def auth_entries_def try_res_eq_Inl
      own_auth_state_not_found auth_check_not_found split: option.splits sum.splits)

lemma iterative_loop_not_found: "iterative_loop c rv store evs st \<noteq> Inl (NotFound s)"
  by (induction evs arbitrary: st) (auto simp: try_res_eq_Inl iterative_step_not_found)

lemma fetch_all_fetchable:
  "\<forall>i\<in>set ids. fetch_event store i \<noteq> None \<Longrightarrow> \<exists>evs. fetch_all store ids = Inr evs"
  by (induction ids) (auto simp: fetch_all_def)

lemma iterative_auth_check_not_found:
  assumes "\<forall>i\<in>set ids. fetch_event store i \<noteq> None"
  shows "iterative_auth_check c rv store ids sets \<noteq> Inl (NotFound s)"
  using fetch_all_fetchable [OF assms]
  by (auto simp: iterative_auth_check_def Let_def try_res_eq_Inl iterative_loop_not_found)

lemma global_context_not_found:
  assumes "\<forall>i\<in>set conflicted. fetch_event store i \<noteq> None"
  shows "global_context_stage c v rv store conflicted unconflicted initial caches \<noteq> Inl (NotFound s)"
proof -
  let ?pl = "filter (is_foundation_event_id store) conflicted"
  obtain xs where xs: "fst (reverse_topological_power_sort c store ?pl conflicted None caches) = Inr xs"
    "set xs \<subseteq> set ?pl \<union> set conflicted"
    using power_sort_subset [of conflicted ?pl store c None caches] assms by auto
  then have "iterative_auth_check c rv store xs [copy_state_map initial] \<noteq> Inl (NotFound s)"
    using assms by (intro iterative_auth_check_not_found) auto
  then show ?thesis using xs(1)
    by (auto simp: global_context_stage_def Let_def case_prod_unfold try_res_eq_Inl)
qed

lemma control_stage_not_found:
  assumes "\<forall>i\<in>set conflicted. fetch_event store i \<noteq> None"
  shows "control_stage c rv store conflicted initial global caches \<noteq> Inl (NotFound s)"
proof -
  let ?ce = "sort (filter (is_power_event_id c store) conflicted)"
  obtain xs where xs: "fst (reverse_topological_power_sort c store ?ce conflicted global caches) = Inr xs"
    "set xs \<subseteq> set ?ce \<union> set conflicted"
    using power_sort_subset [of conflicted ?ce store c global caches] assms by auto
  then have "iterative_auth_check c rv store xs [initial] \<noteq> Inl (NotFound s)"
    using assms by (intro iterative_auth_check_not_found) auto
  then show ?thesis using xs(1) by (auto simp: control_stage_def Let_def try_res_eq_Inl)
qed

lemma remaining_stage_returns:
  assumes "acyclic (auth_edges store)" and "\<forall>i\<in>set conflicted. fetch_event store i \<noteq> None"
  shows "\<exists>r. remaining_stage c rv store conflicted control resolved = Some r \<and> r \<noteq> Inl (NotFound s)"
proof -
  let ?ids = "sort (filter (\<lambda>i. i \<notin> set control) conflicted)"
  let ?pl = "map_of resolved (RoomPowerLevels, '''')"
  obtain main where "mainline_walk store ?pl 0 [] = Some main"
    using mainline_walk_returns [OF assms(1)] by blast
  then obtain xs where xs: "mainline_sort store ?ids ?pl = Some xs"
    by (cases "mainline_sort store ?ids ?pl") (auto simp: mainline_sort_def split: if_splits)
  from mainline_sort_subset [OF this] assms(2)
  have "iterative_auth_check c rv store xs [resolved] \<noteq> Inl (NotFound s)"
    by (intro iterative_auth_check_not_found) auto
  with xs show ?thesis by (simp add: remaining_stage_def Let_def)
qed

lemma resolve_conflicts_returns:
  assumes "acyclic (auth_edges store)" and "\<forall>i\<in>set conflicted. fetch_event store i \<noteq> None"
  shows "\<exists>r. resolve_conflicts c rvid store unconflicted conflicted initial = Some r \<and> r \<noteq> Inl (NotFound s)"
proof -
  have "room_version_new rvid \<noteq> Inl (NotFound s)" by (cases rvid) (simp_all add: room_version_new_def)
  moreover have "\<exists>r. map_option (\<lambda>r. try_res r (\<lambda>state. Inr (map_extend unconflicted state)))
      (remaining_stage c rv store conflicted control resolved) = Some r \<and> r \<noteq> Inl (NotFound s)"
    for rv control resolved
    using remaining_stage_returns [OF assms, of c rv control resolved s] by (auto simp: try_res_eq_Inl)
  ultimately show ?thesis
    by (simp add: resolve_conflicts_def split: sum.split)
      (auto simp: global_context_not_found [OF assms(2)] control_stage_not_found [OF assms(2)])
qed



end
