(* ===== verification/Determinism.thy ===== *)
theory Determinism
  imports Resolve
begin

text \<open>
  Two servers that hold the same events resolve the same forks to the same state. The code keeps
  states in hash maps and collects events in hash sets, whose iteration order differs from run to
  run; the theory follows each stage of \<^verbatim>\<open>resolve\<close> and shows that it looks at a state only
  through its lookups and at a collection of events only as a set.
\<close>

section \<open>The iterative check sees a state only as a map\<close>

definition iter_map :: "iter_state \<Rightarrow> (type_state_key \<rightharpoonup> event_id) \<times> event option" where
  "iter_map st = (map_of (fst st), snd st)"

abbreviation as_map :: "event_id state_map sres \<Rightarrow> (sr_error, type_state_key \<rightharpoonup> event_id) result" where
  "as_map r \<equiv> map_sum id map_of r"

lemma supplemental_state_cong:
  "map_of s = map_of s' \<Longrightarrow> supplemental_state store s = supplemental_state store s'"
  by (rule ext) (simp add: supplemental_state_def)

lemma map_sum_try_res:
  "map_sum id f (try_res r g) = try_res r (\<lambda>x. map_sum id f (g x))"
  by (cases r) simp_all

lemma map_sum_eqE:
  assumes "map_sum id f r = map_sum id f r'"
  obtains (error) e where "r = Inl e" "r' = Inl e"
  | (ok) a b where "r = Inr a" "r' = Inr b" "f a = f b"
  using assms by (cases r; cases r') auto

lemma check_event_cong:
  "iter_map st = iter_map st' \<Longrightarrow>
     map_sum id iter_map (check_event c rv entries k ev st) =
     map_sum id iter_map (check_event c rv entries k ev st')"
  by (auto simp: check_event_def iter_map_def map_sum_try_res AList.update_conv' split: option.split
      intro!: arg_cong [of _ _ "try_res _"])

lemma iterative_step_cong:
  assumes "iter_map st = iter_map st'"
  shows "map_sum id iter_map (iterative_step c rv store ev st) =
    map_sum id iter_map (iterative_step c rv store ev st')"
proof -
  have same: "snd st = snd st'" "supplemental_state store (fst st) = supplemental_state store (fst st')"
    using assms by (auto simp: iter_map_def intro: supplemental_state_cong)
  show ?thesis
    using assms
    by (simp add: iterative_step_def auth_entries_def same map_sum_try_res check_event_cong [OF assms]
        split: option.split sum.split)
qed

lemma iterative_loop_cong:
  "iter_map st = iter_map st' \<Longrightarrow>
     map_sum id iter_map (iterative_loop c rv store evs st) =
     map_sum id iter_map (iterative_loop c rv store evs st')"
proof (induction evs arbitrary: st st')
  case (Cons ev evs)
  from iterative_step_cong [OF Cons.prems, of c rv store ev] show ?case
  proof (cases rule: map_sum_eqE)
    case (ok a b)
    from Cons.IH [OF ok(3)] ok show ?thesis by simp
  qed simp
qed simp

lemma iterative_auth_check_cong:
  assumes "map_of s = map_of s'"
  shows "as_map (iterative_auth_check c rv store ids [s]) = as_map (iterative_auth_check c rv store ids [s'])"
proof (cases "fetch_all store ids")
  case (Inr fetched)
  let ?evs = "filter (\<lambda>ev. \<not> ev_rejected ev) fetched"
  have "iter_map (s, hoisted_create c rv store ?evs) = iter_map (s', hoisted_create c rv store ?evs)"
    using assms by (simp add: iter_map_def)
  from iterative_loop_cong [OF this, of c rv store ?evs] show ?thesis
    by (cases rule: map_sum_eqE)
      (use Inr assms in \<open>simp_all add: iterative_auth_check_def Let_def iter_map_def\<close>)
qed (simp add: iterative_auth_check_def)

section \<open>The stages\<close>

lemma copy_state_map_map_of: "distinct (map fst m) \<Longrightarrow> map_of (copy_state_map m) = map_of m"
  by (simp add: copy_state_map_def map_of_map_extend case_prod_unfold)

lemma inject_privileged_creators_cong:
  "map_of u = map_of u' \<Longrightarrow>
     inject_privileged_creators c store u = inject_privileged_creators c store u'"
  by (rule ext) (simp add: inject_privileged_creators_def)

lemma pl_context_cong:
  assumes "map_of u = map_of u'"
  shows "pl_context c rv store u = pl_context c rv store u'"
  by (rule ext) (simp only: pl_context_def inject_privileged_creators_cong [OF assms])

text \<open>The same conflicted events, each once, in another order.\<close>

definition same_events :: "event_store \<Rightarrow> event_id list \<Rightarrow> event_id list \<Rightarrow> bool" where
  "same_events store xs ys \<longleftrightarrow>
     distinct xs \<and> distinct ys \<and> set xs = set ys \<and> (\<forall>i\<in>set xs. fetch_event store i \<noteq> None)"

lemma same_events_sort: "same_events store xs ys \<Longrightarrow> sort (filter P xs) = sort (filter P ys)"
  by (rule sorted_distinct_set_unique) (auto simp: same_events_def)

lemma global_context_stage_cong:
  assumes same: "same_events store xs ys" and u: "map_of u = map_of u'" and s: "map_of s = map_of s'"
    and d: "distinct (map fst s)" "distinct (map fst s')"
    and plain: "plain_store c store" and inv: "cache_inv c store caches"
  shows "map_sum id fst (global_context_stage c v rv store xs u s caches) =
      map_sum id fst (global_context_stage c v rv store ys u' s' caches) \<and>
    (\<forall>g ca. global_context_stage c v rv store xs u s caches = Inr (g, ca) \<longrightarrow> cache_inv c store ca)"
proof (cases "v = StateV2_1")
  case True
  let ?sort = "\<lambda>xs. reverse_topological_power_sort c store (filter (is_foundation_event_id store) xs) xs None caches"
  have sort: "fst (?sort xs) = fst (?sort ys)"
    using same by (intro power_sort_cong [OF _ _ _ plain inv inv]) (auto simp: same_events_def)
  note caches = power_sort_caches [OF plain inv]
  have state: "map_of (copy_state_map s) = map_of (copy_state_map s')"
    using s d by (simp add: copy_state_map_map_of)
  show ?thesis
  proof (cases "fst (?sort ys)")
    case (Inl e)
    with sort True show ?thesis by (simp add: global_context_stage_def Let_def case_prod_unfold)
  next
    case (Inr ids)
    with sort have xs: "fst (?sort xs) = Inr ids" by simp
    from iterative_auth_check_cong [OF state, of c rv store ids] show ?thesis
    proof (cases rule: map_sum_eqE)
      case (error e)
      with Inr xs True show ?thesis by (simp add: global_context_stage_def Let_def case_prod_unfold)
    next
      case (ok p p')
      with Inr xs True u caches pl_context_cong [OF u, of c rv store] show ?thesis
        by (simp add: global_context_stage_def Let_def case_prod_unfold split: option.split)
    qed
  qed
qed (use inv in \<open>auto simp: global_context_stage_def\<close>)

lemma control_stage_cong:
  assumes same: "same_events store xs ys" and s: "map_of s = map_of s'"
    and plain: "plain_store c store" and inv: "cache_inv c store ca" "cache_inv c store ca'"
  shows "map_sum id (apsnd map_of) (control_stage c rv store xs s g ca) =
    map_sum id (apsnd map_of) (control_stage c rv store ys s' g ca')"
proof -
  let ?sort = "\<lambda>xs ca. fst (reverse_topological_power_sort c store
      (sort (filter (is_power_event_id c store) xs)) xs g ca)"
  have sort: "?sort xs ca = ?sort ys ca'"
    using same by (intro power_sort_cong [OF _ _ _ plain inv(2,1)]) (auto simp: same_events_def)
  show ?thesis
  proof (cases "?sort ys ca'")
    case (Inr ids)
    with sort have "?sort xs ca = Inr ids" by simp
    from iterative_auth_check_cong [OF s, of c rv store ids] show ?thesis
      by (cases rule: map_sum_eqE) (use Inr \<open>?sort xs ca = Inr ids\<close> in \<open>simp_all add: control_stage_def Let_def\<close>)
  qed (use sort in \<open>simp add: control_stage_def Let_def\<close>)
qed

lemma remaining_stage_cong:
  assumes "same_events store xs ys" and "map_of s = map_of s'"
  shows "map_option as_map (remaining_stage c rv store xs ids s) =
    map_option as_map (remaining_stage c rv store ys ids s')"
  by (simp add: remaining_stage_def Let_def same_events_sort [OF assms(1)] assms(2) option.map_comp comp_def
      iterative_auth_check_cong [OF assms(2)])

lemma as_map_extend:
  assumes "distinct (map fst u)" "distinct (map fst u')" "map_of u = map_of u'" "as_map r = as_map r'"
  shows "as_map (try_res r (\<lambda>s. Inr (map_extend u s))) = as_map (try_res r' (\<lambda>s. Inr (map_extend u' s)))"
  using assms(4) by (cases rule: map_sum_eqE) (simp_all add: map_of_map_extend assms(1-3))

lemma resolve_conflicts_cong:
  assumes same: "same_events store xs ys" and u: "map_of u = map_of u'" and s: "map_of s = map_of s'"
    and d: "distinct (map fst s)" "distinct (map fst s')" "distinct (map fst u)" "distinct (map fst u')"
    and plain: "plain_store c store"
  shows "map_option as_map (resolve_conflicts c rvid store u xs s) =
    map_option as_map (resolve_conflicts c rvid store u' ys s')"
proof (cases "state_res_max_conflicted < length xs")
  case True
  moreover have "length ys = length xs" using same by (metis same_events_def distinct_card)
  ultimately show ?thesis using u by (simp add: resolve_conflicts_def)
next
  case False
  have len: "length ys = length xs" using same by (metis same_events_def distinct_card)
  show ?thesis
  proof (cases "room_version_new rvid")
    case (Inl e)
    with False len show ?thesis by (simp add: resolve_conflicts_def)
  next
    case (Inr rv)
    let ?ca = "\<lparr>parsed_pl = [], sender_pl = []\<rparr>"
    have inv: "cache_inv c store ?ca" by (simp add: cache_inv_def)
    have same': "same_events store ys xs" using same by (auto simp: same_events_def)
    note g = global_context_stage_cong [OF same u s d(1,2) plain inv, of "stateres_version_of rvid" rv]
    note g' = global_context_stage_cong [OF same' u [symmetric] s [symmetric] d(2,1) plain inv,
        of "stateres_version_of rvid" rv]
    from g [THEN conjunct1] show ?thesis
    proof (cases rule: map_sum_eqE)
      case (error e)
      with Inr False len show ?thesis by (simp add: resolve_conflicts_def)
    next
      case (ok p p')
      obtain gl ca ca' where p: "p = (gl, ca)" "p' = (gl, ca')" using ok(3) by (cases p; cases p') simp
      have "cache_inv c store ca" "cache_inv c store ca'"
        using g [THEN conjunct2] g' [THEN conjunct2] ok(1,2) p by blast+
      from control_stage_cong [OF same s plain this, of rv gl] show ?thesis
      proof (cases rule: map_sum_eqE)
        case (error e)
        with Inr False len ok p show ?thesis by (simp add: resolve_conflicts_def)
      next
        case control: (ok q q')
        obtain ids r r' where q: "q = (ids, r)" "q' = (ids, r')" "map_of r = map_of r'"
          using control(3) by (cases q; cases q') simp
        have "map_option as_map (map_option (\<lambda>r. try_res r (\<lambda>state. Inr (map_extend u state)))
            (remaining_stage c rv store xs ids r)) =
          map_option as_map (map_option (\<lambda>r. try_res r (\<lambda>state. Inr (map_extend u' state)))
            (remaining_stage c rv store ys ids r'))"
          using remaining_stage_cong [OF same q(3), of c rv ids] as_map_extend [OF d(3,4) u]
          by (cases "remaining_stage c rv store xs ids r"; cases "remaining_stage c rv store ys ids r'") simp_all
        with Inr False len ok p control q show ?thesis by (simp add: resolve_conflicts_def)
      qed
    qed
  qed
qed

section \<open>The split of the forks\<close>

text \<open>The same forks: as maps, and in any order.\<close>

definition same_forks :: "event_id state_map list \<Rightarrow> event_id state_map list \<Rightarrow> bool" where
  "same_forks sets sets' \<longleftrightarrow>
     sets \<noteq> [] \<and> (\<forall>s\<in>set sets. distinct (map fst s)) \<and> (\<forall>s\<in>set sets'. distinct (map fst s)) \<and>
     mset (map map_of sets') = mset (map map_of sets)"

lemma same_forksD:
  assumes "same_forks sets sets'"
  shows "sets \<noteq> []" "sets' \<noteq> []" "\<forall>s\<in>set sets. distinct (map fst s)" "\<forall>s\<in>set sets'. distinct (map fst s)"
    "map_of ` set sets' = map_of ` set sets" "same_forks sets' sets"
proof -
  from assms show "sets \<noteq> []" "\<forall>s\<in>set sets. distinct (map fst s)" "\<forall>s\<in>set sets'. distinct (map fst s)"
    by (auto simp: same_forks_def)
  have m: "mset (map map_of sets') = mset (map map_of sets)" using assms by (simp add: same_forks_def)
  from mset_eq_setD [OF m] show eq: "map_of ` set sets' = map_of ` set sets" by simp
  with \<open>sets \<noteq> []\<close> show "sets' \<noteq> []" by auto
  with assms m show "same_forks sets' sets" by (simp add: same_forks_def)
qed

lemma same_forks_all:
  assumes "map_of ` set sets' = map_of ` set sets"
  shows "(\<forall>s\<in>set sets'. P (map_of s)) \<longleftrightarrow> (\<forall>s\<in>set sets. P (map_of s))"
    and "(\<exists>s\<in>set sets'. P (map_of s)) \<longleftrightarrow> (\<exists>s\<in>set sets. P (map_of s))"
  using assms by (metis (no_types, lifting) image_iff)+

lemma option_eq_by_Some: "(\<And>v. x = Some v \<longleftrightarrow> y = Some v) \<Longrightarrow> x = y"
  by (cases x; cases y) auto

lemma separate_cong:
  assumes same: "same_forks sets sets'"
    and sep: "separate sets = (u, conf)" "separate sets' = (u', conf')"
  shows "map_of u' = map_of u" and "fst ` set conf' = fst ` set conf"
    and "set (concat (map snd conf')) = set (concat (map snd conf))"
proof -
  note D = same_forksD [OF same]
  note facts = separate_facts [OF D(3,1) sep(1)] and facts' = separate_facts [OF D(4,2) sep(2)]
  have "map_of u' k = Some i \<longleftrightarrow> map_of u k = Some i" for k i
    unfolding facts(1) facts'(1) by (rule same_forks_all(1) [OF D(5), of "\<lambda>m. m k = Some i"])
  then show "map_of u' = map_of u" by (intro ext) (rule option_eq_by_Some)
  have ex: "(\<exists>is. map_of conf' k = Some is \<and> i \<in> set is) \<longleftrightarrow> (\<exists>is. map_of conf k = Some is \<and> i \<in> set is)" for k i
    unfolding facts(2) facts'(2)
    using same_forks_all(2) [OF D(5), of "\<lambda>m. m k = Some i"] same_forks_all(2) [OF D(5), of "\<lambda>m. m k \<noteq> Some i"]
    by simp
  have keys: "k \<in> fst ` set cf \<longleftrightarrow> (\<exists>i. \<exists>is. map_of cf k = Some is \<and> i \<in> set is)"
    if "separate ss = (v, cf)" for ss :: "event_id state_map list" and v cf k
  proof -
    have "k \<in> fst ` set cf \<longleftrightarrow> (\<exists>is. map_of cf k = Some is)"
      by (metis map_of_eq_None_iff not_Some_eq)
    also have "\<dots> \<longleftrightarrow> (\<exists>i. \<exists>is. map_of cf k = Some is \<and> i \<in> set is)"
      using separate_nonempty [OF that, of k] by (metis last_in_set)
    finally show ?thesis .
  qed
  show "fst ` set conf' = fst ` set conf"
    using ex by (auto simp only: set_eq_iff keys [OF sep(1)] keys [OF sep(2)])
  have elems: "i \<in> set (concat (map snd cf)) \<longleftrightarrow> (\<exists>k. \<exists>is. map_of cf k = Some is \<and> i \<in> set is)"
    if "separate ss = (v, cf)" for ss :: "event_id state_map list" and v cf i
    using separate_distinct(2) [OF that] by (force dest: map_of_SomeD)
  show "set (concat (map snd conf')) = set (concat (map snd conf))"
    using ex by (auto simp only: set_eq_iff elems [OF sep(1)] elems [OF sep(2)])
qed

section \<open>The conflicted events\<close>

lemma conflicted_subgraph_Some: "\<exists>g m. calculate_conflicted_subgraph conf store = Some (g, m)"
  by (simp add: calculate_conflicted_subgraph_def Let_def case_prod_unfold)

lemma initial_stage_cong:
  assumes "map_of u' = map_of u" and "distinct (map fst u)" "distinct (map fst u')"
    and "set (concat (map snd conf')) = set (concat (map snd conf))"
  shows "(\<exists>e. initial_stage v store u conf = Inl e \<and> initial_stage v store u' conf' = Inl e) \<or>
    (\<exists>g s g' s'. initial_stage v store u conf = Inr (g, s) \<and> initial_stage v store u' conf' = Inr (g', s') \<and>
      set g' = set g \<and> map_of s' = map_of s \<and> distinct (map fst s) \<and> distinct (map fst s'))"
proof (cases "v = StateV2_1")
  case True
  obtain g m g' m' where sub: "calculate_conflicted_subgraph conf store = Some (g, m)"
    "calculate_conflicted_subgraph conf' store = Some (g', m')"
    using conflicted_subgraph_Some [of conf store] conflicted_subgraph_Some [of conf' store] by blast
  have "set g' = set g" "set m' = set m"
    unfolding conflicted_subgraph_sets [OF sub(1)] conflicted_subgraph_sets [OF sub(2)] assms(4) by simp_all
  with True sub show ?thesis by (cases m; cases m') (simp_all add: initial_stage_def)
next
  case False
  have "distinct (map fst (copy_state_map w))" for w :: "event_id state_map"
    unfolding copy_state_map_def by (rule distinct_map_extend) simp
  with False assms(1-3) show ?thesis by (simp add: initial_stage_def copy_state_map_map_of)
qed

text \<open>
  What is relied on of \<^verbatim>\<open>auth_chain_fetch\<close>: it returns a set of events, the auth chains of the set
  of events it is asked for, and there are no more of them than 32-bit indices.
\<close>

definition chain_fetcher ::
  "(event_id set \<Rightarrow> event_id set) \<Rightarrow> event_id set \<Rightarrow> (event_id list \<Rightarrow> event_id list) \<Rightarrow> bool" where
  "chain_fetcher F U fetch \<longleftrightarrow>
     finite U \<and> card U \<le> 2 ^ 32 \<and> (\<forall>is. set (fetch is) = F (set is) \<and> F (set is) \<subseteq> U)"

lemma fork_ids:
  assumes "distinct (map fst s)"
  shows "set (map snd (filter (\<lambda>(key, _). key \<in> K) s)) = ran (map_of s |` K)"
proof -
  have "(k, i) \<in> set s \<longleftrightarrow> map_of s k = Some i" for k i using assms by simp
  then show ?thesis by (auto simp: ran_def restrict_map_def image_iff split: if_splits)
qed

lemma auth_diff_stage_set:
  fixes conf :: "event_id list state_map"
  assumes fetch: "chain_fetcher F U fetch" and "sets \<noteq> []" and d: "\<forall>s\<in>set sets. distinct (map fst s)"
    and "v \<noteq> StateV2_1"
  defines "C \<equiv> (\<lambda>m. F (ran (m |` (fst ` set conf)))) ` map_of ` set sets"
  shows "\<exists>diff. auth_diff_stage v fetch sets conf = Inr diff \<and> set diff = \<Union> C - \<Inter> C"
proof -
  let ?chains = "map (\<lambda>s. fetch (map snd (filter (\<lambda>(key, _). key \<in> fst ` set conf) s))) sets"
  have C: "set ` set ?chains = C"
    using fetch d unfolding C_def image_image set_map
    by (intro image_cong refl) (simp add: chain_fetcher_def fork_ids [symmetric])
  have "X \<subseteq> U" if "X \<in> C" for X
    using that fetch unfolding C [symmetric] by (auto simp: chain_fetcher_def)
  then have "\<Union> C \<subseteq> U" by (rule Union_least)
  then have "card (\<Union> C) \<le> 2 ^ 32" using fetch card_mono [of U "\<Union> C"] by (simp add: chain_fetcher_def)
  moreover have "set (concat ?chains) = \<Union> C" using C by auto
  ultimately have "length (remdups (concat ?chains)) \<le> 2 ^ 32" by (simp add: length_remdups_card_conv)
  from auth_chain_diff_set [OF this] assms(2)
  have "\<exists>diff. get_auth_chain_diff ?chains = Inr diff \<and> set diff = \<Union> C - \<Inter> C"
    unfolding C by simp
  with assms(4) show ?thesis by (simp add: auth_diff_stage_def)
qed

lemma auth_diff_stage_cong:
  assumes "chain_fetcher F U fetch" "chain_fetcher F U fetch'" and same: "same_forks sets sets'"
    and keys: "fst ` set conf' = fst ` set conf"
  shows "\<exists>d d'. auth_diff_stage v fetch sets conf = Inr d \<and> auth_diff_stage v fetch' sets' conf' = Inr d' \<and>
    set d' = set d"
proof (cases "v = StateV2_1")
  case True
  then show ?thesis by (simp add: auth_diff_stage_def)
next
  case False
  note D = same_forksD [OF same]
  obtain d where "auth_diff_stage v fetch sets conf = Inr d"
    "set d = \<Union> ((\<lambda>m. F (ran (m |` (fst ` set conf)))) ` map_of ` set sets) -
      \<Inter> ((\<lambda>m. F (ran (m |` (fst ` set conf)))) ` map_of ` set sets)"
    using auth_diff_stage_set [OF assms(1) D(1,3) False, of conf] by (elim exE conjE)
  moreover obtain d' where "auth_diff_stage v fetch' sets' conf' = Inr d'"
    "set d' = \<Union> ((\<lambda>m. F (ran (m |` (fst ` set conf)))) ` map_of ` set sets) -
      \<Inter> ((\<lambda>m. F (ran (m |` (fst ` set conf)))) ` map_of ` set sets)"
    using auth_diff_stage_set [OF assms(2) D(2,4) False, of conf'] unfolding keys D(5) by (elim exE conjE)
  ultimately show ?thesis by simp
qed

lemma conflicted_set_cong:
  assumes "set d' = set d" and "set (concat (map snd conf')) = set (concat (map snd conf))" and "set g' = set g"
  shows "same_events store (conflicted_set store d conf g) (conflicted_set store d' conf' g')"
proof -
  have "set (conflicted_set store d conf g) = set (conflicted_set store d' conf' g')"
    using assms by (auto simp: conflicted_set_def)
  moreover have "distinct (conflicted_set store e cf h)" for e cf h by (simp add: conflicted_set_def)
  ultimately show ?thesis using conflicted_set_fetchable unfolding same_events_def by blast
qed



end
