(* ===== verification/Byte_Order.thy ===== *)
theory Byte_Order
  imports Prelude "HOL-Library.Word"
begin

text \<open>
  Machine integers as keys of the database: \<^verbatim>\<open>to_be_bytes\<close> and \<^verbatim>\<open>from_be_bytes\<close> of the standard
  library for \<^verbatim>\<open>u64\<close> and \<^verbatim>\<open>i64\<close>, the order of byte slices, and the effect of flipping the sign
  bit. An \<^verbatim>\<open>i64\<close> is a 64-bit word read with \<^const>\<open>sint\<close>, so that the casts between \<^verbatim>\<open>u64\<close> and
  \<^verbatim>\<open>i64\<close> are the identity.
\<close>

unbundle bit_operations_syntax

type_synonym byte = "8 word"
type_synonym u64 = "64 word"
type_synonym i64 = "64 word"

text \<open>The order of byte slices: lexicographic, a proper prefix is smaller.\<close>

fun bytes_less :: "byte list \<Rightarrow> byte list \<Rightarrow> bool" where
  "bytes_less [] [] \<longleftrightarrow> False"
| "bytes_less [] (b # bs) \<longleftrightarrow> True"
| "bytes_less (a # as) [] \<longleftrightarrow> False"
| "bytes_less (a # as) (b # bs) \<longleftrightarrow> a < b \<or> a = b \<and> bytes_less as bs"

fun to_be :: "nat \<Rightarrow> nat \<Rightarrow> byte list" where
  "to_be 0 n = []"
| "to_be (Suc k) n = word_of_nat (n div 256 ^ k) # to_be k (n mod 256 ^ k)"

definition from_be :: "byte list \<Rightarrow> nat" where
  "from_be bs = foldl (\<lambda>a b. a * 256 + unat b) 0 bs"

definition u64_to_be_bytes :: "u64 \<Rightarrow> byte list" where
  "u64_to_be_bytes w = to_be 8 (unat w)"

definition u64_from_be_bytes :: "byte list \<Rightarrow> u64" where
  "u64_from_be_bytes bs = word_of_nat (from_be bs)"

section \<open>Digits\<close>

lemma foldl_base: "foldl (\<lambda>a b. a * 256 + unat b) a bs = a * 256 ^ length bs + from_be bs"
proof (induction bs arbitrary: a)
  case (Cons b bs)
  from Cons [of "a * 256 + unat b"] Cons [of "unat b"] show ?case
    by (simp add: from_be_def algebra_simps)
qed (simp add: from_be_def)

lemma from_be_simps [simp]:
  "from_be [] = 0"
  "from_be (b # bs) = unat b * 256 ^ length bs + from_be bs"
  using foldl_base [of "unat b" bs] by (simp_all add: from_be_def)

lemma from_be_append: "from_be (as @ bs) = from_be as * 256 ^ length bs + from_be bs"
  by (induction as) (simp_all add: power_add algebra_simps)

lemma from_be_less: "from_be bs < 256 ^ length bs"
proof (induction bs)
  case (Cons b bs)
  have "unat b \<le> 255" using unsigned_less [of b, where 'a = nat] by simp
  then have "unat b * 256 ^ length bs \<le> 255 * 256 ^ length bs" by (rule mult_right_mono) simp
  with Cons have "from_be (b # bs) < 255 * 256 ^ length bs + 256 ^ length bs"
    by (simp only: from_be_simps)
  then show ?case by simp
qed simp

lemma length_to_be [simp]: "length (to_be k n) = k"
  by (induction k n rule: to_be.induct) simp_all

lemma from_be_to_be: "n < 256 ^ k \<Longrightarrow> from_be (to_be k n) = n"
proof (induction k n rule: to_be.induct)
  case (2 k n)
  then have "n div 256 ^ k < 256" by (simp add: div_less_iff_less_mult mult.commute)
  then have "unat (word_of_nat (n div 256 ^ k) :: byte) = n div 256 ^ k"
    by (simp add: unat_of_nat)
  with 2 show ?case by (simp add: div_mult_mod_eq)
qed simp

lemma to_be_from_be: "to_be (length bs) (from_be bs) = bs"
proof (induction bs)
  case (Cons b bs)
  have "(unat b * 256 ^ length bs + from_be bs) div 256 ^ length bs = unat b"
    using from_be_less [of bs] by simp
  with Cons from_be_less [of bs] show ?case by simp
qed simp

lemma from_be_inj: "length as = length bs \<Longrightarrow> from_be as = from_be bs \<longleftrightarrow> as = bs"
  by (metis to_be_from_be)

lemma bytes_less_from_be:
  "length as = length bs \<Longrightarrow> bytes_less as bs \<longleftrightarrow> from_be as < from_be bs"
proof (induction as bs rule: bytes_less.induct)
  case (4 a as b bs)
  let ?B = "256 ^ length bs :: nat"
  have less: "from_be as < ?B" "from_be bs < ?B" using from_be_less [of as] from_be_less [of bs] 4(2) by auto
  have "unat x * ?B + p < unat y * ?B + q" if "x < y" "p < ?B" for x y :: byte and p q
  proof -
    have "Suc (unat x) * ?B \<le> unat y * ?B" using that(1) by (intro mult_right_mono) (simp_all add: word_less_nat_alt)
    with that(2) show ?thesis by simp
  qed
  from this [of a b "from_be as" "from_be bs"] this [of b a "from_be bs" "from_be as"] 4 less show ?case
    by (cases a b rule: linorder_cases) auto
qed simp_all

section \<open>The sign bit\<close>

lemma xor_top_bit:
  fixes w :: "'a::len word"
  shows "w XOR push_bit (LENGTH('a) - 1) 1 = w + push_bit (LENGTH('a) - 1) 1"
proof (cases "bit w (LENGTH('a) - 1)")
  case False
  then have "w AND push_bit (LENGTH('a) - 1) 1 = 0"
    by (intro bit_eqI) (auto simp: bit_simps dest: bit_imp_le_length)
  then show ?thesis by (simp add: disjunctive_add_eq_xor)
next
  case True
  let ?t = "push_bit (LENGTH('a) - 1) 1 :: 'a word"
  have "NOT w AND ?t = 0" using True by (intro bit_eqI) (auto simp: bit_simps)
  then have "w - ?t = w XOR ?t"
    by (simp only: disjunctive_diff_eq_and_not disjunctive_and_not_eq_xor)
  moreover have "?t + ?t = 0"
  proof -
    have "?t + ?t = 2 ^ Suc (LENGTH('a) - 1)" by (simp only: push_bit_eq_mult power_Suc mult_1 mult_2)
    also have "\<dots> = (2 ^ LENGTH('a) :: 'a word)" by (simp only: Suc_diff_1 len_gt_0)
    also have "\<dots> = 0" by simp
    finally show ?thesis .
  qed
  ultimately show ?thesis by (metis add_diff_cancel_right' diff_0 diff_conv_add_uminus eq_neg_iff_add_eq_0)
qed

lemma flip_sign:
  "(w :: u64) XOR 0x8000000000000000 = w + 0x8000000000000000"
  "(b :: byte) XOR 0x80 = b + 0x80"
  using xor_top_bit [of w] xor_top_bit [of b] by (simp_all add: push_bit_eq_mult)

lemma uint_flip_sign: "uint (w + 0x8000000000000000 :: i64) = sint w + 2 ^ 63"
proof -
  have range: "- (2 ^ 63) \<le> sint w" "sint w < 2 ^ 63" using sint_ge [of w] sint_lt [of w] by simp_all
  have "uint (word_of_int k :: i64) = k mod 2 ^ 64" for k by (simp add: uint_word_of_int)
  note this [of "sint w + 2 ^ 63"]
  moreover have "w + 0x8000000000000000 = word_of_int (sint w + 2 ^ 63)" by simp
  ultimately have "uint (w + 0x8000000000000000) = (sint w + 2 ^ 63) mod 2 ^ 64"
    by (simp only:)
  also have "\<dots> = sint w + 2 ^ 63" using range by (intro mod_pos_pos_trivial) simp_all
  finally show ?thesis .
qed

lemma unat_flip_sign: "int (unat (w + 0x8000000000000000 :: i64)) = sint w + 2 ^ 63"
  using uint_flip_sign [of w] by simp

lemma flip_sign_twice [simp]: "(w XOR k) XOR k = (w :: 'a::len word)"
  by (simp add: xor.assoc)

text \<open>Flipping the first byte flips the sign of the number.\<close>

lemma flip_first_byte:
  assumes "u64_to_be_bytes w = b # bs"
  shows "(b XOR 0x80) # bs = u64_to_be_bytes (w XOR 0x8000000000000000)"
proof -
  have len: "length (b # bs) = 8" using assms by (metis u64_to_be_bytes_def length_to_be)
  have "from_be (b # bs) = unat w"
    using assms unsigned_less [of w, where 'a = nat] from_be_to_be [of "unat w" 8] by (simp add: u64_to_be_bytes_def)
  then have w: "unat w = unat b * 2 ^ 56 + from_be bs" using len by simp
  have less: "from_be bs < 2 ^ 56" using from_be_less [of bs] len by simp
  have "unat (b + 0x80) = (unat b + 128) mod 256" by (simp add: unat_word_ariths)
  moreover have "unat (w + 0x8000000000000000) = (unat w + 2 ^ 63) mod 2 ^ 64" by (simp add: unat_word_ariths)
  moreover have "((x + 128) mod 256) * 2 ^ 56 + y = (x * 2 ^ 56 + y + 2 ^ 63) mod 2 ^ 64"
    if "x < 256" "y < 2 ^ 56" for x y :: nat
    using that by (cases "x < 128") (auto simp: mod_if)
  ultimately have "from_be ((b XOR 0x80) # bs) = unat (w XOR 0x8000000000000000)"
    using w less len unsigned_less [of b, where 'a = nat] by (simp add: flip_sign)
  moreover have "length ((b XOR 0x80) # bs) = 8" using len by simp
  ultimately show ?thesis by (metis to_be_from_be u64_to_be_bytes_def)
qed

lemma length_u64_to_be_bytes [simp]: "length (u64_to_be_bytes w) = 8"
  by (simp add: u64_to_be_bytes_def)

lemma from_be_u64 [simp]: "from_be (u64_to_be_bytes w) = unat w"
  using unsigned_less [of w, where 'a = nat] by (simp add: u64_to_be_bytes_def from_be_to_be)

lemma u64_from_be_to_be [simp]: "u64_from_be_bytes (u64_to_be_bytes w) = w"
  by (simp add: u64_from_be_bytes_def)

lemma u64_to_be_from_be: "length bs = 8 \<Longrightarrow> u64_to_be_bytes (u64_from_be_bytes bs) = bs"
  using from_be_less [of bs] to_be_from_be [of bs]
  by (simp add: u64_to_be_bytes_def u64_from_be_bytes_def unat_of_nat)

text \<open>Two words one after the other are compared like a pair.\<close>

lemma bytes_less_append:
  "length as = length as' \<Longrightarrow>
     bytes_less (as @ bs) (as' @ bs') \<longleftrightarrow> bytes_less as as' \<or> as = as' \<and> bytes_less bs bs'"
  by (induction as as' rule: list_induct2) auto

lemma bytes_less_u64: "bytes_less (u64_to_be_bytes v) (u64_to_be_bytes w) \<longleftrightarrow> v < w"
  by (simp add: bytes_less_from_be word_less_nat_alt)

lemma u64_to_be_bytes_inj [simp]: "u64_to_be_bytes v = u64_to_be_bytes w \<longleftrightarrow> v = w"
  by (metis u64_from_be_to_be)

lemma flip_sign_less: "(v XOR 0x8000000000000000 < (w XOR 0x8000000000000000 :: i64)) \<longleftrightarrow> sint v < sint w"
  unfolding flip_sign word_less_def uint_flip_sign by simp

end
