(* ===== verification/Pdu_Count.thy ===== *)
theory Pdu_Count
  imports Byte_Order Text_Num
begin

text \<open>
  Positions in the timeline of a room: \<^verbatim>\<open>Count\<close>, \<^verbatim>\<open>Id\<close>, \<^verbatim>\<open>RawId\<close>, \<^verbatim>\<open>TimelineKey\<close> and
  \<^verbatim>\<open>TopoToken\<close> (\<^verbatim>\<open>core/matrix/pdu\<close>). Live events count up from one, backfilled events count
  down from zero. The database sorts by bytes, so the encodings have to keep the order; tokens
  are handed to clients as text and have to come back unchanged. Machine arithmetic is kept at
  64 bits; the debug assertions are the predicate \<open>count_valid\<close>.
\<close>

datatype count = Normal u64 | Backfilled i64

datatype direction = Forward | Backward

datatype count_error = Arithmetic string | ParseInt | InvalidParam string

section \<open>Integers of the standard library\<close>

definition u64_checked_add :: "u64 \<Rightarrow> u64 \<Rightarrow> u64 option" where
  "u64_checked_add a b = (if unat a + unat b < 2 ^ 64 then Some (a + b) else None)"

definition u64_checked_sub :: "u64 \<Rightarrow> u64 \<Rightarrow> u64 option" where
  "u64_checked_sub a b = (if b \<le> a then Some (a - b) else None)"

definition u64_saturating_add :: "u64 \<Rightarrow> u64 \<Rightarrow> u64" where
  "u64_saturating_add a b = (if unat a + unat b < 2 ^ 64 then a + b else - 1)"

definition u64_saturating_sub :: "u64 \<Rightarrow> u64 \<Rightarrow> u64" where
  "u64_saturating_sub a b = (if b \<le> a then a - b else 0)"

definition i64_max :: i64 where
  "i64_max = 0x7FFFFFFFFFFFFFFF"

definition i64_min :: i64 where
  "i64_min = 0x8000000000000000"

definition in_i64 :: "int \<Rightarrow> bool" where
  "in_i64 i \<longleftrightarrow> - (2 ^ 63) \<le> i \<and> i < 2 ^ 63"

definition i64_clamp :: "int \<Rightarrow> i64" where
  "i64_clamp i = word_of_int (max (- (2 ^ 63)) (min (2 ^ 63 - 1) i))"

definition i64_checked_add :: "i64 \<Rightarrow> i64 \<Rightarrow> i64 option" where
  "i64_checked_add a b = (if in_i64 (sint a + sint b) then Some (a + b) else None)"

definition i64_checked_sub :: "i64 \<Rightarrow> i64 \<Rightarrow> i64 option" where
  "i64_checked_sub a b = (if in_i64 (sint a - sint b) then Some (a - b) else None)"

definition i64_saturating_add :: "i64 \<Rightarrow> i64 \<Rightarrow> i64" where
  "i64_saturating_add a b = i64_clamp (sint a + sint b)"

definition i64_saturating_sub :: "i64 \<Rightarrow> i64 \<Rightarrow> i64" where
  "i64_saturating_sub a b = i64_clamp (sint a - sint b)"

section \<open>Counts\<close>

definition from_signed :: "i64 \<Rightarrow> count" where
  "from_signed s = (if sint s \<le> 0 then Backfilled s else Normal s)"

definition from_unsigned :: "u64 \<Rightarrow> count" where
  "from_unsigned u = from_signed u"

fun into_unsigned :: "count \<Rightarrow> u64" where
  "into_unsigned (Normal i) = i"
| "into_unsigned (Backfilled i) = i"

fun into_signed :: "count \<Rightarrow> i64" where
  "into_signed (Normal i) = i"
| "into_signed (Backfilled i) = i"

fun into_normal :: "count \<Rightarrow> count" where
  "into_normal (Normal i) = Normal i"
| "into_normal (Backfilled _) = Normal 0"

definition count_checked_add :: "count \<Rightarrow> u64 \<Rightarrow> count_error + count" where
  "count_checked_add c add =
     (case c of
        Normal i \<Rightarrow>
          (case u64_checked_add i add of
             None \<Rightarrow> Inl (Arithmetic ''Count::Normal overflow'') | Some r \<Rightarrow> Inr (Normal r))
      | Backfilled i \<Rightarrow>
          (case i64_checked_add i add of
             None \<Rightarrow> Inl (Arithmetic ''Count::Backfilled overflow'') | Some r \<Rightarrow> Inr (Backfilled r)))"

definition count_checked_sub :: "count \<Rightarrow> u64 \<Rightarrow> count_error + count" where
  "count_checked_sub c sub =
     (case c of
        Normal i \<Rightarrow>
          (case u64_checked_sub i sub of
             None \<Rightarrow> Inl (Arithmetic ''Count::Normal underflow'') | Some r \<Rightarrow> Inr (Normal r))
      | Backfilled i \<Rightarrow>
          (case i64_checked_sub i sub of
             None \<Rightarrow> Inl (Arithmetic ''Count::Backfilled underflow'') | Some r \<Rightarrow> Inr (Backfilled r)))"

definition count_checked_inc :: "count \<Rightarrow> direction \<Rightarrow> count_error + count" where
  "count_checked_inc c dir =
     (case dir of Forward \<Rightarrow> count_checked_add c 1 | Backward \<Rightarrow> count_checked_sub c 1)"

definition count_saturating_add :: "count \<Rightarrow> u64 \<Rightarrow> count" where
  "count_saturating_add c add =
     (case c of
        Normal i \<Rightarrow> Normal (min (u64_saturating_add i add) i64_max)
      | Backfilled i \<Rightarrow>
          from_signed (i64_saturating_add i (if unat add < 2 ^ 63 then add else i64_max)))"

definition count_saturating_sub :: "count \<Rightarrow> u64 \<Rightarrow> count" where
  "count_saturating_sub c sub =
     (case c of
        Normal i \<Rightarrow>
          (case u64_checked_sub i sub of
             Some res \<Rightarrow> Normal res
           | None \<Rightarrow> Backfilled (i64_saturating_sub 0 (u64_saturating_sub sub i)))
      | Backfilled i \<Rightarrow> Backfilled (i64_saturating_sub i sub))"

definition count_saturating_inc :: "count \<Rightarrow> direction \<Rightarrow> count" where
  "count_saturating_inc c dir =
     (case dir of Forward \<Rightarrow> count_saturating_add c 1 | Backward \<Rightarrow> count_saturating_sub c 1)"

definition count_min :: count where
  "count_min = Backfilled i64_min"

definition count_max :: count where
  "count_max = Normal i64_max"

definition count_valid :: "count \<Rightarrow> bool" where
  "count_valid c = (case c of Backfilled i \<Rightarrow> sint i \<le> 0 | Normal _ \<Rightarrow> True)"

text \<open>The order of counts compares their signed values.\<close>

definition count_less :: "count \<Rightarrow> count \<Rightarrow> bool" where
  "count_less a b \<longleftrightarrow> sint (into_signed a) < sint (into_signed b)"

definition offset_binary_encoding :: "byte list \<Rightarrow> byte list" where
  "offset_binary_encoding bs = bs[0 := bs ! 0 XOR 0x80]"

fun show_count :: "count \<Rightarrow> string" where
  "show_count (Normal i) = show_nat (unat i)"
| "show_count (Backfilled i) = show_int (sint i)"

definition parse_count :: "string \<Rightarrow> count_error + count" where
  "parse_count s =
     (case parse_i64 s of None \<Rightarrow> Inl ParseInt | Some i \<Rightarrow> Inr (from_signed (word_of_int i)))"

section \<open>Identifiers, keys and tokens\<close>

record pdu_id =
  shortroomid :: u64
  shorteventid :: count

text \<open>A raw identifier is an array of sixteen bytes; a slice of another length is a panic.\<close>

definition raw_id_of_slice :: "byte list \<Rightarrow> byte list option" where
  "raw_id_of_slice bs = (if length bs = 16 then Some bs else None)"

definition raw_of_id :: "pdu_id \<Rightarrow> byte list" where
  "raw_of_id i = u64_to_be_bytes (shortroomid i) @
     offset_binary_encoding (u64_to_be_bytes (into_signed (shorteventid i)))"

definition id_of_raw :: "byte list \<Rightarrow> pdu_id" where
  "id_of_raw raw =
     \<lparr>shortroomid = u64_from_be_bytes (take 8 raw),
      shorteventid = from_signed (u64_from_be_bytes (offset_binary_encoding (take 8 (drop 8 raw))))\<rparr>"

definition raw_pdu_count :: "byte list \<Rightarrow> count" where
  "raw_pdu_count raw = shorteventid (id_of_raw raw)"

record timeline_key =
  tk_depth :: u64
  tk_stream_ordering :: i64

definition timeline_key_to_be_bytes :: "timeline_key \<Rightarrow> byte list" where
  "timeline_key_to_be_bytes k =
     u64_to_be_bytes (tk_depth k) @ u64_to_be_bytes (tk_stream_ordering k XOR 0x8000000000000000)"

definition timeline_key_from_bytes :: "byte list \<Rightarrow> timeline_key" where
  "timeline_key_from_bytes bs =
     \<lparr>tk_depth = u64_from_be_bytes (take 8 bs),
      tk_stream_ordering = u64_from_be_bytes (take 8 (drop 8 bs)) XOR 0x8000000000000000\<rparr>"

definition timeline_key_try_from :: "byte list \<Rightarrow> timeline_key option" where
  "timeline_key_try_from bs = (if length bs = 16 then Some (timeline_key_from_bytes bs) else None)"

record topo_token =
  tt_depth :: u64
  tt_pdu_count :: count

definition topo_is_legacy :: "topo_token \<Rightarrow> bool" where
  "topo_is_legacy t \<longleftrightarrow> tt_depth t = 0 \<and> tt_pdu_count t \<noteq> count_min"

definition topo_max :: topo_token where
  "topo_max = \<lparr>tt_depth = - 1, tt_pdu_count = count_max\<rparr>"

definition topo_min :: topo_token where
  "topo_min = \<lparr>tt_depth = 0, tt_pdu_count = count_min\<rparr>"

definition show_topo :: "topo_token \<Rightarrow> string" where
  "show_topo t = ''t'' @ show_nat (unat (tt_depth t)) @ ''_'' @ show_count (tt_pdu_count t)"

definition parse_topo_legacy :: "string \<Rightarrow> count_error + topo_token" where
  "parse_topo_legacy s =
     try_res (parse_count s) (\<lambda>c. Inr \<lparr>tt_depth = 0, tt_pdu_count = c\<rparr>)"

definition parse_topo :: "string \<Rightarrow> count_error + topo_token" where
  "parse_topo s =
     (case s of
        [] \<Rightarrow> parse_topo_legacy s
      | ch # rest \<Rightarrow>
          if ch \<noteq> CHR ''t'' then parse_topo_legacy s
          else
            (case split_once (CHR ''_'') rest of
               None \<Rightarrow> parse_topo_legacy s
             | Some (depth_str, count_str) \<Rightarrow>
                 (case parse_u64 depth_str of
                    None \<Rightarrow> Inl (InvalidParam ''Invalid topo depth'')
                  | Some depth \<Rightarrow>
                      try_res (parse_count count_str) (\<lambda>c.
                      Inr \<lparr>tt_depth = word_of_nat depth, tt_pdu_count = c\<rparr>))))"

section \<open>Encodings\<close>

lemma offset_binary_u64:
  "offset_binary_encoding (u64_to_be_bytes w) = u64_to_be_bytes (w XOR 0x8000000000000000)"
proof -
  obtain b bs where "u64_to_be_bytes w = b # bs" using length_u64_to_be_bytes [of w] by (cases "u64_to_be_bytes w") auto
  with flip_first_byte [OF this] show ?thesis by (simp add: offset_binary_encoding_def)
qed

lemma raw_of_id_words:
  "raw_of_id i = u64_to_be_bytes (shortroomid i) @
     u64_to_be_bytes (into_signed (shorteventid i) XOR 0x8000000000000000)"
  by (simp add: raw_of_id_def offset_binary_u64)

text \<open>A count in the form in which counts come out of the database.\<close>

definition count_canonical :: "count \<Rightarrow> bool" where
  "count_canonical c \<longleftrightarrow> (case c of Normal i \<Rightarrow> 0 < sint i | Backfilled i \<Rightarrow> sint i \<le> 0)"

lemma from_into_signed: "from_signed (into_signed c) = c \<longleftrightarrow> count_canonical c"
  by (cases c) (auto simp: from_signed_def count_canonical_def)

lemma raw_id_inverse:
  assumes raw: "length raw = 16"
  shows "raw_of_id (id_of_raw raw) = raw"
proof -
  let ?e = "take 8 (drop 8 raw)"
  have into: "into_signed (from_signed w) = w" for w by (simp add: from_signed_def)
  have len: "length (take 8 raw) = 8" "length ?e = 8" using raw by simp_all
  note fromto = u64_to_be_from_be [OF len(1)] u64_to_be_from_be [OF len(2)]
  have enc: "offset_binary_encoding ?e = u64_to_be_bytes (u64_from_be_bytes ?e XOR 0x8000000000000000)"
    using offset_binary_u64 [of "u64_from_be_bytes ?e"] unfolding fromto .
  have "raw_of_id (id_of_raw raw) = take 8 raw @ ?e"
    unfolding raw_of_id_words id_of_raw_def enc by (simp add: into fromto)
  also have "\<dots> = raw" using append_take_drop_id [of 8 raw] raw by simp
  finally show ?thesis .
qed

text \<open>
  C30: The sixteen-byte database key of an event gives back the identifier it was made of, exactly for
  the counts that are canonical (a live count is positive, a backfilled one is not); every key of
  sixteen bytes is the key of the identifier it is read as; and the database iterates a room in timeline
  order: the byte order of the keys is the order of the room numbers and, within a room, of the
  counts, backfilled events before live ones.
\<close>
theorem raw_id_roundtrip_and_order:
  "(id_of_raw (raw_of_id a) = a \<longleftrightarrow> count_canonical (shorteventid a)) \<and>
   (length raw = 16 \<longrightarrow> raw_of_id (id_of_raw raw) = raw) \<and>
   (bytes_less (raw_of_id a) (raw_of_id b) \<longleftrightarrow>
     shortroomid a < shortroomid b \<or>
     shortroomid a = shortroomid b \<and> count_less (shorteventid a) (shorteventid b))"
proof (intro conjI impI)
  have "id_of_raw (raw_of_id a) = \<lparr>shortroomid = shortroomid a,
      shorteventid = from_signed (into_signed (shorteventid a))\<rparr>"
    by (simp add: id_of_raw_def raw_of_id_words offset_binary_u64)
  then show "id_of_raw (raw_of_id a) = a \<longleftrightarrow> count_canonical (shorteventid a)"
    by (cases a) (simp add: from_into_signed)
  show "bytes_less (raw_of_id a) (raw_of_id b) \<longleftrightarrow>
     shortroomid a < shortroomid b \<or>
     shortroomid a = shortroomid b \<and> count_less (shorteventid a) (shorteventid b)"
    unfolding raw_of_id_words count_less_def
    by (simp add: bytes_less_append bytes_less_u64 flip_sign_less)
qed (rule raw_id_inverse)

text \<open>
  Timeline keys survive the database and sort by depth and then by the signed stream
  ordering.
\<close>
lemma timeline_key_encoding:
  "timeline_key_try_from (timeline_key_to_be_bytes k) = Some k \<and>
   (bytes_less (timeline_key_to_be_bytes k) (timeline_key_to_be_bytes k') \<longleftrightarrow>
      tk_depth k < tk_depth k' \<or>
      tk_depth k = tk_depth k' \<and> sint (tk_stream_ordering k) < sint (tk_stream_ordering k'))"
  by (simp add: timeline_key_try_from_def timeline_key_from_bytes_def timeline_key_to_be_bytes_def
      bytes_less_append bytes_less_u64 flip_sign_less)

section \<open>Tokens\<close>

lemma in_i64_sint [simp]: "in_i64 (sint (w :: i64))"
  using sint_ge [of w] sint_lt [of w] by (simp add: in_i64_def)

lemma unat_sint_pos: "0 \<le> sint (w :: i64) \<Longrightarrow> int (unat w) = sint w"
  using sint_lt [of w] uint_sint [of w] by (simp add: take_bit_eq_mod)

lemma parse_sint: "parse_i64 (show_int (sint (w :: i64))) = Some (sint w)"
  using in_i64_sint [of w] unfolding in_i64_def by (intro parse_i64_show_int) blast+

lemma parse_show_count: "count_canonical c \<Longrightarrow> parse_count (show_count c) = Inr c"
proof (cases c)
  case (Normal i)
  assume "count_canonical c"
  with Normal have pos: "0 < sint i" by (simp add: count_canonical_def)
  then have "nat (sint i) = unat i" using unat_sint_pos [of i] by (metis less_imp_le nat_int)
  with pos have "show_nat (unat i) = show_int (sint i)" by (simp add: show_int_def)
  moreover have "parse_i64 (show_int (sint i)) = Some (sint i)" by (rule parse_sint)
  ultimately show ?thesis using Normal pos by (simp add: parse_count_def from_signed_def)
next
  case (Backfilled i)
  assume "count_canonical c"
  with Backfilled show ?thesis
    by (simp add: parse_count_def parse_sint from_signed_def count_canonical_def)
qed

text \<open>
  A pagination token that was given to a client as text is parsed back into the same token.
\<close>
lemma topo_token_roundtrip:
  assumes "count_canonical (tt_pdu_count t)"
  shows "parse_topo (show_topo t) = Inr t"
proof -
  have "CHR ''_'' \<notin> set (show_nat (unat (tt_depth t)))"
    using show_nat_digits signs_not_dec by blast
  then have "split_once (CHR ''_'') (show_nat (unat (tt_depth t)) @ CHR ''_'' # show_count (tt_pdu_count t)) =
      Some (show_nat (unat (tt_depth t)), show_count (tt_pdu_count t))" by (rule split_once_append)
  moreover have "unat (tt_depth t) < 2 ^ 64" using unsigned_less [of "tt_depth t", where 'a = nat] by simp
  note parse_u64_show_nat [OF this]
  ultimately show ?thesis
    using parse_show_count [OF assms] by (simp add: parse_topo_def show_topo_def)
qed

theorem raw_id_roundtrip_and_order_witness:
  "id_of_raw (raw_of_id \<lparr>shortroomid = 42, shorteventid = Backfilled (- 100)\<rparr>) =
     \<lparr>shortroomid = 42, shorteventid = Backfilled (- 100)\<rparr> \<and>
   raw_of_id (id_of_raw (replicate 16 7)) = replicate 16 7"
  using raw_id_roundtrip_and_order [of "\<lparr>shortroomid = 42, shorteventid = Backfilled (- 100)\<rparr>" "replicate 16 7"]
  by (simp add: count_canonical_def)

theorem topo_token_roundtrip_witness:
  "parse_topo (show_topo \<lparr>tt_depth = 12, tt_pdu_count = Normal 34\<rparr>) =
     Inr \<lparr>tt_depth = 12, tt_pdu_count = Normal 34\<rparr>"
  by (rule topo_token_roundtrip) (simp add: count_canonical_def)

section \<open>Arithmetic\<close>

text \<open>Counts whose signed value is the number they stand for.\<close>

definition count_in_range :: "count \<Rightarrow> bool" where
  "count_in_range c \<longleftrightarrow> (case c of Normal i \<Rightarrow> 0 \<le> sint i | Backfilled i \<Rightarrow> sint i \<le> 0)"

abbreviation count_value :: "count \<Rightarrow> int" where
  "count_value c \<equiv> sint (into_signed c)"

lemma sint_i64_clamp: "sint (i64_clamp i) = max (- (2 ^ 63)) (min (2 ^ 63 - 1) i)"
proof -
  let ?k = "max (- (2 ^ 63)) (min (2 ^ 63 - 1) i) :: int"
  have "sint (word_of_int k :: i64) = signed_take_bit 63 k" for k by (simp add: sint_sbintrunc')
  moreover have "signed_take_bit 63 ?k = ?k"
    by (rule signed_take_bit_int_eq_self) auto
  ultimately show ?thesis by (simp only: i64_clamp_def)
qed

lemma sint_max_min [simp]: "sint i64_max = 2 ^ 63 - 1" "sint i64_min = - (2 ^ 63)"
  by (simp_all add: i64_max_def i64_min_def)

lemma sint_uint_if: "sint (w :: i64) = (if uint w < 2 ^ 63 then uint w else uint w - 2 ^ 64)"
proof -
  have "sint w + 2 ^ 63 = (uint w + 2 ^ 63) mod 2 ^ 64"
    using uint_flip_sign [of w] by (simp add: uint_word_ariths)
  moreover have "0 \<le> uint w" "uint w < 2 ^ 64" using uint_bounded [of w] by simp_all
  moreover have "(u + 2 ^ 63) mod 2 ^ 64 = (if u < 2 ^ 63 then u + 2 ^ 63 else u - 2 ^ 63)"
    if "0 \<le> u" "u < 2 ^ 64" for u :: int
  proof (cases "u < 2 ^ 63")
    case False
    have "(u + 2 ^ 63) mod 2 ^ 64 = (u - 2 ^ 63 + 2 ^ 64) mod 2 ^ 64" by (simp add: algebra_simps)
    also have "\<dots> = u - 2 ^ 63" unfolding mod_add_self2
      using False that by (intro mod_pos_pos_trivial) simp_all
    finally show ?thesis using False by simp
  qed (use that in \<open>simp add: mod_pos_pos_trivial\<close>)
  ultimately show ?thesis by (simp split: if_splits)
qed

lemma uint_unat_less:
  assumes "uint (w :: u64) < 2 ^ 63"
  shows "unat w < 2 ^ 63"
proof -
  have "int (unat w) < int (2 ^ 63)" using assms by (simp only: of_nat_unat of_nat_power of_nat_numeral)
  then show ?thesis by (simp only: of_nat_less_iff)
qed

lemma sint_sub:
  assumes "b \<le> a" and "uint (a :: i64) < 2 ^ 63"
  shows "sint (a - b) = uint a - uint b"
proof -
  have "uint (a - b) = uint a - uint b" using assms(1) by (simp add: uint_sub_lem [THEN iffD1] word_le_def)
  moreover have "uint a - uint b < 2 ^ 63" using assms(2) uint_ge_0 [of b] by linarith
  ultimately show ?thesis by (simp only: sint_uint_if if_True)
qed

definition saturates_at :: "count \<Rightarrow> u64 \<Rightarrow> bool" where
  "saturates_at c n \<longleftrightarrow>
    count_in_range (count_saturating_add c n) \<and>
    count_value (count_saturating_add c n) = min (2 ^ 63 - 1) (count_value c + uint n) \<and>
    count_in_range (count_saturating_sub c n) \<and>
    count_value (count_saturating_sub c n) = max (- (2 ^ 63)) (count_value c - uint n)"

lemma saturating_add_normal:
  assumes i: "uint i < 2 ^ 63" and n: "uint n < 2 ^ 63"
  shows "count_in_range (count_saturating_add (Normal i) n)"
    and "count_value (count_saturating_add (Normal i) n) = min (2 ^ 63 - 1) (uint i + uint n)"
proof -
  have sum: "uint (i + n) = uint i + uint n" using assms by (simp add: uint_word_ariths)
  have "uint (min (i + n) i64_max) = min (uint i + uint n) (2 ^ 63 - 1)"
    by (simp add: min_def word_le_def sum i64_max_def)
  moreover from this have "uint (min (i + n) i64_max) < 2 ^ 63" by simp
  ultimately have "sint (min (i + n) i64_max) = min (uint i + uint n) (2 ^ 63 - 1)"
    by (simp only: sint_uint_if if_True)
  moreover have "unat i < 2 ^ 63" "unat n < 2 ^ 63" by (rule uint_unat_less, fact)+
  then have "count_saturating_add (Normal i) n = Normal (min (i + n) i64_max)"
    by (simp add: count_saturating_add_def u64_saturating_add_def)
  ultimately show "count_in_range (count_saturating_add (Normal i) n)"
    "count_value (count_saturating_add (Normal i) n) = min (2 ^ 63 - 1) (uint i + uint n)"
    by (simp_all add: count_in_range_def min.commute)
qed

lemma saturating_sub_normal:
  assumes i: "uint i < 2 ^ 63" and n: "uint n < 2 ^ 63"
  shows "count_in_range (count_saturating_sub (Normal i) n)"
    and "count_value (count_saturating_sub (Normal i) n) = max (- (2 ^ 63)) (uint i - uint n)"
proof -
  have "count_in_range (count_saturating_sub (Normal i) n) \<and>
      count_value (count_saturating_sub (Normal i) n) = max (- (2 ^ 63)) (uint i - uint n)"
  proof (cases "n \<le> i")
    case True
    then have "count_saturating_sub (Normal i) n = Normal (i - n)"
      by (simp add: count_saturating_sub_def u64_checked_sub_def)
    moreover have "sint (i - n) = uint i - uint n" using True i by (rule sint_sub)
    ultimately show ?thesis using True by (simp add: count_in_range_def word_le_def)
  next
    case False
    then have le: "i \<le> n" by simp
    then have "sint (n - i) = uint n - uint i" using n by (rule sint_sub)
    moreover have "count_saturating_sub (Normal i) n = Backfilled (i64_clamp (- sint (n - i)))"
      using False le by (simp add: count_saturating_sub_def u64_checked_sub_def
          u64_saturating_sub_def i64_saturating_sub_def)
    ultimately show ?thesis using le by (simp add: count_in_range_def word_le_def sint_i64_clamp)
  qed
  then show "count_in_range (count_saturating_sub (Normal i) n)"
    "count_value (count_saturating_sub (Normal i) n) = max (- (2 ^ 63)) (uint i - uint n)" by blast+
qed

lemma saturates_backfilled:
  assumes i: "sint i \<le> 0" and n: "uint n < 2 ^ 63"
  shows "saturates_at (Backfilled i) n"
proof -
  define k where "k = uint n"
  have k: "sint n = k" "0 \<le> k" "k < 2 ^ 63" using n by (simp_all add: k_def sint_uint_if)
  have "unat n < 2 ^ 63" using n by (rule uint_unat_less)
  then have "count_saturating_add (Backfilled i) n = from_signed (i64_clamp (sint i + k))"
    "count_saturating_sub (Backfilled i) n = Backfilled (i64_clamp (sint i - k))"
    using k(1) by (simp_all add: count_saturating_add_def count_saturating_sub_def
        i64_saturating_add_def i64_saturating_sub_def)
  moreover have "- (2 ^ 63) \<le> sint i" using sint_ge [of i] by simp
  ultimately show ?thesis unfolding saturates_at_def k_def [symmetric] using i k(2,3)
    by (auto simp: from_signed_def sint_i64_clamp count_in_range_def)
qed



text \<open>
  Outside these bounds the operations leave the representation: one checked step forward
  from the newest backfilled position is a backfilled count of one, which the debug assertion
  forbids and which is not equal to the live count one; and a saturating subtraction of more
  than \<open>2\<^sup>6\<^sup>3\<close> goes up instead of down, because the subtrahend is cast to a signed integer.
\<close>
lemma count_arithmetic_escapes:
  "count_checked_inc (Backfilled 0) Forward = Inr (Backfilled 1) \<and> \<not> count_valid (Backfilled 1) \<and>
   count_less (Normal 0) (count_saturating_sub (Normal 0) 0x8000000000000001) \<and>
   \<not> count_valid (count_saturating_sub (Normal 0) 0x8000000000000001)"
  by (simp add: count_checked_inc_def count_checked_add_def i64_checked_add_def in_i64_def count_valid_def
      count_less_def count_saturating_sub_def u64_checked_sub_def u64_saturating_sub_def
      i64_saturating_sub_def sint_i64_clamp)

end
