(* ===== verification/Timeline_Order.thy ===== *)
theory Timeline_Order
  imports Kahn Event_Model Pdu_Count
begin

text \<open>
  The two orders in which the server presents events of a room: \<^verbatim>\<open>sort_topologically\<close>
  (\<^verbatim>\<open>core/matrix/dag.rs\<close>), a second implementation of Kahn's algorithm over ordered maps, and
  \<^verbatim>\<open>sort_timeline_events\<close> (\<^verbatim>\<open>core/utils/timeline_sorter.rs\<close>), which calls the first one. The
  loops of \<^verbatim>\<open>sort_topologically\<close> are modelled with their maps and set; degrees are natural
  numbers, since they are bounded by the number of edges in memory. The lemmas show that the
  loops refine the same abstract runs as \<open>kahn_sort\<close>, so that the two implementations agree.
\<close>

section \<open>Ordered maps\<close>

text \<open>A \<^verbatim>\<open>BTreeMap\<close> is its entries in the order of the keys.\<close>

fun btm_put :: "'k::linorder \<Rightarrow> 'v \<Rightarrow> ('k \<times> 'v) list \<Rightarrow> ('k \<times> 'v) list" where
  "btm_put k v [] = [(k, v)]"
| "btm_put k v ((k', v') # m) =
     (if k < k' then (k, v) # (k', v') # m
      else if k = k' then (k, v) # m
      else (k', v') # btm_put k v m)"

definition btm_entry :: "'k::linorder \<Rightarrow> 'v \<Rightarrow> ('v \<Rightarrow> 'v) \<Rightarrow> ('k \<times> 'v) list \<Rightarrow> ('k \<times> 'v) list" where
  "btm_entry k v f m = btm_put k (case map_of m k of None \<Rightarrow> v | Some x \<Rightarrow> f x) m"

definition btm_inv :: "('k::linorder \<times> 'v) list \<Rightarrow> bool" where
  "btm_inv m \<longleftrightarrow> sorted (map fst m) \<and> distinct (map fst m)"

lemma map_of_btm_put: "map_of (btm_put k v m) = (map_of m)(k \<mapsto> v)"
  by (induction k v m rule: btm_put.induct) auto

lemma keys_btm_put: "fst ` set (btm_put k v m) = insert k (fst ` set m)"
  by (induction k v m rule: btm_put.induct) auto

lemma btm_inv_put: "btm_inv m \<Longrightarrow> btm_inv (btm_put k v m)"
proof (induction k v m rule: btm_put.induct)
  case (2 k v k' v' m)
  then have IH: "\<not> k < k' \<Longrightarrow> k \<noteq> k' \<Longrightarrow> btm_inv (btm_put k v m)" by (simp add: btm_inv_def)
  show ?case
  proof (cases "k \<le> k'")
    case True
    with "2.prems" show ?thesis by (fastforce simp: btm_inv_def)
  next
    case False
    with IH have "btm_inv (btm_put k v m)" by auto
    with "2.prems" False show ?thesis by (auto simp: btm_inv_def keys_btm_put)
  qed
qed (simp add: btm_inv_def)

interpretation btm: hash_map map_of btm_put btm_entry btm_inv
  by unfold_locales (auto simp: map_of_btm_put btm_inv_put btm_entry_def)

section \<open>The sort of \<^verbatim>\<open>core/matrix/dag.rs\<close>\<close>

text \<open>The first loop: every event, and an in-degree of zero, under its identifier.\<close>

fun dag_collect ::
  "event list \<Rightarrow> (event_id \<times> nat) list \<times> (event_id \<times> event) list
     \<Rightarrow> (event_id \<times> nat) list \<times> (event_id \<times> event) list" where
  "dag_collect [] st = st"
| "dag_collect (e # es) (deg, evs) = dag_collect es (btm_put (ev_id e) 0 deg, btm_put (ev_id e) e evs)"

text \<open>The second loop: an edge for every predecessor inside the batch.\<close>

fun dag_edges ::
  "(event_id \<times> event) list \<Rightarrow> event_id \<Rightarrow> event_id list
     \<Rightarrow> (event_id \<times> event_id list) list \<times> (event_id \<times> nat) list
     \<Rightarrow> (event_id \<times> event_id list) list \<times> (event_id \<times> nat) list" where
  "dag_edges evs i [] st = st"
| "dag_edges evs i (p # ps) (adj, deg) =
     (if map_of evs p \<noteq> None
      then dag_edges evs i ps (btm_entry p [i] (\<lambda>xs. xs @ [i]) adj, btm_entry i 1 Suc deg)
      else dag_edges evs i ps (adj, deg))"

definition dag_graph ::
  "(event_id \<times> event) list \<Rightarrow> (event_id \<times> nat) list
     \<Rightarrow> (event_id \<times> event_id list) list \<times> (event_id \<times> nat) list" where
  "dag_graph evs deg = fold (\<lambda>(i, e). dag_edges evs i (ev_prev e)) evs ([], deg)"

text \<open>The set of events without a predecessor, by timestamp and identifier.\<close>

definition dag_insert ::
  "(event_id \<times> event) list \<Rightarrow> event_id \<Rightarrow> (nat \<times> event_id) list \<Rightarrow> (nat \<times> event_id) list" where
  "dag_insert evs i zero =
     (case map_of evs i of Some e \<Rightarrow> btree_insert (ev_ts e, i) zero | None \<Rightarrow> zero)"

definition dag_zero ::
  "(event_id \<times> event) list \<Rightarrow> (event_id \<times> nat) list \<Rightarrow> (nat \<times> event_id) list" where
  "dag_zero evs deg = fold (\<lambda>(i, d) zero. if d = 0 then dag_insert evs i zero else zero) deg []"

fun dag_relax ::
  "(event_id \<times> event) list \<Rightarrow> event_id list \<Rightarrow> (event_id \<times> nat) list \<times> (nat \<times> event_id) list
     \<Rightarrow> (event_id \<times> nat) list \<times> (nat \<times> event_id) list" where
  "dag_relax evs [] st = st"
| "dag_relax evs (n # ns) (deg, zero) =
     (case map_of deg n of
        None \<Rightarrow> dag_relax evs ns (deg, zero)
      | Some d \<Rightarrow>
          dag_relax evs ns
            (btm_put n (d - 1) deg, if d - 1 = 0 then dag_insert evs n zero else zero))"

text \<open>The set of pending entries only gains entries of events that are still in the batch.\<close>

lemma dag_insert_stale:
  "filter (\<lambda>x. snd x \<notin> fst ` set evs) (dag_insert evs i zero) =
     filter (\<lambda>x. snd x \<notin> fst ` set evs) zero"
proof (cases "map_of evs i")
  case (Some e)
  then have "i \<in> fst ` set evs" using map_of_SomeD [OF Some] by force
  then show ?thesis by (auto simp: dag_insert_def Some btree_insert_def filter_insort_triv)
qed (simp add: dag_insert_def)

lemma dag_relax_stale:
  "filter (\<lambda>x. snd x \<notin> fst ` set evs) (snd (dag_relax evs ns (deg, zero))) =
     filter (\<lambda>x. snd x \<notin> fst ` set evs) zero"
  by (induction ns arbitrary: deg zero) (auto simp: dag_insert_stale split: option.splits)

definition dag_neighbours ::
  "(event_id \<times> event) list \<Rightarrow> (event_id \<times> event_id list) list \<Rightarrow> event_id
     \<Rightarrow> (event_id \<times> nat) list \<times> (nat \<times> event_id) list
     \<Rightarrow> (event_id \<times> nat) list \<times> (nat \<times> event_id) list" where
  "dag_neighbours evs adj i st = (case map_of adj i of Some ns \<Rightarrow> dag_relax evs ns st | None \<Rightarrow> st)"

function dag_drain ::
  "(event_id \<times> event_id list) list \<Rightarrow> (event_id \<times> event) list \<Rightarrow> (event_id \<times> nat) list
     \<Rightarrow> (nat \<times> event_id) list \<Rightarrow> event list \<Rightarrow> event list \<times> (event_id \<times> event) list" where
  "dag_drain adj evs deg zero out =
     (case heap_pop zero of
        None \<Rightarrow> (out, evs)
      | Some (first, zero') \<Rightarrow>
          (let i = snd first;
               out' = (case map_of evs i of Some e \<Rightarrow> out @ [e] | None \<Rightarrow> out);
               evs' = AList.delete i evs;
               st = dag_neighbours evs' adj i (deg, zero')
           in dag_drain adj evs' (fst st) (snd st) out'))"
  by pat_completeness auto
termination
proof (relation "measures [\<lambda>(adj, evs, deg, zero, out). length evs,
    \<lambda>(adj, evs, deg, zero, out). length (filter (\<lambda>x. snd x \<notin> fst ` set evs) zero)]")
  fix adj :: "(event_id \<times> event_id list) list" and evs :: "(event_id \<times> event) list"
    and deg zero out pop first zero' i out' evs' st
  assume pop: "heap_pop zero = Some pop" "(first, zero') = pop" and i: "i = snd first"
    and evs': "evs' = AList.delete i evs" and st: "st = dag_neighbours evs' adj i (deg, zero')"
  have zero: "zero = first # zero'" using pop by (auto simp: heap_pop_def split: list.splits)
  show "((adj, evs', fst st, snd st, out'), adj, evs, deg, zero, out) \<in>
    measures [\<lambda>(adj, evs, deg, zero, out). length evs,
      \<lambda>(adj, evs, deg, zero, out). length (filter (\<lambda>x. snd x \<notin> fst ` set evs) zero)]"
  proof (cases "i \<in> fst ` set evs")
    case True
    then obtain e where "(i, e) \<in> set evs" by force
    then have "length evs' < length evs" unfolding evs' AList.delete_eq
      by (intro length_filter_less [of "(i, e)"]) auto
    then show ?thesis by simp
  next
    case False
    then have "evs' = evs" by (auto simp: evs' AList.delete_eq filter_id_conv image_iff)
    moreover from this have "filter (\<lambda>x. snd x \<notin> fst ` set evs) (snd st) =
        filter (\<lambda>x. snd x \<notin> fst ` set evs) zero'"
      using st by (simp add: dag_neighbours_def dag_relax_stale split: option.splits)
    ultimately show ?thesis using False by (simp add: zero i)
  qed
qed auto

declare dag_drain.simps [simp del]

definition sort_topologically :: "event list \<Rightarrow> event list" where
  "sort_topologically events =
     (let (in_degree, events_by_id) = dag_collect events ([], []);
          (adjacency_list, degrees) = dag_graph events_by_id in_degree;
          (sorted_events, remaining) =
            dag_drain adjacency_list events_by_id degrees (dag_zero events_by_id degrees) []
      in sorted_events @ sort_key (\<lambda>e. (ev_ts e, ev_id e)) (map snd remaining))"

section \<open>The sort of \<^verbatim>\<open>core/utils/timeline_sorter.rs\<close>\<close>

definition timeline_node ::
  "(event_id \<times> (count \<times> nat \<times> nat)) list \<Rightarrow> (event_id \<times> event_id list) list \<Rightarrow> event_id
     \<Rightarrow> event_id \<times> event_id list \<times> (nat \<times> nat \<times> event_id)" where
  "timeline_node entries graph i =
     (let parents = (case map_of graph i of Some ps \<Rightarrow> ps | None \<Rightarrow> []);
          (depth, ts) = (case map_of entries i of Some (_, d, t) \<Rightarrow> (d, t) | None \<Rightarrow> (0, 0))
      in (i, parents, (ts, depth, i)))"

definition sort_timeline_events ::
  "(event_id \<times> (count \<times> nat \<times> nat)) list \<Rightarrow> (event_id \<times> event_id list) list \<Rightarrow> event_id list" where
  "sort_timeline_events entries graph =
     kahn_sort (map (timeline_node entries graph) (map fst entries))"

section \<open>The tables\<close>

definition adj_of :: "(event_id \<times> event_id list) list \<Rightarrow> event_id \<Rightarrow> event_id list" where
  "adj_of adj q = (case map_of adj q of None \<Rightarrow> [] | Some cs \<Rightarrow> cs)"

abbreviation batch :: "(event_id \<rightharpoonup> event) \<Rightarrow> event_id list \<Rightarrow> event_id list" where
  "batch M ps \<equiv> filter (\<lambda>p. M p \<noteq> None) ps"

lemma dag_collect_folds:
  "dag_collect es (deg, evs) =
     (fold (\<lambda>(k, v). btm_put k v) (map (\<lambda>e. (ev_id e, 0)) es) deg,
      fold (\<lambda>(k, v). btm_put k v) (map (\<lambda>e. (ev_id e, e)) es) evs)"
  by (induction es arbitrary: deg evs) auto

lemma adj_of_entry:
  "adj_of (btm_entry p [i] (\<lambda>xs. xs @ [i]) adj) q = adj_of adj q @ (if q = p then [i] else [])"
  by (auto simp: adj_of_def btm.get_entry split: option.splits)

lemma dag_edges_spec:
  "dag_edges evs i ps (adj, deg) = (adj', deg') \<Longrightarrow> map_of deg i = Some d \<Longrightarrow>
     map_of deg' = (map_of deg)(i \<mapsto> d + length (batch (map_of evs) ps)) \<and>
     (\<forall>q c. count_list (adj_of adj' q) c =
        count_list (adj_of adj q) c + (if c = i then count_list (batch (map_of evs) ps) q else 0))"
proof (induction ps arbitrary: adj deg d)
  case Nil
  then show ?case by (auto simp: fun_upd_idem)
next
  case (Cons p ps)
  show ?case
  proof (cases "map_of evs p = None")
    case True
    with Cons show ?thesis by simp
  next
    case False
    let ?adj = "btm_entry p [i] (\<lambda>xs. xs @ [i]) adj" and ?deg = "btm_entry i 1 Suc deg"
    have "dag_edges evs i ps (?adj, ?deg) = (adj', deg')" using Cons.prems(1) False by simp
    moreover have deg: "map_of ?deg = (map_of deg)(i \<mapsto> Suc d)"
      using Cons.prems(2) by (simp add: btm.get_entry)
    ultimately have "map_of deg' = (map_of ?deg)(i \<mapsto> Suc d + length (batch (map_of evs) ps)) \<and>
     (\<forall>q c. count_list (adj_of adj' q) c =
        count_list (adj_of ?adj q) c + (if c = i then count_list (batch (map_of evs) ps) q else 0))"
      by (intro Cons.IH) auto
    then show ?thesis using False Cons.prems(2) by (simp add: btm.get_entry adj_of_entry)
  qed
qed

lemma dag_fold_spec:
  assumes "distinct (map fst es)" and "\<And>i. i \<in> fst ` set es \<Longrightarrow> map_of deg i \<noteq> None"
    and "fold (\<lambda>(i, e). dag_edges evs i (ev_prev e)) es (adj, deg) = (adj', deg')"
  shows "(\<forall>c. map_of deg' c = (case map_of es c of None \<Rightarrow> map_of deg c
        | Some e \<Rightarrow> map_option (\<lambda>d. d + length (batch (map_of evs) (ev_prev e))) (map_of deg c))) \<and>
    (\<forall>q c. count_list (adj_of adj' q) c = count_list (adj_of adj q) c +
        (case map_of es c of None \<Rightarrow> 0 | Some e \<Rightarrow> count_list (batch (map_of evs) (ev_prev e)) q))"
  using assms
proof (induction es arbitrary: adj deg)
  case (Cons x es)
  obtain i e where x: "x = (i, e)" by (cases x)
  obtain adj1 deg1 where step: "dag_edges evs i (ev_prev e) (adj, deg) = (adj1, deg1)" by fastforce
  obtain d where d: "map_of deg i = Some d" using Cons.prems(2) [of i] x by auto
  note one = dag_edges_spec [OF step d]
  have "fold (\<lambda>(i, e). dag_edges evs i (ev_prev e)) es (adj1, deg1) = (adj', deg')"
    using Cons.prems(3) x step by simp
  moreover have "map_of deg1 j \<noteq> None" if "j \<in> fst ` set es" for j
    using Cons.prems(2) [of j] that one by auto
  ultimately have two: "(\<forall>c. map_of deg' c = (case map_of es c of None \<Rightarrow> map_of deg1 c
        | Some e \<Rightarrow> map_option (\<lambda>d. d + length (batch (map_of evs) (ev_prev e))) (map_of deg1 c))) \<and>
    (\<forall>q c. count_list (adj_of adj' q) c = count_list (adj_of adj1 q) c +
        (case map_of es c of None \<Rightarrow> 0 | Some e \<Rightarrow> count_list (batch (map_of evs) (ev_prev e)) q))"
    using Cons.prems(1) by (intro Cons.IH) auto
  have i: "map_of es i = None" using Cons.prems(1) x by (simp add: map_of_eq_None_iff)
  show ?case
  proof (intro conjI allI)
    fix c show "map_of deg' c = (case map_of (x # es) c of None \<Rightarrow> map_of deg c
        | Some e \<Rightarrow> map_option (\<lambda>d. d + length (batch (map_of evs) (ev_prev e))) (map_of deg c))"
      using one two i d by (cases "c = i") (auto simp: x split: option.splits)
    fix q show "count_list (adj_of adj' q) c = count_list (adj_of adj q) c +
        (case map_of (x # es) c of None \<Rightarrow> 0 | Some e \<Rightarrow> count_list (batch (map_of evs) (ev_prev e)) q)"
      using one two i by (cases "c = i") (auto simp: x split: option.splits)
  qed
qed auto

lemma dag_insert_set:
  assumes "sorted zero" and "distinct zero"
  shows "sorted (dag_insert evs i zero)" and "distinct (dag_insert evs i zero)"
    and "set (dag_insert evs i zero) = set zero \<union> {(ev_ts e, i) | e. map_of evs i = Some e}"
  using assms by (auto simp: dag_insert_def btree_insert_def sorted_insort set_insort_key
      distinct_insort split: option.splits)

lemma dag_zero_fold:
  "sorted zero \<Longrightarrow> distinct zero \<Longrightarrow>
   (let z = fold (\<lambda>(i, d) zero. if d = 0 then dag_insert evs i zero else zero) ds zero in
     sorted z \<and> distinct z \<and>
     set z = set zero \<union> {(ev_ts e, i) | i e. (i, 0 :: nat) \<in> set ds \<and> map_of evs i = Some e})"
proof (induction ds arbitrary: zero)
  case (Cons x ds)
  obtain i d where x: "x = (i, d)" by (cases x)
  show ?case
  proof (cases "d = 0")
    case True
    with Cons.IH [of "dag_insert evs i zero"] dag_insert_set [OF Cons.prems] show ?thesis
      by (fastforce simp: Let_def x)
  next
    case False
    with Cons show ?thesis by (auto simp: Let_def x)
  qed
qed simp

lemma dag_relax_new:
  assumes d: "map_of deg n = Some d" "Suc (count_list ns n) \<le> d"
  shows "{(ev_ts e, c) | c e. c \<in> set (n # ns) \<and> map_of evs c = Some e \<and>
        map_of deg c = Some (count_list (n # ns) c)} =
      {(ev_ts e, n) | e. map_of evs n = Some e \<and> d = 1} \<union>
      {(ev_ts e, c) | c e. c \<in> set ns \<and> map_of evs c = Some e \<and> map_of (btm_put n (d - 1) deg) c = Some (count_list ns c)}"
    (is "?new = ?now \<union> ?later")
proof -
  let ?deg = "btm_put n (d - 1) deg"
  have last: "n \<in> set ns" if "d - 1 = count_list ns n" "d \<noteq> 1"
    using that d(2) count_notin [of n ns] by fastforce
  show ?thesis
  proof (intro equalityI subsetI)
    fix x assume "x \<in> ?new"
    then obtain c e where x: "x = (ev_ts e, c)" "c \<in> set (n # ns)" "map_of evs c = Some e"
      "map_of deg c = Some (count_list (n # ns) c)" by blast
    have "c = n \<and> d = 1 \<or> map_of ?deg c = Some (count_list ns c) \<and> c \<in> set ns"
    proof (cases "c = n")
      case True
      with x(4) d(1) have "d - 1 = count_list ns n" by simp
      with True last show ?thesis by (auto simp: map_of_btm_put)
    next
      case False
      with x(2,4) show ?thesis by (simp add: map_of_btm_put)
    qed
    with x(1,3) show "x \<in> ?now \<union> ?later" by blast
  next
    fix x assume "x \<in> ?now \<union> ?later"
    then obtain c e where x: "x = (ev_ts e, c)" "map_of evs c = Some e"
      "c = n \<and> d = 1 \<or> c \<in> set ns \<and> map_of ?deg c = Some (count_list ns c)" by blast
    from x(3) have "c \<in> set (n # ns) \<and> map_of deg c = Some (count_list (n # ns) c)"
    proof
      assume "c = n \<and> d = 1"
      with d show ?thesis by simp
    next
      assume "c \<in> set ns \<and> map_of ?deg c = Some (count_list ns c)"
      with d show ?thesis by (cases "c = n") (simp add: map_of_btm_put, arith, simp add: map_of_btm_put)
    qed
    with x(1,2) show "x \<in> ?new" by blast
  qed
qed

lemma dag_relax_spec:
  assumes "sorted zero" and "distinct zero"
    and "\<And>c. c \<in> set ns \<Longrightarrow> \<exists>d. map_of deg c = Some d \<and> count_list ns c \<le> d"
    and "dag_relax evs ns (deg, zero) = (deg', zero')"
  shows "(\<forall>c. map_of deg' c = map_option (\<lambda>d. d - count_list ns c) (map_of deg c)) \<and>
    sorted zero' \<and> distinct zero' \<and>
    set zero' = set zero \<union> {(ev_ts e, c) | c e. c \<in> set ns \<and> map_of evs c = Some e \<and>
      map_of deg c = Some (count_list ns c)}"
  using assms
proof (induction ns arbitrary: deg zero)
  case Nil
  then show ?case by (auto simp: option.map_ident)
next
  case (Cons n ns)
  from Cons.prems(3) [of n] obtain d where d: "map_of deg n = Some d" "Suc (count_list ns n) \<le> d"
    by auto
  let ?deg = "btm_put n (d - 1) deg" and ?zero = "if d - 1 = 0 then dag_insert evs n zero else zero"
  have deg: "map_of ?deg = (map_of deg)(n \<mapsto> d - 1)" by (rule map_of_btm_put)
  note ins = dag_insert_set [OF Cons.prems(1,2)]
  have "dag_relax evs ns (?deg, ?zero) = (deg', zero')" using Cons.prems(4) d by simp
  moreover have "\<exists>d. map_of ?deg c = Some d \<and> count_list ns c \<le> d" if "c \<in> set ns" for c
    using Cons.prems(3) [of c] that d by (auto simp: map_of_btm_put split: if_splits)
  moreover have "sorted ?zero" "distinct ?zero" using Cons.prems(1,2) ins by auto
  ultimately have IH: "(\<forall>c. map_of deg' c = map_option (\<lambda>d. d - count_list ns c) (map_of ?deg c)) \<and>
    sorted zero' \<and> distinct zero' \<and>
    set zero' = set ?zero \<union> {(ev_ts e, c) | c e. c \<in> set ns \<and> map_of evs c = Some e \<and>
      map_of ?deg c = Some (count_list ns c)}"
    by (intro Cons.IH) blast+
  have zero: "set ?zero = set zero \<union> {(ev_ts e, n) | e. map_of evs n = Some e \<and> d = 1}"
    using ins(3) d(2) by auto
  note new = dag_relax_new [OF d, of evs]
  note deg' = IH [THEN conjunct1, rule_format] and zero' = IH [THEN conjunct2]
  have "map_of deg' c = map_option (\<lambda>d. d - count_list (n # ns) c) (map_of deg c)" for c
    using d(1) unfolding deg' by (simp add: map_of_btm_put)
  moreover have "set zero' = set zero \<union> {(ev_ts e, c) | c e. c \<in> set (n # ns) \<and> map_of evs c = Some e \<and>
      map_of deg c = Some (count_list (n # ns) c)}"
    unfolding new Un_assoc [symmetric] zero [symmetric] by (rule zero' [THEN conjunct2, THEN conjunct2])
  ultimately show ?case using zero' by simp
qed

section \<open>The loop refines the specification\<close>

definition dag_par :: "(event_id \<rightharpoonup> event) \<Rightarrow> event_id \<Rightarrow> event_id set" where
  "dag_par M c = (case M c of Some e \<Rightarrow> set (ev_prev e) | None \<Rightarrow> {})"

definition dag_key :: "(event_id \<rightharpoonup> event) \<Rightarrow> event_id \<Rightarrow> nat \<times> event_id" where
  "dag_key M c = (ev_ts (the (M c)), c)"

definition dag_todo :: "(event_id \<rightharpoonup> event) \<Rightarrow> event_id set \<Rightarrow> event \<Rightarrow> event_id list" where
  "dag_todo M V e = filter (\<lambda>q. M q \<noteq> None \<and> q \<notin> V) (ev_prev e)"

text \<open>
  After the events \<open>V\<close> were emitted: the other events are still in the map, the degrees count
  their outstanding predecessors, and the set holds exactly the ready ones.
\<close>

definition dag_inv ::
  "(event_id \<rightharpoonup> event) \<Rightarrow> (event_id \<times> event_id list) list \<Rightarrow> event_id set
     \<Rightarrow> (event_id \<times> event) list \<Rightarrow> (event_id \<times> nat) list \<Rightarrow> (nat \<times> event_id) list \<Rightarrow> bool" where
  "dag_inv M adj V evs deg zero \<longleftrightarrow>
     map_of evs = M |` (- V) \<and> distinct (map fst evs) \<and>
     (\<forall>c e. M c = Some e \<longrightarrow> map_of deg c = Some (length (dag_todo M V e))) \<and>
     (\<forall>q c. M q \<noteq> None \<longrightarrow> count_list (adj_of adj q) c =
        (case M c of None \<Rightarrow> 0 | Some e \<Rightarrow> count_list (ev_prev e) q)) \<and>
     sorted zero \<and> distinct zero \<and> set zero = dag_key M ` ready (dom M) (dag_par M) V"

lemma length_filter_count:
  "P i \<Longrightarrow> length (filter P xs) = length (filter (\<lambda>q. P q \<and> q \<noteq> i) xs) + count_list xs i"
  by (induction xs) auto

lemma dag_todo_insert:
  assumes "M i \<noteq> None" and "i \<notin> V"
  shows "length (dag_todo M V e) = length (dag_todo M (insert i V) e) + count_list (ev_prev e) i"
proof -
  have "(\<lambda>q. (M q \<noteq> None \<and> q \<notin> V) \<and> q \<noteq> i) = (\<lambda>q. M q \<noteq> None \<and> q \<notin> insert i V)" by auto
  with length_filter_count [of "\<lambda>q. M q \<noteq> None \<and> q \<notin> V" i "ev_prev e"] assms show ?thesis
    by (simp add: dag_todo_def)
qed

lemma ready_todo:
  "c \<in> ready (dom M) (dag_par M) V \<longleftrightarrow> (\<exists>e. M c = Some e \<and> c \<notin> V \<and> dag_todo M V e = [])"
  by (fastforce simp: ready_def dag_par_def dag_todo_def filter_empty_conv dom_def)

lemma dag_neighbours_adj:
  "dag_neighbours evs adj i st = dag_relax evs (adj_of adj i) st"
  by (cases st) (simp add: dag_neighbours_def adj_of_def split: option.splits)

text \<open>Which events become ready when one more is emitted.\<close>

lemma ready_insert:
  assumes "M i \<noteq> None" and "i \<in> ready (dom M) (dag_par M) V"
  shows "ready (dom M) (dag_par M) (insert i V) = ready (dom M) (dag_par M) V - {i} \<union>
    {c. \<exists>e. M c = Some e \<and> c \<notin> insert i V \<and> i \<in> set (ev_prev e) \<and>
       length (dag_todo M V e) = count_list (ev_prev e) i}"
proof -
  from assms have i: "i \<notin> V" by (simp add: ready_def)
  have "c \<in> ready (dom M) (dag_par M) (insert i V) \<longleftrightarrow>
      c \<noteq> i \<and> (c \<in> ready (dom M) (dag_par M) V \<or>
        (\<exists>e. M c = Some e \<and> c \<notin> V \<and> i \<in> set (ev_prev e) \<and>
           length (dag_todo M V e) = count_list (ev_prev e) i))" for c
  proof (cases "M c")
    case (Some e)
    note todo = dag_todo_insert [of M i V e, OF assms(1) i]
    have "dag_todo M (insert i V) e = [] \<longleftrightarrow> length (dag_todo M V e) = count_list (ev_prev e) i"
      using todo by auto
    moreover have "count_list (ev_prev e) i = 0 \<longleftrightarrow> i \<notin> set (ev_prev e)" by (rule count_list_0_iff)
    moreover have "dag_todo M V e = [] \<Longrightarrow> i \<notin> set (ev_prev e)"
      using assms(1) i by (auto simp: dag_todo_def filter_empty_conv)
    ultimately show ?thesis using Some by (auto simp: ready_todo)
  qed (simp add: ready_todo)
  then show ?thesis by auto
qed

lemma dag_key_image:
  "dag_key M ` {c. \<exists>e. M c = Some e \<and> P c e} = {(ev_ts e, c) | c e. M c = Some e \<and> P c e}"
  by (force simp: dag_key_def)

lemma dag_inv_emit:
  assumes inv: "dag_inv M adj V evs deg zero" and pop: "heap_pop zero = Some (first, zero')"
    and i: "i = snd first" and st: "dag_neighbours (AList.delete i evs) adj i (deg, zero') = (deg1, zero1)"
  shows "i \<in> ready (dom M) (dag_par M) V" and "first = dag_key M i"
    and "dag_inv M adj (insert i V) (AList.delete i evs) deg1 zero1"
proof -
  let ?R = "ready (dom M) (dag_par M)"
  have zero: "zero = first # zero'" using pop by (auto simp: heap_pop_def split: list.splits)
  have zs: "sorted zero'" "distinct zero'" "first \<notin> set zero'" "set zero = dag_key M ` ?R V"
    using inv by (auto simp: dag_inv_def zero)
  have "first \<in> dag_key M ` ?R V" using zs(4) zero by auto
  then show ready: "i \<in> ?R V" and first: "first = dag_key M i" by (auto simp: i dag_key_def)
  then obtain e where e: "M i = Some e" and notV: "i \<notin> V" by (auto simp: ready_todo)
  have evs: "map_of (AList.delete i evs) = M |` (- insert i V)"
    using inv by (auto simp: dag_inv_def AList.delete_conv' fun_eq_iff restrict_map_def)
  have adj: "count_list (adj_of adj i) c = (case M c of None \<Rightarrow> 0 | Some e \<Rightarrow> count_list (ev_prev e) i)" for c
    using inv e by (simp add: dag_inv_def)
  have deg: "M c = Some e \<Longrightarrow> map_of deg c = Some (length (dag_todo M V e))" for c e
    using inv by (simp add: dag_inv_def)
  have mem: "c \<in> set (adj_of adj i) \<longleftrightarrow> (\<exists>e. M c = Some e \<and> i \<in> set (ev_prev e))" for c
    using adj [of c] count_list_0_iff [of "adj_of adj i" c] by (auto simp: count_list_0_iff split: option.splits)
  have pre: "\<exists>d. map_of deg c = Some d \<and> count_list (adj_of adj i) c \<le> d" if "c \<in> set (adj_of adj i)" for c
    using that deg dag_todo_insert [of M i V] e notV by (auto simp: mem adj)
  note relax = dag_relax_spec [OF zs(1,2) pre st [unfolded dag_neighbours_adj]]
  have keys: "dag_key M ` (?R V - {i}) = set zero'"
  proof -
    have "inj (dag_key M)" by (auto simp: inj_def dag_key_def)
    then show ?thesis using zs zero first by (auto simp: image_set_diff)
  qed
  have new: "c \<in> set (adj_of adj i) \<and> map_of (AList.delete i evs) c = Some e \<and>
        map_of deg c = Some (count_list (adj_of adj i) c) \<longleftrightarrow>
      M c = Some e \<and> c \<notin> insert i V \<and> i \<in> set (ev_prev e) \<and>
        length (dag_todo M V e) = count_list (ev_prev e) i" for c e
    using deg [of c e] adj [of c] by (auto simp: evs mem restrict_map_def split: if_split_asm)
  have "{(ev_ts e, c) | c e. c \<in> set (adj_of adj i) \<and> map_of (AList.delete i evs) c = Some e \<and>
        map_of deg c = Some (count_list (adj_of adj i) c)} =
      dag_key M ` {c. \<exists>e. M c = Some e \<and> c \<notin> insert i V \<and> i \<in> set (ev_prev e) \<and>
        length (dag_todo M V e) = count_list (ev_prev e) i}"
    unfolding new by (rule dag_key_image [symmetric])
  then have "set zero1 = dag_key M ` ?R (insert i V)"
    using relax e by (simp add: ready_insert [OF _ ready] image_Un keys)
  moreover have "map_of deg1 c = Some (length (dag_todo M (insert i V) e'))" if "M c = Some e'" for c e'
    using relax deg [OF that] that dag_todo_insert [of M i V e'] e notV by (simp add: adj)
  ultimately show "dag_inv M adj (insert i V) (AList.delete i evs) deg1 zero1"
    using inv evs relax by (auto simp: dag_inv_def AList.distinct_delete)
qed

lemma dag_drain_refines:
  assumes "dag_inv M adj V evs deg zero" and "V \<subseteq> dom M"
    and "dag_drain adj evs deg zero out = (out', evs')"
  shows "\<exists>run. out' = out @ map (\<lambda>x. the (M x)) run \<and> topo_run (dom M) (dag_par M) (dag_key M) V run \<and>
    map_of evs' = M |` (- (V \<union> set run)) \<and> distinct (map fst evs')"
  using assms
proof (induction adj evs deg zero out arbitrary: V rule: dag_drain.induct)
  case (1 adj evs deg zero out)
  show ?case
  proof (cases "heap_pop zero")
    case None
    then have "zero = []" by (auto simp: heap_pop_def split: list.splits)
    with 1(2,4) None show ?thesis
      by (intro exI [of _ "[]"]) (auto simp: dag_inv_def dag_drain.simps [of adj evs] intro: topo_run.stop)
  next
    case (Some p)
    obtain first zero' where p: "p = (first, zero')" by (cases p)
    define i where "i = snd first"
    obtain deg1 zero1 where st: "dag_neighbours (AList.delete i evs) adj i (deg, zero') = (deg1, zero1)"
      by fastforce
    note emit = dag_inv_emit [OF 1(2) Some [unfolded p] i_def st]
    from emit(1) obtain e where e: "M i = Some e" "i \<notin> V" by (auto simp: ready_todo)
    then have "map_of evs i = Some e" using 1(2) by (simp add: dag_inv_def)
    then have "dag_drain adj (AList.delete i evs) deg1 zero1 (out @ [e]) = (out', evs')"
      using 1(4) Some st by (simp add: dag_drain.simps [of adj evs] p i_def [symmetric] Let_def)
    moreover have "insert i V \<subseteq> dom M" using e 1(3) by auto
    ultimately have "\<exists>run. out' = (out @ [e]) @ map (\<lambda>x. the (M x)) run \<and>
        topo_run (dom M) (dag_par M) (dag_key M) (insert i V) run \<and>
        map_of evs' = M |` (- (insert i V \<union> set run)) \<and> distinct (map fst evs')"
      using "1.IH" [OF Some p [symmetric] i_def refl refl refl, of "insert i V"] emit(3) st
        \<open>map_of evs i = Some e\<close> by simp
    then obtain run where run: "out' = out @ map (\<lambda>x. the (M x)) (i # run)"
      "topo_run (dom M) (dag_par M) (dag_key M) (insert i V) run"
      "map_of evs' = M |` (- (V \<union> set (i # run)))" "distinct (map fst evs')" using e by auto
    have "dag_key M i \<le> dag_key M y" if "y \<in> ready (dom M) (dag_par M) V" for y
    proof -
      have "dag_key M y \<in> set zero" "sorted zero" using 1(2) that by (simp_all add: dag_inv_def)
      with btree.pop_least [OF _ Some [unfolded p]] emit(2) show ?thesis by simp
    qed
    with emit(1) run(2) have "topo_run (dom M) (dag_par M) (dag_key M) V (i # run)"
      by (intro topo_run.emit)
    with run show ?thesis by blast
  qed
qed

section \<open>The two sorts agree\<close>

lemma btm_inv_edges: "btm_inv deg \<Longrightarrow> btm_inv (snd (dag_edges evs i ps (adj, deg)))"
  by (induction ps arbitrary: adj deg) (auto intro: btm.inv_entry)

lemma btm_inv_fold_edges:
  "btm_inv (snd st) \<Longrightarrow> btm_inv (snd (fold (\<lambda>(i, e). dag_edges evs i (ev_prev e)) es st))"
proof (induction es arbitrary: st)
  case (Cons x es)
  have "btm_inv (snd (dag_edges evs (fst x) (ev_prev (snd x)) st))"
    using btm_inv_edges [OF Cons.prems, of evs _ _ "fst st"] by simp
  from Cons.IH [OF this] show ?case by (simp add: case_prod_beta)
qed simp

lemma dag_inv_initial:
  assumes evs: "btm_inv evs" and deg: "btm_inv deg0" "map_of deg0 = map_option (\<lambda>_. 0) \<circ> map_of evs"
    and graph: "dag_graph evs deg0 = (adj, deg)"
  shows "dag_inv (map_of evs) adj {} evs deg (dag_zero evs deg)"
proof -
  let ?M = "map_of evs"
  have dist: "distinct (map fst evs)" using evs by (simp add: btm_inv_def)
  have "map_of deg0 i \<noteq> None" if "i \<in> fst ` set evs" for i
    using that deg(2) by (simp add: map_of_eq_None_iff)
  from dag_fold_spec [OF dist this graph [unfolded dag_graph_def]]
  have spec: "map_of deg c = map_option (\<lambda>e. length (batch ?M (ev_prev e))) (?M c)"
    "count_list (adj_of adj q) c = (case ?M c of None \<Rightarrow> 0 | Some e \<Rightarrow> count_list (batch ?M (ev_prev e)) q)"
    for c q using deg(2) by (auto simp: adj_of_def split: option.splits)
  have "btm_inv deg" using btm_inv_fold_edges [of "([], deg0)" evs evs] deg(1) graph
    by (simp add: dag_graph_def)
  then have zero: "(i, 0) \<in> set deg \<longleftrightarrow> map_of deg i = Some 0" for i by (simp add: btm_inv_def)
  have z: "sorted (dag_zero evs deg)" "distinct (dag_zero evs deg)"
      "set (dag_zero evs deg) = {(ev_ts e, i) | i e. (i, 0) \<in> set deg \<and> ?M i = Some e}"
    using dag_zero_fold [of "[]" evs deg] by (simp_all add: dag_zero_def Let_def)
  have "ready (dom ?M) (dag_par ?M) {} = {i. \<exists>e. ?M i = Some e \<and> dag_todo ?M {} e = []}"
    by (auto simp: ready_todo)
  moreover have "{(ev_ts e, i) | i e. (i, 0) \<in> set deg \<and> ?M i = Some e} =
      {(ev_ts e, i) | i e. ?M i = Some e \<and> dag_todo ?M {} e = []}"
    unfolding zero spec(1) by (auto simp: dag_todo_def filter_empty_conv)
  ultimately have "set (dag_zero evs deg) = dag_key ?M ` ready (dom ?M) (dag_par ?M) {}"
    unfolding z(3) by (simp only: dag_key_image)
  moreover have "count_list (filter P xs) q = count_list xs q" if "P q" for P and xs :: "event_id list" and q
    using that by (induction xs) auto
  ultimately show ?thesis using z(1,2) dist spec unfolding dag_inv_def
    by (auto simp del: map_of_eq_Some_iff simp: dag_todo_def split: option.splits)
qed

lemma dag_collect_spec:
  assumes "distinct (map ev_id events)" and "dag_collect events ([], []) = (deg, evs)"
  shows "btm_inv evs" and "btm_inv deg" and "map_of evs = map_of (map (\<lambda>e. (ev_id e, e)) events)"
    and "map_of deg = map_option (\<lambda>_. 0) \<circ> map_of evs"
proof -
  have nil: "btm_inv []" "btm_inv []" by (simp_all add: btm_inv_def)
  show "btm_inv evs" "btm_inv deg" using assms(2) nil by (auto simp: dag_collect_folds intro: btm.inv_extend)
  show ev: "map_of evs = map_of (map (\<lambda>e. (ev_id e, e)) events)"
    using assms by (auto simp: dag_collect_folds btm.get_extend_distinct comp_def)
  have "map_of deg = map_of (map (\<lambda>e. (ev_id e, 0)) events)"
    using assms by (auto simp: dag_collect_folds btm.get_extend_distinct comp_def)
  also have "\<dots> = map_option (\<lambda>_. 0) \<circ> map_of (map (\<lambda>e. (ev_id e, e)) events)"
    by (induction events) auto
  finally show "map_of deg = map_option (\<lambda>_. 0) \<circ> map_of evs" using ev by simp
qed

lemma sort_topologically_refines:
  assumes "distinct (map ev_id events)"
  defines "M \<equiv> map_of (map (\<lambda>e. (ev_id e, e)) events)"
  obtains ids where "sort_topologically events = map (\<lambda>x. the (M x)) ids"
    "topo_sorted (dom M) (dag_par M) (dag_key M) ids"
proof -
  obtain deg0 evs where collect: "dag_collect events ([], []) = (deg0, evs)" by fastforce
  obtain adj deg where graph: "dag_graph evs deg0 = (adj, deg)" by fastforce
  obtain out evs' where drain: "dag_drain adj evs deg (dag_zero evs deg) [] = (out, evs')" by fastforce
  note spec = dag_collect_spec [OF assms(1) collect]
  have M: "map_of evs = M" by (simp add: spec(3) M_def)
  from dag_drain_refines [OF dag_inv_initial [OF spec(1,2,4) graph] _ drain] M
  obtain run where run: "out = map (\<lambda>x. the (M x)) run" "topo_run (dom M) (dag_par M) (dag_key M) {} run"
    "map_of evs' = M |` (- set run)" "distinct (map fst evs')" by auto
  define rest where "rest = map ev_id (sort_key (\<lambda>e. (ev_ts e, ev_id e)) (map snd evs'))"
  have ids: "M i = Some e \<Longrightarrow> ev_id e = i" for i e by (auto simp: M_def dest!: map_of_SomeD)
  have left: "M (fst p) = Some (snd p) \<and> fst p \<notin> set run" if "p \<in> set evs'" for p
    using that run(3,4) map_of_is_SomeI [of evs' "fst p" "snd p"] by (auto simp: restrict_map_def split: if_splits)
  have fst: "map ev_id (map snd evs') = map fst evs'" using left ids by auto
  have again: "map (\<lambda>x. the (M x)) rest = sort_key (\<lambda>e. (ev_ts e, ev_id e)) (map snd evs')"
    unfolding rest_def map_map by (rule map_idI) (use left ids in force)
  have "sort_topologically events = map (\<lambda>x. the (M x)) (run @ rest)"
    using collect graph drain run(1) again by (simp add: sort_topologically_def)
  moreover have "set rest = set (map ev_id (map snd evs'))" by (auto simp: rest_def)
  then have rest: "set rest = dom M - set run"
    unfolding fst using run(3) dom_map_of_conv_image_fst [of evs'] by auto
  moreover have "mset rest = mset (map ev_id (map snd evs'))" by (simp only: rest_def mset_map mset_sort)
  then have "distinct rest" unfolding fst using run(4) by (metis mset_eq_imp_distinct_iff)
  moreover have "map (dag_key M) rest = map (\<lambda>e. (ev_ts e, ev_id e)) (map (\<lambda>x. the (M x)) rest)"
    using rest ids by (auto simp: dag_key_def)
  then have "sorted (map (dag_key M) rest)" unfolding again by (simp only: sorted_sort_key)
  ultimately show ?thesis using that [of "run @ rest"] run(2) unfolding topo_sorted_def by blast
qed

definition dag_node :: "event \<Rightarrow> event_id \<times> event_id list \<times> (nat \<times> event_id)" where
  "dag_node e = (ev_id e, ev_prev e, (ev_ts e, ev_id e))"

text \<open>
  The two implementations of Kahn's algorithm agree: sorting a batch of distinct events by
  \<^verbatim>\<open>sort_topologically\<close> yields the events in the order that the indexed implementation
  computes for their predecessors, timestamps and identifiers, cycles included.
\<close>
lemma sort_topologically_is_kahn_sort:
  assumes "distinct (map ev_id events)"
  shows "map ev_id (sort_topologically events) = kahn_sort (map dag_node events) \<and>
    set (sort_topologically events) = set events"
proof -
  define M where "M = map_of (map (\<lambda>e. (ev_id e, e)) events)"
  let ?nodes = "map dag_node events" and ?f = "\<lambda>x. the (M x)"
  have dom: "dom M = ev_id ` set events" by (auto simp: M_def dom_map_of_conv_image_fst image_image)
  then have N: "fst ` set ?nodes = dom M" by (force simp: dag_node_def)
  have node: "map_of ?nodes = map_option (\<lambda>e. snd (dag_node e)) \<circ> M"
    unfolding M_def by (induction events) (auto simp: dag_node_def)
  have ids: "M i = Some e \<Longrightarrow> ev_id e = i" for i e by (auto simp: M_def dest!: map_of_SomeD)
  have key: "node_key ?nodes x = dag_key M x" and par: "node_parents ?nodes x = dag_par M x"
    if "x \<in> dom M" for x
    using that by (auto simp: node node_key_def node_parents_def dag_key_def dag_par_def dag_node_def
        dest: ids)
  obtain xs where xs: "sort_topologically events = map ?f xs"
    "topo_sorted (dom M) (dag_par M) (dag_key M) xs"
    using sort_topologically_refines [OF assms] unfolding M_def .
  have "distinct (map fst ?nodes)" using assms by (simp add: dag_node_def comp_def)
  note kahn = kahn_sort_sorted [OF this, unfolded N]
  have inj: "inj_on (dag_key M) (dom M)" by (auto simp: inj_on_def dag_key_def)
  have "xs = kahn_sort ?nodes" using xs(2) kahn _ _ inj by (rule topo_sorted_unique) (simp_all add: key par)
  moreover have all: "set xs = dom M" using topo_sorted_set [OF xs(2)] by simp
  then have "map ev_id (map ?f xs) = xs" unfolding map_map by (intro map_idI) (use ids in force)
  moreover have "M (ev_id e) = Some e" if "e \<in> set events" for e
    using assms that by (simp add: M_def comp_def)
  then have "set (map ?f xs) = set events" unfolding set_map all by (simp add: dom image_image)
  ultimately show ?thesis by (simp only: xs(1))
qed

definition sample_dag :: "event list" where
  "sample_dag =
     (let ev = (\<lambda>i ts prev. \<lparr>ev_id = i, ev_room_id = None, ev_sender = '''', ev_ts = ts,
        ev_kind = RoomMember, ev_content = '''', ev_state_key = None, ev_prev = prev, ev_auth = [],
        ev_redacts = None, ev_rejected = False\<rparr>)
      in [ev ''c'' 3 [''b'', ''a''], ev ''b'' 9 [''a''], ev ''a'' 5 [''z''], ev ''d'' 5 []])"

theorem sort_topologically_is_kahn_sort_witness:
  "map ev_id (sort_topologically sample_dag) = [''a'', ''d'', ''b'', ''c''] \<and>
   set (sort_topologically sample_dag) = set sample_dag"
proof -
  have "distinct (map ev_id sample_dag)" by (simp add: sample_dag_def)
  moreover have "kahn_sort (map dag_node sample_dag) = [''a'', ''d'', ''b'', ''c'']" by code_simp
  ultimately show ?thesis using sort_topologically_is_kahn_sort [of sample_dag] by simp
qed

definition timeline_parents :: "(event_id \<times> event_id list) list \<Rightarrow> event_id \<Rightarrow> event_id set" where
  "timeline_parents graph i = (case map_of graph i of Some ps \<Rightarrow> set ps | None \<Rightarrow> {})"

definition timeline_order :: "(event_id \<times> (count \<times> nat \<times> nat)) list \<Rightarrow> event_id \<Rightarrow> nat \<times> nat \<times> event_id" where
  "timeline_order entries i = (snd (snd (the (map_of entries i))), fst (snd (the (map_of entries i))), i)"

lemma timeline_nodes:
  fixes graph :: "(event_id \<times> event_id list) list"
  assumes "distinct (map fst entries)" and "i \<in> fst ` set entries"
  defines "nodes \<equiv> map (timeline_node entries graph) (map fst entries)"
  shows "node_parents nodes i = timeline_parents graph i"
    and "node_key nodes i = timeline_order entries i"
proof -
  have "distinct (map fst nodes)"
    using assms(1) by (simp add: nodes_def timeline_node_def Let_def comp_def case_prod_beta)
  moreover have "timeline_node entries graph i \<in> set nodes" using assms(2) by (auto simp: nodes_def)
  moreover have "fst (timeline_node entries graph i) = i"
    by (simp add: timeline_node_def Let_def case_prod_beta)
  ultimately have "map_of nodes i = Some (snd (timeline_node entries graph i))"
    by (metis map_of_is_SomeI prod.collapse)
  moreover obtain c d t where "map_of entries i = Some (c, d, t)"
    using assms(2) by (metis map_of_eq_None_iff option.exhaust prod_cases3)
  ultimately show "node_parents nodes i = timeline_parents graph i"
    "node_key nodes i = timeline_order entries i"
    by (simp_all add: node_parents_def node_key_def timeline_node_def timeline_parents_def
        timeline_order_def Let_def split: option.split)
qed

text \<open>
  C32: The timeline sort implements the abstract specification: it emits, again and again, the
  ready entry that is least by timestamp, then depth, then identifier, and appends the entries
  on cycles in the same order; and it is the only list with this property, so the iteration
  order of the two hash maps is immaterial.
\<close>
theorem sort_timeline_events_refines:
  assumes "distinct (map fst entries)"
  shows "topo_sorted (fst ` set entries) (timeline_parents graph) (timeline_order entries) xs \<longleftrightarrow>
    xs = sort_timeline_events entries graph"
proof -
  let ?nodes = "map (timeline_node entries graph) (map fst entries)" and ?N = "fst ` set entries"
  have fst: "map fst ?nodes = map fst entries"
    by (simp add: timeline_node_def Let_def case_prod_beta comp_def)
  have N: "fst ` set ?nodes = ?N" using arg_cong [OF fst, of set] by (simp only: set_map)
  have "distinct (map fst ?nodes)" using assms by (simp only: fst)
  note kahn = kahn_sort_sorted [OF this, unfolded N]
  have inj: "inj_on (timeline_order entries) A" for A by (auto simp: inj_on_def timeline_order_def)
  have only: "xs = kahn_sort ?nodes" if "topo_sorted ?N (timeline_parents graph) (timeline_order entries) xs"
    using that kahn _ _ inj by (rule topo_sorted_unique) (rule timeline_nodes [OF assms], assumption)+
  have "topo_sorted ?N (timeline_parents graph) (timeline_order entries) (kahn_sort ?nodes)"
    using kahn by (rule topo_sorted_cong) (rule timeline_nodes [OF assms], assumption)+
  with only show ?thesis by (auto simp: sort_timeline_events_def)
qed

text \<open>Between entries of one timestamp the depth decides, not the identifier.\<close>

theorem sort_timeline_events_refines_witness:
  "topo_sorted {''a'', ''b''} (timeline_parents []) (timeline_order [(''a'', Normal 1, 2, 7), (''b'', Normal 2, 1, 7)])
     [''b'', ''a'']"
proof -
  let ?e = "[(''a'', Normal 1, 2, 7), (''b'', Normal 2, 1, 7)]"
  have "[''b'', ''a''] = sort_timeline_events ?e []" by code_simp
  moreover have "fst ` set ?e = {''a'', ''b''}" by auto
  ultimately show ?thesis using sort_timeline_events_refines [of ?e "[]" "[''b'', ''a'']"] by simp
qed

end
