(* ===== verification/Short_Ids.thy ===== *)
theory Short_Ids
  imports Pdu_Count
begin

text \<open>
  Short identifiers (\<^verbatim>\<open>mtxdb/src/shortids.rs\<close>, \<^verbatim>\<open>mtxdb/src/keys.rs\<close>, \<^verbatim>\<open>service/rooms/short/mod.rs\<close>):
  the 64-bit handles that stand for event identifiers and for pairs of event type and state
  key. The adapter keeps a forward and a reverse map for each kind and one counter for both;
  the service puts caches in front of it. The storage engine is a third-party package: its
  hash functions are a parameter, a transaction is the list of its writes and commits
  atomically, and faults of the disk are left out. The collection of a record is a function of
  its map and its node, so that each map is one table.
\<close>

type_synonym bytes = "byte list"

datatype storage_error = Corrupt string

section \<open>Keys and records\<close>

text \<open>
  The identifiers of records are computed by the storage engine: \<^verbatim>\<open>derive_id\<close> hashes data
  under a domain, \<^verbatim>\<open>event_record_id\<close> an event identifier. Event identifiers are accepted or
  refused by the parser of the identifier types.
\<close>

record 'n engine =
  derive_id :: "string \<Rightarrow> bytes \<Rightarrow> 'n"
  event_record_id :: "bytes \<Rightarrow> 'n"
  is_event_id :: "bytes \<Rightarrow> bool"

datatype short_map = EventForward | EventReverse | StateKeyForward | StateKeyReverse

definition forward_event_node :: "'n engine \<Rightarrow> bytes \<Rightarrow> 'n" where
  "forward_event_node k event_id = event_record_id k event_id"

definition reverse_node :: "'n engine \<Rightarrow> string \<Rightarrow> u64 \<Rightarrow> 'n" where
  "reverse_node k domain short = derive_id k domain (u64_to_be_bytes short)"

definition forward_state_key_node :: "'n engine \<Rightarrow> bytes \<Rightarrow> 'n" where
  "forward_state_key_node k encoded = derive_id k ''short-statekey'' encoded"

definition with_prefix :: "u64 \<Rightarrow> bytes \<Rightarrow> bytes" where
  "with_prefix short tail = u64_to_be_bytes short @ tail"

definition split_prefix :: "bytes \<Rightarrow> (storage_error, u64 \<times> bytes) result" where
  "split_prefix bs =
     (if length bs < 8 then Inl (Corrupt ''short id record is truncated'')
      else Inr (u64_from_be_bytes (take 8 bs), drop 8 bs))"

text \<open>\<^verbatim>\<open>u32::to_le_bytes\<close> and \<^verbatim>\<open>u32::from_le_bytes\<close>.\<close>

definition u32_to_le_bytes :: "nat \<Rightarrow> bytes" where
  "u32_to_le_bytes n = rev (to_be 4 n)"

definition u32_from_le_bytes :: "bytes \<Rightarrow> nat" where
  "u32_from_le_bytes bs = from_be (rev bs)"

text \<open>A \<^verbatim>\<open>str\<close> is its bytes; \<^verbatim>\<open>String::from_utf8\<close> checks that they are well-formed.\<close>

definition utf8_tail :: "byte \<Rightarrow> bool" where
  "utf8_tail b \<longleftrightarrow> 0x80 \<le> b \<and> b \<le> 0xBF"

fun utf8_valid :: "bytes \<Rightarrow> bool" where
  "utf8_valid [] = True"
| "utf8_valid (a # bs) =
     (if a < 0x80 then utf8_valid bs
      else if 0xC2 \<le> a \<and> a \<le> 0xDF
      then (case bs of b # rest \<Rightarrow> utf8_tail b \<and> utf8_valid rest | _ \<Rightarrow> False)
      else if 0xE0 \<le> a \<and> a \<le> 0xEF
      then (case bs of
              b # c # rest \<Rightarrow>
                utf8_tail b \<and> (a = 0xE0 \<longrightarrow> 0xA0 \<le> b) \<and> (a = 0xED \<longrightarrow> b \<le> 0x9F) \<and>
                utf8_tail c \<and> utf8_valid rest
            | _ \<Rightarrow> False)
      else if 0xF0 \<le> a \<and> a \<le> 0xF4
      then (case bs of
              b # c # d # rest \<Rightarrow>
                utf8_tail b \<and> (a = 0xF0 \<longrightarrow> 0x90 \<le> b) \<and> (a = 0xF4 \<longrightarrow> b \<le> 0x8F) \<and>
                utf8_tail c \<and> utf8_tail d \<and> utf8_valid rest
            | _ \<Rightarrow> False)
      else False)"

text \<open>
  \<^verbatim>\<open>encode_state_key_v1\<close>: a version byte, then both strings with their lengths. The capacity
  of the buffer cannot overflow, since both strings are in memory.
\<close>

definition encode_state_key_v1 :: "bytes \<Rightarrow> bytes \<Rightarrow> (storage_error, bytes) result" where
  "encode_state_key_v1 event_type state_key =
     (if length event_type \<ge> 2 ^ 32 then Inl (Corrupt ''event type is too long'')
      else if length state_key \<ge> 2 ^ 32 then Inl (Corrupt ''state key is too long'')
      else Inr ([1] @ u32_to_le_bytes (length event_type) @ event_type @
                u32_to_le_bytes (length state_key) @ state_key))"

definition split_len :: "bytes \<Rightarrow> (nat \<times> bytes) option" where
  "split_len bs = (if length bs < 4 then None else Some (u32_from_le_bytes (take 4 bs), drop 4 bs))"

definition decode_state_key :: "bytes \<Rightarrow> (storage_error, bytes \<times> bytes) result" where
  "decode_state_key encoded =
     (let corrupt = Inl (Corrupt ''state key record is malformed'')
      in case encoded of
           [] \<Rightarrow> corrupt
         | v # rest \<Rightarrow>
             if v \<noteq> 1 then corrupt
             else case split_len rest of
                    None \<Rightarrow> corrupt
                  | Some (type_len, rest) \<Rightarrow>
                      if length rest < type_len then corrupt
                      else let event_type = take type_len rest
                           in case split_len (drop type_len rest) of
                                None \<Rightarrow> corrupt
                              | Some (key_len, rest) \<Rightarrow>
                                  if length rest \<noteq> key_len then corrupt
                                  else if \<not> utf8_valid event_type then corrupt
                                  else if \<not> utf8_valid rest then corrupt
                                  else Inr (event_type, rest))"

section \<open>The adapter\<close>

record 'n short_store =
  event_forward :: "'n \<Rightarrow> bytes option"
  event_reverse :: "'n \<Rightarrow> bytes option"
  state_key_forward :: "'n \<Rightarrow> bytes option"
  state_key_reverse :: "'n \<Rightarrow> bytes option"
  counter_record :: "bytes option"

record 'n short_adapter =
  sa_store :: "'n short_store"
  sa_counter :: u64

text \<open>A transaction collects its writes; they are applied together when it commits.\<close>

datatype 'n short_put = Put short_map 'n bytes | PutCounter bytes

fun apply_put :: "'n short_put \<Rightarrow> 'n short_store \<Rightarrow> 'n short_store" where
  "apply_put (Put EventForward n v) s = s\<lparr>event_forward := (event_forward s)(n \<mapsto> v)\<rparr>"
| "apply_put (Put EventReverse n v) s = s\<lparr>event_reverse := (event_reverse s)(n \<mapsto> v)\<rparr>"
| "apply_put (Put StateKeyForward n v) s = s\<lparr>state_key_forward := (state_key_forward s)(n \<mapsto> v)\<rparr>"
| "apply_put (Put StateKeyReverse n v) s = s\<lparr>state_key_reverse := (state_key_reverse s)(n \<mapsto> v)\<rparr>"
| "apply_put (PutCounter v) s = s\<lparr>counter_record := Some v\<rparr>"

definition commit :: "'n short_put list \<Rightarrow> 'n short_store \<Rightarrow> 'n short_store" where
  "commit tx s = fold apply_put tx s"

fun read_map :: "'n short_store \<Rightarrow> short_map \<Rightarrow> 'n \<Rightarrow> bytes option" where
  "read_map s EventForward n = event_forward s n"
| "read_map s EventReverse n = event_reverse s n"
| "read_map s StateKeyForward n = state_key_forward s n"
| "read_map s StateKeyReverse n = state_key_reverse s n"

definition adapter_new :: "'n short_store \<Rightarrow> (storage_error, 'n short_adapter) result" where
  "adapter_new s =
     (case counter_record s of
        None \<Rightarrow> Inr \<lparr>sa_store = s, sa_counter = 0\<rparr>
      | Some bs \<Rightarrow>
          if length bs = 8 then Inr \<lparr>sa_store = s, sa_counter = u64_from_be_bytes bs\<rparr>
          else Inl (Corrupt ''short id counter record is malformed''))"

definition adapter_get_event :: "'n engine \<Rightarrow> 'n short_adapter \<Rightarrow> bytes \<Rightarrow> (storage_error, u64 option) result" where
  "adapter_get_event k a event_id =
     (case read_map (sa_store a) EventForward (forward_event_node k event_id) of
        None \<Rightarrow> Inr None
      | Some bs \<Rightarrow>
          try_res (split_prefix bs) (\<lambda>(short, stored).
          Inr (if stored = event_id then Some short else None)))"

definition adapter_get_event_id :: "'n engine \<Rightarrow> 'n short_adapter \<Rightarrow> u64 \<Rightarrow> bytes option" where
  "adapter_get_event_id k a short =
     read_map (sa_store a) EventReverse (reverse_node k ''short-eid-rev'' short)"

definition adapter_get_state_key ::
  "'n engine \<Rightarrow> 'n short_adapter \<Rightarrow> bytes \<Rightarrow> bytes \<Rightarrow> (storage_error, u64 option) result" where
  "adapter_get_state_key k a event_type state_key =
     try_res (encode_state_key_v1 event_type state_key) (\<lambda>encoded.
     case read_map (sa_store a) StateKeyForward (forward_state_key_node k encoded) of
       None \<Rightarrow> Inr None
     | Some bs \<Rightarrow>
         try_res (split_prefix bs) (\<lambda>(short, stored).
         Inr (if stored = encoded then Some short else None)))"

definition adapter_get_state_key_from_short ::
  "'n engine \<Rightarrow> 'n short_adapter \<Rightarrow> u64 \<Rightarrow> (storage_error, (bytes \<times> bytes) option) result" where
  "adapter_get_state_key_from_short k a short =
     (case read_map (sa_store a) StateKeyReverse (reverse_node k ''short-sk-rev'' short) of
        None \<Rightarrow> Inr None
      | Some bs \<Rightarrow> try_res (decode_state_key bs) (\<lambda>p. Inr (Some p)))"

text \<open>The loop of \<^verbatim>\<open>allocate_events\<close>: what is resolved, the next id, the writes, whether any.\<close>

record 'n allocation =
  al_resolved :: "(bytes \<times> u64) list"
  al_next :: u64
  al_tx :: "'n short_put list"
  al_allocated :: bool

definition allocate_event ::
  "'n engine \<Rightarrow> 'n short_adapter \<Rightarrow> bytes \<Rightarrow> 'n allocation \<Rightarrow> (storage_error, 'n allocation) result" where
  "allocate_event k a event_id st =
     (if map_of (al_resolved st) event_id \<noteq> None then Inr st
      else
        let node = forward_event_node k event_id
        in case read_map (sa_store a) EventForward node of
             Some bs \<Rightarrow>
               try_res (split_prefix bs) (\<lambda>(short, stored).
               if stored \<noteq> event_id then Inl (Corrupt ''event record id collision in short ids'')
               else Inr (st\<lparr>al_resolved := (event_id, short) # al_resolved st\<rparr>))
           | None \<Rightarrow>
               try_res (ok_or (u64_checked_add (al_next st) 1) (Corrupt ''short id counter overflow'')) (\<lambda>short.
               Inr \<lparr>al_resolved = (event_id, short) # al_resolved st, al_next = short,
                    al_tx = al_tx st @
                      [Put EventForward node (with_prefix short event_id),
                       Put EventReverse (reverse_node k ''short-eid-rev'' short) event_id],
                    al_allocated = True\<rparr>))"

fun allocate_loop ::
  "'n engine \<Rightarrow> 'n short_adapter \<Rightarrow> bytes list \<Rightarrow> 'n allocation \<Rightarrow> (storage_error, 'n allocation) result" where
  "allocate_loop k a [] st = Inr st"
| "allocate_loop k a (i # is) st = try_res (allocate_event k a i st) (allocate_loop k a is)"

definition allocate_events ::
  "'n engine \<Rightarrow> 'n short_adapter \<Rightarrow> bytes list \<Rightarrow> (storage_error, u64 list \<times> 'n short_adapter) result" where
  "allocate_events k a event_ids =
     try_res (allocate_loop k a event_ids
       \<lparr>al_resolved = [], al_next = sa_counter a, al_tx = [], al_allocated = False\<rparr>) (\<lambda>st.
     Inr (map (\<lambda>i. the (map_of (al_resolved st) i)) event_ids,
          if al_allocated st
          then \<lparr>sa_store = commit (al_tx st @ [PutCounter (u64_to_be_bytes (al_next st))]) (sa_store a),
                sa_counter = al_next st\<rparr>
          else a))"

definition allocate_state_key ::
  "'n engine \<Rightarrow> 'n short_adapter \<Rightarrow> bytes \<Rightarrow> bytes \<Rightarrow> (storage_error, u64 \<times> 'n short_adapter) result" where
  "allocate_state_key k a event_type state_key =
     try_res (encode_state_key_v1 event_type state_key) (\<lambda>encoded.
     let node = forward_state_key_node k encoded
     in case read_map (sa_store a) StateKeyForward node of
          Some bs \<Rightarrow>
            try_res (split_prefix bs) (\<lambda>(short, stored).
            if stored \<noteq> encoded then Inl (Corrupt ''state key record id collision in short ids'')
            else Inr (short, a))
        | None \<Rightarrow>
            try_res (ok_or (u64_checked_add (sa_counter a) 1) (Corrupt ''short id counter overflow'')) (\<lambda>short.
            Inr (short,
              \<lparr>sa_store = commit
                 [Put StateKeyForward node (with_prefix short encoded),
                  Put StateKeyReverse (reverse_node k ''short-sk-rev'' short) encoded,
                  PutCounter (u64_to_be_bytes short)] (sa_store a),
               sa_counter = short\<rparr>)))"

section \<open>The service\<close>

text \<open>
  The service keeps caches in front of the adapter. A cache may lose entries at any time; the
  operations only insert. Every operation returns its answer and the state it leaves, so that
  the work done before a failure is not forgotten.
\<close>

datatype short_fault = DatabaseFault | NotFoundFault | PanicFault

record 'n short_service =
  ss_adapter :: "'n short_adapter"
  ss_events :: "bytes \<Rightarrow> u64 option"
  ss_event_ids :: "u64 \<Rightarrow> bytes option"
  ss_keys :: "bytes \<times> bytes \<Rightarrow> u64 option"
  ss_key_names :: "u64 \<Rightarrow> (bytes \<times> bytes) option"

definition cache_event :: "bytes \<Rightarrow> u64 \<Rightarrow> 'n short_service \<Rightarrow> 'n short_service" where
  "cache_event event_id short sv =
     sv\<lparr>ss_events := (ss_events sv)(event_id \<mapsto> short), ss_event_ids := (ss_event_ids sv)(short \<mapsto> event_id)\<rparr>"

definition cache_state_key :: "bytes \<times> bytes \<Rightarrow> u64 \<Rightarrow> 'n short_service \<Rightarrow> 'n short_service" where
  "cache_state_key key short sv =
     sv\<lparr>ss_keys := (ss_keys sv)(key \<mapsto> short), ss_key_names := (ss_key_names sv)(short \<mapsto> key)\<rparr>"

definition get_or_create_shorteventid ::
  "'n engine \<Rightarrow> bytes \<Rightarrow> 'n short_service \<Rightarrow> (short_fault, u64) result \<times> 'n short_service" where
  "get_or_create_shorteventid k event_id sv =
     (case ss_events sv event_id of
        Some short \<Rightarrow> (Inr short, sv)
      | None \<Rightarrow>
          (case allocate_events k (ss_adapter sv) [event_id] of
             Inl _ \<Rightarrow> (Inl PanicFault, sv)
           | Inr (shorts, a) \<Rightarrow>
               (Inr (hd shorts), cache_event event_id (hd shorts) (sv\<lparr>ss_adapter := a\<rparr>))))"

definition get_shorteventid ::
  "'n engine \<Rightarrow> bytes \<Rightarrow> 'n short_service \<Rightarrow> (short_fault, u64) result \<times> 'n short_service" where
  "get_shorteventid k event_id sv =
     (case ss_events sv event_id of
        Some short \<Rightarrow> (Inr short, sv)
      | None \<Rightarrow>
          (case adapter_get_event k (ss_adapter sv) event_id of
             Inl _ \<Rightarrow> (Inl DatabaseFault, sv)
           | Inr None \<Rightarrow> (Inl NotFoundFault, sv)
           | Inr (Some short) \<Rightarrow> (Inr short, cache_event event_id short sv)))"

text \<open>
  The batched lookup: the hits of a chunk come from the cache, the misses are allocated in one
  transaction and put into the empty slots in order.
\<close>

fun fill_slots ::
  "(bytes \<times> u64 option) list \<Rightarrow> u64 list \<Rightarrow> 'n short_service \<Rightarrow> (short_fault, u64 list) result \<times> 'n short_service" where
  "fill_slots [] allocated sv = (Inr [], sv)"
| "fill_slots ((i, Some short) # slots) allocated sv =
     (let (r, sv') = fill_slots slots allocated sv in (try_res r (\<lambda>ss. Inr (short # ss)), sv'))"
| "fill_slots ((i, None) # slots) [] sv = (Inl PanicFault, sv)"
| "fill_slots ((i, None) # slots) (short # allocated) sv =
     (let (r, sv') = fill_slots slots allocated (cache_event i short sv)
      in (try_res r (\<lambda>ss. Inr (short # ss)), sv'))"

definition get_or_create_chunk ::
  "'n engine \<Rightarrow> bytes list \<Rightarrow> 'n short_service \<Rightarrow> (short_fault, u64 list) result \<times> 'n short_service" where
  "get_or_create_chunk k chunk sv =
     (let slots = map (\<lambda>i. (i, ss_events sv i)) chunk;
          misses = map fst (filter (\<lambda>p. snd p = None) slots)
      in if misses = [] then (Inr (map (the \<circ> snd) slots), sv)
         else case allocate_events k (ss_adapter sv) misses of
                Inl _ \<Rightarrow> (Inl PanicFault, sv)
              | Inr (allocated, a) \<Rightarrow> fill_slots slots allocated (sv\<lparr>ss_adapter := a\<rparr>))"

function chunks_of :: "nat \<Rightarrow> 'a list \<Rightarrow> 'a list list" where
  "chunks_of n xs = (if n = 0 \<or> xs = [] then [] else take n xs # chunks_of n (drop n xs))"
  by pat_completeness auto
termination by (relation "measure (\<lambda>(n, xs). length xs)") auto

declare chunks_of.simps [simp del]

fun get_or_create_chunks ::
  "'n engine \<Rightarrow> bytes list list \<Rightarrow> 'n short_service \<Rightarrow> (short_fault, u64 list) result \<times> 'n short_service" where
  "get_or_create_chunks k [] sv = (Inr [], sv)"
| "get_or_create_chunks k (c # cs) sv =
     (case get_or_create_chunk k c sv of
        (Inl e, sv') \<Rightarrow> (Inl e, sv')
      | (Inr ss, sv') \<Rightarrow>
          (case get_or_create_chunks k cs sv' of (r, sv'') \<Rightarrow> (try_res r (\<lambda>ts. Inr (ss @ ts)), sv'')))"

definition multi_get_or_create_shorteventid ::
  "'n engine \<Rightarrow> bytes list \<Rightarrow> 'n short_service \<Rightarrow> (short_fault, u64 list) result \<times> 'n short_service" where
  "multi_get_or_create_shorteventid k event_ids sv = get_or_create_chunks k (chunks_of 256 event_ids) sv"

definition parse_event_id :: "'n engine \<Rightarrow> bytes \<Rightarrow> (short_fault, bytes) result" where
  "parse_event_id k bs = (if utf8_valid bs \<and> is_event_id k bs then Inr bs else Inl DatabaseFault)"

definition get_eventid_from_short ::
  "'n engine \<Rightarrow> u64 \<Rightarrow> 'n short_service \<Rightarrow> (short_fault, bytes) result \<times> 'n short_service" where
  "get_eventid_from_short k short sv =
     (case ss_event_ids sv short of
        Some cached \<Rightarrow> (if is_event_id k cached then Inr cached else Inl DatabaseFault, sv)
      | None \<Rightarrow>
          (case adapter_get_event_id k (ss_adapter sv) short of
             None \<Rightarrow> (Inl NotFoundFault, sv)
           | Some bs \<Rightarrow>
               (case parse_event_id k bs of
                  Inl e \<Rightarrow> (Inl e, sv)
                | Inr event_id \<Rightarrow> (Inr event_id, cache_event event_id short sv))))"

definition get_or_create_shortstatekey ::
  "'n engine \<Rightarrow> bytes \<Rightarrow> bytes \<Rightarrow> 'n short_service \<Rightarrow> (short_fault, u64) result \<times> 'n short_service" where
  "get_or_create_shortstatekey k event_type state_key sv =
     (case ss_keys sv (event_type, state_key) of
        Some short \<Rightarrow> (Inr short, sv)
      | None \<Rightarrow>
          (case allocate_state_key k (ss_adapter sv) event_type state_key of
             Inl _ \<Rightarrow> (Inl PanicFault, sv)
           | Inr (short, a) \<Rightarrow>
               (Inr short, cache_state_key (event_type, state_key) short (sv\<lparr>ss_adapter := a\<rparr>))))"

definition get_shortstatekey ::
  "'n engine \<Rightarrow> bytes \<Rightarrow> bytes \<Rightarrow> 'n short_service \<Rightarrow> (short_fault, u64) result \<times> 'n short_service" where
  "get_shortstatekey k event_type state_key sv =
     (case ss_keys sv (event_type, state_key) of
        Some short \<Rightarrow> (Inr short, sv)
      | None \<Rightarrow>
          (case adapter_get_state_key k (ss_adapter sv) event_type state_key of
             Inl _ \<Rightarrow> (Inl DatabaseFault, sv)
           | Inr None \<Rightarrow> (Inl NotFoundFault, sv)
           | Inr (Some short) \<Rightarrow> (Inr short, cache_state_key (event_type, state_key) short sv)))"

definition get_statekey_from_short ::
  "'n engine \<Rightarrow> u64 \<Rightarrow> 'n short_service \<Rightarrow> (short_fault, bytes \<times> bytes) result \<times> 'n short_service" where
  "get_statekey_from_short k short sv =
     (case ss_key_names sv short of
        Some cached \<Rightarrow> (Inr cached, sv)
      | None \<Rightarrow>
          (case adapter_get_state_key_from_short k (ss_adapter sv) short of
             Inl _ \<Rightarrow> (Inl DatabaseFault, sv)
           | Inr None \<Rightarrow> (Inl DatabaseFault, sv)
           | Inr (Some key) \<Rightarrow> (Inr key, cache_state_key key short sv)))"

definition service_build :: "'n short_store \<Rightarrow> (short_fault, 'n short_service) result" where
  "service_build s =
     (case adapter_new s of
        Inl _ \<Rightarrow> Inl DatabaseFault
      | Inr a \<Rightarrow> Inr \<lparr>ss_adapter = a, ss_events = Map.empty, ss_event_ids = Map.empty,
                    ss_keys = Map.empty, ss_key_names = Map.empty\<rparr>)"

section \<open>Encodings\<close>

lemma split_with_prefix [simp]: "split_prefix (with_prefix short tail) = Inr (short, tail)"
  by (simp add: split_prefix_def with_prefix_def)

lemma u32_le_roundtrip [simp]:
  "length (u32_to_le_bytes n) = 4"
  "n < 2 ^ 32 \<Longrightarrow> u32_from_le_bytes (u32_to_le_bytes n) = n"
  by (simp_all add: u32_to_le_bytes_def u32_from_le_bytes_def from_be_to_be)

lemma split_len_append [simp]: "n < 2 ^ 32 \<Longrightarrow> split_len (u32_to_le_bytes n @ xs) = Some (n, xs)"
  by (simp add: split_len_def)

lemma encode_state_key_inj:
  assumes "encode_state_key_v1 t s = Inr e" and "encode_state_key_v1 t' s' = Inr e"
  shows "t = t' \<and> s = s'"
proof -
  have len: "length t < 2 ^ 32" "length s < 2 ^ 32" "length t' < 2 ^ 32" "length s' < 2 ^ 32"
    and eq: "u32_to_le_bytes (length t) @ t @ u32_to_le_bytes (length s) @ s =
      u32_to_le_bytes (length t') @ t' @ u32_to_le_bytes (length s') @ s'"
    using assms by (auto simp: encode_state_key_v1_def not_le split: if_split_asm)
  from eq have "u32_to_le_bytes (length t) = u32_to_le_bytes (length t')" by simp
  then have "length t = length t'" using len by (metis u32_le_roundtrip(2))
  with eq show ?thesis by simp
qed

lemma decode_encode_state_key:
  assumes "encode_state_key_v1 t s = Inr e" and "utf8_valid t" and "utf8_valid s"
  shows "decode_state_key e = Inr (t, s)"
proof -
  have "length t < 2 ^ 32" "length s < 2 ^ 32"
    and "e = 1 # u32_to_le_bytes (length t) @ t @ u32_to_le_bytes (length s) @ s"
    using assms(1) by (auto simp: encode_state_key_v1_def not_le split: if_split_asm)
  with assms(2,3) show ?thesis by (simp add: decode_state_key_def)
qed

section \<open>The abstract table\<close>

text \<open>
  Two partial maps into the short identifiers. The concrete store represents a table when its
  forward maps hold the table and its reverse maps the inverse; identifiers are positive, at
  most the counter, and no identifier stands for both an event and a state key.
\<close>

type_synonym event_table = "bytes \<rightharpoonup> u64"
type_synonym key_table = "bytes \<times> bytes \<rightharpoonup> u64"

abbreviation encode_key :: "bytes \<times> bytes \<Rightarrow> (storage_error, bytes) result" where
  "encode_key p \<equiv> encode_state_key_v1 (fst p) (snd p)"

definition represents_events :: "'n engine \<Rightarrow> 'n short_store \<Rightarrow> u64 \<Rightarrow> event_table \<Rightarrow> bool" where
  "represents_events k st n E \<longleftrightarrow>
     (\<forall>i. event_forward st (forward_event_node k i) = map_option (\<lambda>s. with_prefix s i) (E i)) \<and>
     (\<forall>s i. event_reverse st (reverse_node k ''short-eid-rev'' s) = Some i \<longleftrightarrow> E i = Some s) \<and>
     (\<forall>i s. E i = Some s \<longrightarrow> 0 < s \<and> s \<le> n)"

definition represents_keys :: "'n engine \<Rightarrow> 'n short_store \<Rightarrow> u64 \<Rightarrow> key_table \<Rightarrow> bool" where
  "represents_keys k st n S \<longleftrightarrow>
     (\<forall>p e. encode_key p = Inr e \<longrightarrow>
        state_key_forward st (forward_state_key_node k e) = map_option (\<lambda>s. with_prefix s e) (S p)) \<and>
     (\<forall>s e. state_key_reverse st (reverse_node k ''short-sk-rev'' s) = Some e \<longleftrightarrow>
        (\<exists>p. S p = Some s \<and> encode_key p = Inr e)) \<and>
     (\<forall>p s. S p = Some s \<longrightarrow> (\<exists>e. encode_key p = Inr e) \<and> utf8_valid (fst p) \<and> utf8_valid (snd p)) \<and>
     (\<forall>p s. S p = Some s \<longrightarrow> 0 < s \<and> s \<le> n)"

definition represents ::
  "'n engine \<Rightarrow> 'n short_store \<Rightarrow> u64 \<Rightarrow> event_table \<Rightarrow> key_table \<Rightarrow> bool" where
  "represents k st n E S \<longleftrightarrow>
     represents_events k st n E \<and> represents_keys k st n S \<and> (\<forall>i p s. E i = Some s \<longrightarrow> S p \<noteq> Some s)"

text \<open>The hash functions of the engine are taken to be free of collisions.\<close>

definition engine_ok :: "'n engine \<Rightarrow> bool" where
  "engine_ok k \<longleftrightarrow> inj (event_record_id k) \<and> (\<forall>d. inj (derive_id k d))"

lemma engine_inj:
  assumes "engine_ok k"
  shows "forward_event_node k i = forward_event_node k j \<longleftrightarrow> i = j"
    and "forward_state_key_node k i = forward_state_key_node k j \<longleftrightarrow> i = j"
    and "reverse_node k d s = reverse_node k d t \<longleftrightarrow> s = t"
  using assms by (auto simp: engine_ok_def forward_event_node_def forward_state_key_node_def
      reverse_node_def inj_eq)

lemma represents_eventsD:
  assumes "represents_events k st n E"
  shows "event_forward st (forward_event_node k i) = map_option (\<lambda>s. with_prefix s i) (E i)"
    and "event_reverse st (reverse_node k ''short-eid-rev'' s) = Some i \<longleftrightarrow> E i = Some s"
    and "E i = Some s \<Longrightarrow> 0 < s" and "E i = Some s \<Longrightarrow> s \<le> n"
    and "E i = Some s \<Longrightarrow> E j = Some s \<Longrightarrow> i = j"
  using assms unfolding represents_events_def by (blast, blast, blast, blast, metis option.inject)

lemma represents_keysD:
  assumes "represents_keys k st n S"
  shows "encode_key p = Inr e \<Longrightarrow>
      state_key_forward st (forward_state_key_node k e) = map_option (\<lambda>s. with_prefix s e) (S p)"
    and "state_key_reverse st (reverse_node k ''short-sk-rev'' s) = Some e \<longleftrightarrow>
      (\<exists>p. S p = Some s \<and> encode_key p = Inr e)"
    and "S p = Some s \<Longrightarrow> \<exists>e. encode_key p = Inr e"
    and "S p = Some s \<Longrightarrow> utf8_valid (fst p)" and "S p = Some s \<Longrightarrow> utf8_valid (snd p)"
    and "S p = Some s \<Longrightarrow> 0 < s" and "S p = Some s \<Longrightarrow> s \<le> n"
  using assms unfolding represents_keys_def by blast+

lemma represents_keys_inj:
  assumes rep: "represents_keys k st n S" and "S p = Some s" "S q = Some s"
  shows "p = q"
proof -
  obtain e e' where e: "encode_key p = Inr e" "encode_key q = Inr e'"
    using represents_keysD(3) [OF rep assms(2)] represents_keysD(3) [OF rep assms(3)] by blast
  with assms represents_keysD(2) [OF rep, of s] have "e = e'" by (metis option.inject)
  with e encode_state_key_inj [of "fst p" "snd p" e "fst q" "snd q"] show ?thesis by (simp add: prod_eq_iff)
qed

text \<open>A fresh identifier is the successor of the counter.\<close>

lemma fresh_above:
  assumes "u64_checked_add n 1 = Some s"
  shows "0 < s" and "n < s" and "t \<le> n \<Longrightarrow> t \<le> s" and "t \<le> n \<Longrightarrow> t \<noteq> s"
proof -
  have "unat n + 1 < 2 ^ 64" "s = n + 1"
    using assms by (auto simp: u64_checked_add_def split: if_split_asm)
  then have "unat s = unat n + 1" by (simp add: unat_word_ariths)
  then show "0 < s" "n < s" by (simp_all add: word_less_nat_alt)
  then show "t \<le> n \<Longrightarrow> t \<le> s" "t \<le> n \<Longrightarrow> t \<noteq> s" by auto
qed

lemma represents_events_new:
  assumes ok: "engine_ok k" and rep: "represents_events k st n E" and "E i = None"
    and s: "u64_checked_add n 1 = Some s"
  shows "represents_events k (apply_put (Put EventReverse (reverse_node k ''short-eid-rev'' s) i)
    (apply_put (Put EventForward (forward_event_node k i) (with_prefix s i)) st)) s (E(i \<mapsto> s))"
proof -
  note f = fresh_above [OF s] and D = represents_eventsD [OF rep]
  have new: "E j \<noteq> Some s" for j using D(4) [of j s] f(4) by blast
  show ?thesis unfolding represents_events_def
  proof (intro conjI allI impI)
    fix j t
    show "event_forward (apply_put (Put EventReverse (reverse_node k ''short-eid-rev'' s) i)
        (apply_put (Put EventForward (forward_event_node k i) (with_prefix s i)) st)) (forward_event_node k j) =
      map_option (\<lambda>s. with_prefix s j) ((E(i \<mapsto> s)) j)" by (simp add: engine_inj [OF ok] D(1))
    show "event_reverse (apply_put (Put EventReverse (reverse_node k ''short-eid-rev'' s) i)
        (apply_put (Put EventForward (forward_event_node k i) (with_prefix s i)) st))
        (reverse_node k ''short-eid-rev'' t) = Some j \<longleftrightarrow> (E(i \<mapsto> s)) j = Some t"
      using new [of j] assms(3) by (auto simp: engine_inj [OF ok] D(2))
    assume "(E(i \<mapsto> s)) j = Some t"
    then show "0 < t" "t \<le> s" using f(1,3) D(3,4) by (auto split: if_split_asm)
  qed
qed

lemma represents_keys_new:
  assumes ok: "engine_ok k" and rep: "represents_keys k st n S" and "S p = None"
    and e: "encode_key p = Inr e" and utf8: "utf8_valid (fst p)" "utf8_valid (snd p)"
    and s: "u64_checked_add n 1 = Some s"
  shows "represents_keys k (apply_put (Put StateKeyReverse (reverse_node k ''short-sk-rev'' s) e)
    (apply_put (Put StateKeyForward (forward_state_key_node k e) (with_prefix s e)) st)) s (S(p \<mapsto> s))"
proof -
  note f = fresh_above [OF s] and D = represents_keysD [OF rep]
  have new: "S q \<noteq> Some s" for q using D(7) [of q s] f(4) by blast
  have other: "encode_key q = Inr e \<longleftrightarrow> q = p" for q
    using encode_state_key_inj [of "fst q" "snd q" e "fst p" "snd p"] e by (auto simp: prod_eq_iff)
  show ?thesis unfolding represents_keys_def
  proof (intro conjI allI impI)
    fix q d t assume "encode_key q = Inr d"
    then show "state_key_forward (apply_put (Put StateKeyReverse (reverse_node k ''short-sk-rev'' s) e)
        (apply_put (Put StateKeyForward (forward_state_key_node k e) (with_prefix s e)) st))
        (forward_state_key_node k d) = map_option (\<lambda>s. with_prefix s d) ((S(p \<mapsto> s)) q)"
      using other [of q] e D(1) [of q d] by (cases "q = p") (auto simp: engine_inj [OF ok])
  next
    fix t d
    show "state_key_reverse (apply_put (Put StateKeyReverse (reverse_node k ''short-sk-rev'' s) e)
        (apply_put (Put StateKeyForward (forward_state_key_node k e) (with_prefix s e)) st))
        (reverse_node k ''short-sk-rev'' t) = Some d \<longleftrightarrow> (\<exists>q. (S(p \<mapsto> s)) q = Some t \<and> encode_key q = Inr d)"
    proof (cases "t = s")
      case True
      have "(\<exists>q. (S(p \<mapsto> s)) q = Some s \<and> encode_key q = Inr d) \<longleftrightarrow> encode_key p = Inr d"
        using new by (metis fun_upd_apply)
      then show ?thesis using True e by simp
    next
      case False
      then have "(\<exists>q. (S(p \<mapsto> s)) q = Some t \<and> encode_key q = Inr d) \<longleftrightarrow>
          (\<exists>q. S q = Some t \<and> encode_key q = Inr d)"
        using assms(3) by (metis fun_upd_apply option.inject option.distinct(1))
      then show ?thesis using False by (simp add: engine_inj [OF ok] D(2))
    qed
  next
    fix q t assume q: "(S(p \<mapsto> s)) q = Some t"
    show "\<exists>e. encode_key q = Inr e" "utf8_valid (fst q)" "utf8_valid (snd q)" "0 < t" "t \<le> s"
      using q e utf8 f(1,3) D(3-7) [of q t] by (auto split: if_split_asm)
  qed
qed

lemma represents_other:
  "represents_keys k (apply_put (Put EventForward n v) st) m S \<longleftrightarrow> represents_keys k st m S"
  "represents_keys k (apply_put (Put EventReverse n v) st) m S \<longleftrightarrow> represents_keys k st m S"
  "represents_events k (apply_put (Put StateKeyForward n v) st) m E \<longleftrightarrow> represents_events k st m E"
  "represents_events k (apply_put (Put StateKeyReverse n v) st) m E \<longleftrightarrow> represents_events k st m E"
  by (simp_all add: represents_keys_def represents_events_def)

lemma represents_raise:
  assumes "u64_checked_add n 1 = Some s"
  shows "represents_events k st n E \<Longrightarrow> represents_events k st s E"
    and "represents_keys k st n S \<Longrightarrow> represents_keys k st s S"
  using fresh_above(3) [OF assms] unfolding represents_events_def represents_keys_def by blast+

lemma represents_new_event:
  assumes ok: "engine_ok k" and rep: "represents k st n E S" and i: "E i = None"
    and s: "u64_checked_add n 1 = Some s"
  shows "represents k (apply_put (Put EventReverse (reverse_node k ''short-eid-rev'' s) i)
    (apply_put (Put EventForward (forward_event_node k i) (with_prefix s i)) st)) s (E(i \<mapsto> s)) S"
proof -
  have R: "represents_events k st n E" "represents_keys k st n S" "\<And>i p s. E i = Some s \<Longrightarrow> S p \<noteq> Some s"
    using rep by (auto simp: represents_def)
  have "S p \<noteq> Some s" for p using represents_keysD(7) [OF R(2), of p s] fresh_above(4) [OF s] by blast
  with R(3) have "(E(i \<mapsto> s)) j = Some t \<Longrightarrow> S p \<noteq> Some t" for j p t by (auto split: if_split_asm)
  then show ?thesis unfolding represents_def represents_other
    using represents_events_new [OF ok R(1) i s] represents_raise(2) [OF s R(2)] by blast
qed

lemma represents_new_key:
  assumes ok: "engine_ok k" and rep: "represents k st n E S" and p: "S p = None"
    and e: "encode_key p = Inr e" and utf8: "utf8_valid (fst p)" "utf8_valid (snd p)"
    and s: "u64_checked_add n 1 = Some s"
  shows "represents k (apply_put (Put StateKeyReverse (reverse_node k ''short-sk-rev'' s) e)
    (apply_put (Put StateKeyForward (forward_state_key_node k e) (with_prefix s e)) st)) s E (S(p \<mapsto> s))"
proof -
  have R: "represents_events k st n E" "represents_keys k st n S" "\<And>i p s. E i = Some s \<Longrightarrow> S p \<noteq> Some s"
    using rep by (auto simp: represents_def)
  have "E i \<noteq> Some s" for i using represents_eventsD(4) [OF R(1), of i s] fresh_above(4) [OF s] by blast
  with R(3) have "E j = Some t \<Longrightarrow> (S(p \<mapsto> s)) q \<noteq> Some t" for j q t by (auto split: if_split_asm)
  then show ?thesis unfolding represents_def represents_other
    using represents_keys_new [OF ok R(2) p e utf8 s] represents_raise(1) [OF s R(1)] by blast
qed

lemma represents_counter [simp]:
  "represents k (apply_put (PutCounter v) st) n E S \<longleftrightarrow> represents k st n E S"
  by (simp add: represents_def represents_events_def represents_keys_def)

section \<open>Allocation\<close>

text \<open>What the loop has done so far is what committing its writes would represent.\<close>

definition alloc_inv ::
  "'n engine \<Rightarrow> 'n short_adapter \<Rightarrow> event_table \<Rightarrow> key_table \<Rightarrow> event_table \<Rightarrow> 'n allocation \<Rightarrow> bool" where
  "alloc_inv k a E S E' st \<longleftrightarrow>
     represents k (commit (al_tx st) (sa_store a)) (al_next st) E' S \<and> E \<subseteq>\<^sub>m E' \<and>
     map_of (al_resolved st) \<subseteq>\<^sub>m E' \<and> (\<forall>i. map_of (al_resolved st) i = None \<longrightarrow> E' i = E i) \<and>
     (\<not> al_allocated st \<longrightarrow> al_tx st = [] \<and> al_next st = sa_counter a \<and> E' = E)"

lemma allocate_event_inv:
  assumes ok: "engine_ok k" and rep: "represents k (sa_store a) (sa_counter a) E S"
    and inv: "alloc_inv k a E S E1 st" and step: "allocate_event k a i st = Inr st'"
  shows "\<exists>E2. alloc_inv k a E S E2 st' \<and> E1 \<subseteq>\<^sub>m E2 \<and>
    map_of (al_resolved st) \<subseteq>\<^sub>m map_of (al_resolved st') \<and> map_of (al_resolved st') i \<noteq> None"
proof (cases "map_of (al_resolved st) i")
  case (Some s)
  then have "st' = st" using step by (simp add: allocate_event_def)
  with inv Some show ?thesis by (intro exI [of _ E1]) auto
next
  case None
  then have E1: "E1 i = E i" using inv by (simp add: alloc_inv_def)
  have read: "event_forward (sa_store a) (forward_event_node k i) = map_option (\<lambda>s. with_prefix s i) (E i)"
    using rep represents_eventsD(1) by (auto simp: represents_def)
  show ?thesis
  proof (cases "E i")
    case (Some s)
    then have st': "st' = st\<lparr>al_resolved := (i, s) # al_resolved st\<rparr>"
      using step None read by (simp add: allocate_event_def)
    have "alloc_inv k a E S E1 st'" using inv None Some E1
      by (auto simp: alloc_inv_def st' map_le_def)
    then show ?thesis using None by (intro exI [of _ E1]) (auto simp: st' map_le_def)
  next
    case new: None
    obtain s where s: "u64_checked_add (al_next st) 1 = Some s"
      using step None read new by (cases "u64_checked_add (al_next st) 1") (auto simp: allocate_event_def)
    then have st': "st' = \<lparr>al_resolved = (i, s) # al_resolved st, al_next = s,
        al_tx = al_tx st @ [Put EventForward (forward_event_node k i) (with_prefix s i),
          Put EventReverse (reverse_node k ''short-eid-rev'' s) i], al_allocated = True\<rparr>"
      using step None read new by (simp add: allocate_event_def Let_def)
    have "represents k (commit (al_tx st') (sa_store a)) s (E1(i \<mapsto> s)) S"
      using represents_new_event [OF ok _ _ s] inv E1 new by (simp add: alloc_inv_def st' commit_def)
    moreover have "E1 \<subseteq>\<^sub>m E1(i \<mapsto> s)" using E1 new by (auto simp: map_le_def)
    ultimately show ?thesis using inv None new E1
      by (intro exI [of _ "E1(i \<mapsto> s)"]) (auto simp: alloc_inv_def st' map_le_def)
  qed
qed

lemma allocate_loop_inv:
  assumes ok: "engine_ok k" and rep: "represents k (sa_store a) (sa_counter a) E S"
  shows "alloc_inv k a E S E1 st \<Longrightarrow> allocate_loop k a ids st = Inr st' \<Longrightarrow>
    \<exists>E2. alloc_inv k a E S E2 st' \<and> E1 \<subseteq>\<^sub>m E2 \<and> map_of (al_resolved st) \<subseteq>\<^sub>m map_of (al_resolved st') \<and>
      (\<forall>i\<in>set ids. map_of (al_resolved st') i \<noteq> None)"
proof (induction ids arbitrary: E1 st)
  case Nil
  then show ?case by (intro exI [of _ E1]) auto
next
  case (Cons i ids)
  then obtain st1 where st1: "allocate_event k a i st = Inr st1" "allocate_loop k a ids st1 = Inr st'"
    by (auto simp: try_res_eq_Inr)
  obtain E2 where E2: "alloc_inv k a E S E2 st1" "E1 \<subseteq>\<^sub>m E2"
    "map_of (al_resolved st) \<subseteq>\<^sub>m map_of (al_resolved st1)" "map_of (al_resolved st1) i \<noteq> None"
    using allocate_event_inv [OF ok rep Cons.prems(1) st1(1)] by blast
  obtain E3 where E3: "alloc_inv k a E S E3 st'" "E2 \<subseteq>\<^sub>m E3"
    "map_of (al_resolved st1) \<subseteq>\<^sub>m map_of (al_resolved st')" "\<forall>i\<in>set ids. map_of (al_resolved st') i \<noteq> None"
    using Cons.IH [OF E2(1) st1(2)] by blast
  have "map_of (al_resolved st') i \<noteq> None" using E2(4) E3(3) by (auto simp: map_le_def dom_def)
  with E2 E3 show ?case by (intro exI [of _ E3]) (auto intro: map_le_trans)
qed

text \<open>The persisted counter is the counter in memory.\<close>

definition adapter_ok :: "'n engine \<Rightarrow> 'n short_adapter \<Rightarrow> event_table \<Rightarrow> key_table \<Rightarrow> bool" where
  "adapter_ok k a E S \<longleftrightarrow> represents k (sa_store a) (sa_counter a) E S \<and> adapter_new (sa_store a) = Inr a"

lemma adapter_ok_counter:
  assumes "represents k st n E S"
  shows "adapter_ok k \<lparr>sa_store = apply_put (PutCounter (u64_to_be_bytes n)) st, sa_counter = n\<rparr> E S"
  unfolding adapter_ok_def short_adapter.simps represents_counter using assms by (simp add: adapter_new_def)

lemma allocate_events_ok:
  assumes ok: "engine_ok k" and a: "adapter_ok k a E S" and alloc: "allocate_events k a ids = Inr (ss, a')"
  obtains E' where "adapter_ok k a' E' S" "E \<subseteq>\<^sub>m E'" "map E' ids = map Some ss"
proof -
  let ?st = "\<lparr>al_resolved = [], al_next = sa_counter a, al_tx = [], al_allocated = False\<rparr>"
  have rep: "represents k (sa_store a) (sa_counter a) E S" using a by (simp add: adapter_ok_def)
  obtain st where st: "allocate_loop k a ids ?st = Inr st"
    "ss = map (\<lambda>i. the (map_of (al_resolved st) i)) ids"
    "a' = (if al_allocated st
          then \<lparr>sa_store = commit (al_tx st @ [PutCounter (u64_to_be_bytes (al_next st))]) (sa_store a),
                sa_counter = al_next st\<rparr>
          else a)"
    using alloc by (auto simp: allocate_events_def try_res_eq_Inr)
  have "alloc_inv k a E S E ?st" using rep by (simp add: alloc_inv_def commit_def)
  from allocate_loop_inv [OF ok rep this st(1)] obtain E' where E': "alloc_inv k a E S E' st"
    "\<forall>i\<in>set ids. map_of (al_resolved st) i \<noteq> None" by blast
  have "adapter_ok k a' E' S"
  proof (cases "al_allocated st")
    case True
    then have "a' = \<lparr>sa_store = apply_put (PutCounter (u64_to_be_bytes (al_next st))) (commit (al_tx st) (sa_store a)),
        sa_counter = al_next st\<rparr>" by (simp add: st(3) commit_def)
    moreover have "represents k (commit (al_tx st) (sa_store a)) (al_next st) E' S"
      using E'(1) by (simp add: alloc_inv_def)
    ultimately show ?thesis by (simp only: adapter_ok_counter)
  next
    case False
    with E'(1) a show ?thesis by (simp add: st(3) alloc_inv_def)
  qed
  moreover have "E' i = Some (the (map_of (al_resolved st) i))" if i: "i \<in> set ids" for i
  proof -
    obtain s where s: "map_of (al_resolved st) i = Some s" using i E'(2) by auto
    then have "E' i = Some s" using E'(1) by (auto simp: alloc_inv_def map_le_def dom_def)
    with s show ?thesis by simp
  qed
  ultimately show ?thesis using that E'(1) by (auto simp: st(2) alloc_inv_def)
qed

lemma allocate_state_key_ok:
  assumes ok: "engine_ok k" and a: "adapter_ok k a E S" and utf8: "utf8_valid t" "utf8_valid n"
    and alloc: "allocate_state_key k a t n = Inr (s, a')"
  obtains S' where "adapter_ok k a' E S'" "S \<subseteq>\<^sub>m S'" "S' (t, n) = Some s"
proof -
  have rep: "represents k (sa_store a) (sa_counter a) E S" using a by (simp add: adapter_ok_def)
  obtain e where e: "encode_key (t, n) = Inr e" using alloc by (auto simp: allocate_state_key_def try_res_eq_Inr)
  have read: "state_key_forward (sa_store a) (forward_state_key_node k e) =
      map_option (\<lambda>s. with_prefix s e) (S (t, n))"
    using rep represents_keysD(1) [OF _ e] by (auto simp: represents_def)
  show ?thesis
  proof (cases "S (t, n)")
    case (Some s')
    then have "s' = s" "a' = a" using alloc e read by (simp_all add: allocate_state_key_def)
    with that [of S] a Some show ?thesis by simp
  next
    case None
    then obtain "u64_checked_add (sa_counter a) 1 = Some s"
      using alloc e read by (cases "u64_checked_add (sa_counter a) 1") (auto simp: allocate_state_key_def Let_def)
    note new = represents_new_key [OF ok rep None e _ _ this]
    have "a' = \<lparr>sa_store = apply_put (PutCounter (u64_to_be_bytes s))
        (apply_put (Put StateKeyReverse (reverse_node k ''short-sk-rev'' s) e)
          (apply_put (Put StateKeyForward (forward_state_key_node k e) (with_prefix s e)) (sa_store a))),
        sa_counter = s\<rparr>"
      using alloc e read None \<open>u64_checked_add _ 1 = Some s\<close>
      by (simp add: allocate_state_key_def Let_def commit_def)
    moreover have "utf8_valid (fst (t, n))" "utf8_valid (snd (t, n))" using utf8 by simp_all
    ultimately have "adapter_ok k a' E (S((t, n) \<mapsto> s))" using new by (simp only: adapter_ok_counter)
    moreover have "S \<subseteq>\<^sub>m S((t, n) \<mapsto> s)" using None by (auto simp: map_le_def)
    ultimately show ?thesis using that [of "S((t, n) \<mapsto> s)"] by simp
  qed
qed

section \<open>The service keeps the table\<close>

definition service_ok :: "'n engine \<Rightarrow> 'n short_service \<Rightarrow> event_table \<Rightarrow> key_table \<Rightarrow> bool" where
  "service_ok k sv E S \<longleftrightarrow>
     adapter_ok k (ss_adapter sv) E S \<and> ss_events sv \<subseteq>\<^sub>m E \<and> ss_keys sv \<subseteq>\<^sub>m S \<and>
     (\<forall>s i. ss_event_ids sv s = Some i \<longrightarrow> E i = Some s) \<and>
     (\<forall>s p. ss_key_names sv s = Some p \<longrightarrow> S p = Some s)"

lemma map_leD: "f \<subseteq>\<^sub>m g \<Longrightarrow> f x = Some y \<Longrightarrow> g x = Some y"
  by (metis domI map_le_def)

lemma service_ok_adapter:
  assumes "service_ok k sv E S" and "adapter_ok k a E' S'" and "E \<subseteq>\<^sub>m E'" and "S \<subseteq>\<^sub>m S'"
  shows "service_ok k (sv\<lparr>ss_adapter := a\<rparr>) E' S'"
  using assms map_leD [OF assms(3)] map_leD [OF assms(4)]
  by (auto simp: service_ok_def intro: map_le_trans)

lemma service_ok_cache_event:
  "service_ok k sv E S \<Longrightarrow> E i = Some s \<Longrightarrow> service_ok k (cache_event i s sv) E S"
  by (auto simp: service_ok_def cache_event_def map_le_def)

lemma service_ok_cache_key:
  "service_ok k sv E S \<Longrightarrow> S p = Some s \<Longrightarrow> service_ok k (cache_state_key p s sv) E S"
  by (auto simp: service_ok_def cache_state_key_def map_le_def)

lemma service_okD:
  assumes "service_ok k sv E S"
  shows "adapter_ok k (ss_adapter sv) E S"
    and "ss_events sv i = Some s \<Longrightarrow> E i = Some s" and "ss_event_ids sv s = Some i \<Longrightarrow> E i = Some s"
    and "ss_keys sv p = Some s \<Longrightarrow> S p = Some s" and "ss_key_names sv s = Some p \<Longrightarrow> S p = Some s"
  using assms unfolding service_ok_def by (blast intro: map_leD)+

text \<open>What the adapter answers on a represented table.\<close>

lemma adapter_answers:
  assumes "adapter_ok k a E S"
  shows "adapter_get_event k a i = Inr (E i)"
    and "adapter_get_event_id k a s = Some i \<longleftrightarrow> E i = Some s"
    and "adapter_get_state_key k a t n = Inr (Some s) \<Longrightarrow> S (t, n) = Some s"
    and "adapter_get_state_key_from_short k a s = Inr (Some p) \<Longrightarrow> S p = Some s"
proof -
  have rep: "represents_events k (sa_store a) (sa_counter a) E" "represents_keys k (sa_store a) (sa_counter a) S"
    using assms by (auto simp: adapter_ok_def represents_def)
  note E = represents_eventsD [OF rep(1)] and S = represents_keysD [OF rep(2)]
  show "adapter_get_event k a i = Inr (E i)"
    by (cases "E i") (simp_all add: adapter_get_event_def E(1))
  show "adapter_get_event_id k a s = Some i \<longleftrightarrow> E i = Some s" by (simp add: adapter_get_event_id_def E(2))
  show "S (t, n) = Some s" if "adapter_get_state_key k a t n = Inr (Some s)"
    using that S(1) [of "(t, n)"]
    by (cases "S (t, n)") (auto simp: adapter_get_state_key_def try_res_eq_Inr)
  show "S p = Some s" if get: "adapter_get_state_key_from_short k a s = Inr (Some p)"
  proof -
    obtain e where e: "state_key_reverse (sa_store a) (reverse_node k ''short-sk-rev'' s) = Some e"
      "decode_state_key e = Inr p"
      using get by (auto simp: adapter_get_state_key_from_short_def try_res_eq_Inr split: option.splits)
    from e(1) obtain q where q: "S q = Some s" "encode_key q = Inr e" unfolding S(2) by blast
    from decode_encode_state_key [OF q(2)] S(4,5) [OF q(1)] e(2) q(1) show ?thesis by simp
  qed
qed

section \<open>Calls\<close>

datatype short_op =
    GetOrCreateEvent bytes
  | GetOrCreateEvents "bytes list"
  | GetEvent bytes
  | GetEventId u64
  | GetOrCreateKey bytes bytes
  | GetKey bytes bytes
  | GetKeyName u64

datatype short_answer = Shorts "u64 list" | EventName bytes | KeyName "bytes \<times> bytes" | Fault short_fault

definition answer_with :: "('a \<Rightarrow> short_answer) \<Rightarrow> (short_fault, 'a) result \<times> 's \<Rightarrow> short_answer \<times> 's" where
  "answer_with f r = ((case fst r of Inl e \<Rightarrow> Fault e | Inr x \<Rightarrow> f x), snd r)"

fun run_op :: "'n engine \<Rightarrow> short_op \<Rightarrow> 'n short_service \<Rightarrow> short_answer \<times> 'n short_service" where
  "run_op k (GetOrCreateEvent i) sv = answer_with (\<lambda>s. Shorts [s]) (get_or_create_shorteventid k i sv)"
| "run_op k (GetOrCreateEvents is) sv = answer_with Shorts (multi_get_or_create_shorteventid k is sv)"
| "run_op k (GetEvent i) sv = answer_with (\<lambda>s. Shorts [s]) (get_shorteventid k i sv)"
| "run_op k (GetEventId s) sv = answer_with EventName (get_eventid_from_short k s sv)"
| "run_op k (GetOrCreateKey t n) sv = answer_with (\<lambda>s. Shorts [s]) (get_or_create_shortstatekey k t n sv)"
| "run_op k (GetKey t n) sv = answer_with (\<lambda>s. Shorts [s]) (get_shortstatekey k t n sv)"
| "run_op k (GetKeyName s) sv = answer_with KeyName (get_statekey_from_short k s sv)"

text \<open>What a caller learns from an answer about events and about state keys.\<close>

fun event_facts :: "short_op \<times> short_answer \<Rightarrow> (bytes \<times> u64) list" where
  "event_facts (GetOrCreateEvent i, Shorts ss) = zip [i] ss"
| "event_facts (GetOrCreateEvents is, Shorts ss) = zip is ss"
| "event_facts (GetEvent i, Shorts ss) = zip [i] ss"
| "event_facts (GetEventId s, EventName i) = [(i, s)]"
| "event_facts _ = []"

fun key_facts :: "short_op \<times> short_answer \<Rightarrow> ((bytes \<times> bytes) \<times> u64) list" where
  "key_facts (GetOrCreateKey t n, Shorts ss) = zip [(t, n)] ss"
| "key_facts (GetKey t n, Shorts ss) = zip [(t, n)] ss"
| "key_facts (GetKeyName s, KeyName p) = [(p, s)]"
| "key_facts _ = []"

text \<open>Event types and state keys are \<^verbatim>\<open>str\<close>, so the bytes of a call are well-formed.\<close>

fun valid_op :: "short_op \<Rightarrow> bool" where
  "valid_op (GetOrCreateKey t n) \<longleftrightarrow> utf8_valid t \<and> utf8_valid n"
| "valid_op (GetKey t n) \<longleftrightarrow> utf8_valid t \<and> utf8_valid n"
| "valid_op _ \<longleftrightarrow> True"

text \<open>The table grows, is kept, and the answer is taken from it.\<close>

definition grows :: "'n engine \<Rightarrow> 'n short_service \<Rightarrow> event_table \<Rightarrow> key_table
    \<Rightarrow> (bytes \<times> u64) list \<Rightarrow> ((bytes \<times> bytes) \<times> u64) list \<Rightarrow> bool" where
  "grows k sv E S es ks \<longleftrightarrow>
     (\<exists>E' S'. service_ok k sv E' S' \<and> E \<subseteq>\<^sub>m E' \<and> S \<subseteq>\<^sub>m S' \<and>
        (\<forall>(i, s)\<in>set es. E' i = Some s) \<and> (\<forall>(p, s)\<in>set ks. S' p = Some s))"

lemma growsI:
  assumes "service_ok k sv E' S'" "E \<subseteq>\<^sub>m E'" "S \<subseteq>\<^sub>m S'"
    "\<And>i s. (i, s) \<in> set es \<Longrightarrow> E' i = Some s" "\<And>p s. (p, s) \<in> set ks \<Longrightarrow> S' p = Some s"
  shows "grows k sv E S es ks"
  using assms unfolding grows_def by blast

lemma grows_refl: "service_ok k sv E S \<Longrightarrow> grows k sv E S [] []"
  by (rule growsI [of k sv E S]) auto

lemma grows_create_event:
  assumes ok: "engine_ok k" "service_ok k sv E S"
    and run: "get_or_create_shorteventid k i sv = (r, sv')"
  shows "grows k sv' E S (event_facts (GetOrCreateEvent i, (case r of Inl e \<Rightarrow> Fault e | Inr s \<Rightarrow> Shorts [s]))) []"
proof (cases "ss_events sv i")
  case (Some s)
  then have "r = Inr s" "sv' = sv" using run by (auto simp: get_or_create_shorteventid_def)
  with Some ok(2) show ?thesis by (intro growsI [of k sv' E S]) (auto dest: service_okD)
next
  case None
  show ?thesis
  proof (cases "allocate_events k (ss_adapter sv) [i]")
    case (Inl e)
    with None run ok(2) show ?thesis by (auto simp: get_or_create_shorteventid_def grows_refl)
  next
    case (Inr p)
    obtain ss a where p: "p = (ss, a)" by (cases p)
    obtain E' where E': "adapter_ok k a E' S" "E \<subseteq>\<^sub>m E'" "map E' [i] = map Some ss"
      using allocate_events_ok [OF ok(1) service_okD(1) [OF ok(2)] Inr [unfolded p]] .
    then obtain s where s: "ss = [s]" "E' i = Some s" by (cases ss) auto
    then have "r = Inr s" "sv' = cache_event i s (sv\<lparr>ss_adapter := a\<rparr>)"
      using run None Inr p by (auto simp: get_or_create_shorteventid_def)
    moreover have "service_ok k (sv\<lparr>ss_adapter := a\<rparr>) E' S" using ok(2) E'(1,2) by (rule service_ok_adapter) simp
    ultimately show ?thesis using s E'(2)
      by (intro growsI [of k sv' E' S]) (auto intro: service_ok_cache_event)
  qed
qed

lemma grows_get_event:
  assumes ok: "service_ok k sv E S" and run: "get_shorteventid k i sv = (r, sv')"
  shows "grows k sv' E S (event_facts (GetEvent i, (case r of Inl e \<Rightarrow> Fault e | Inr s \<Rightarrow> Shorts [s]))) []"
  using run service_okD(2) [OF ok, of i] service_ok_cache_event [OF ok, of i] ok
  by (auto simp: get_shorteventid_def adapter_answers(1) [OF service_okD(1) [OF ok]]
      split: option.splits intro!: growsI [of _ _ E S])

lemma grows_get_event_id:
  assumes ok: "service_ok k sv E S" and run: "get_eventid_from_short k s sv = (r, sv')"
  shows "grows k sv' E S (event_facts (GetEventId s, (case r of Inl e \<Rightarrow> Fault e | Inr i \<Rightarrow> EventName i))) []"
  using run service_okD(3) [OF ok, of s] service_ok_cache_event [OF ok, of _ s] ok
  by (auto simp: get_eventid_from_short_def parse_event_id_def adapter_answers(2) [OF service_okD(1) [OF ok]]
      split: option.splits if_split_asm intro!: growsI [of _ _ E S])

lemma grows_create_key:
  assumes ok: "engine_ok k" "service_ok k sv E S" and utf8: "utf8_valid t" "utf8_valid n"
    and run: "get_or_create_shortstatekey k t n sv = (r, sv')"
  shows "grows k sv' E S [] (key_facts (GetOrCreateKey t n, (case r of Inl e \<Rightarrow> Fault e | Inr s \<Rightarrow> Shorts [s])))"
proof (cases "ss_keys sv (t, n)")
  case (Some s)
  then have "r = Inr s" "sv' = sv" using run by (auto simp: get_or_create_shortstatekey_def)
  with Some ok(2) show ?thesis by (intro growsI [of k sv' E S]) (auto dest: service_okD)
next
  case None
  show ?thesis
  proof (cases "allocate_state_key k (ss_adapter sv) t n")
    case (Inl e)
    with None run ok(2) show ?thesis by (auto simp: get_or_create_shortstatekey_def grows_refl)
  next
    case (Inr p)
    obtain s a where p: "p = (s, a)" by (cases p)
    obtain S' where S': "adapter_ok k a E S'" "S \<subseteq>\<^sub>m S'" "S' (t, n) = Some s"
      using allocate_state_key_ok [OF ok(1) service_okD(1) [OF ok(2)] utf8 Inr [unfolded p]] .
    have "r = Inr s" "sv' = cache_state_key (t, n) s (sv\<lparr>ss_adapter := a\<rparr>)"
      using run None Inr p by (auto simp: get_or_create_shortstatekey_def)
    moreover have "service_ok k (sv\<lparr>ss_adapter := a\<rparr>) E S'"
      using ok(2) S'(1) _ S'(2) by (rule service_ok_adapter) simp
    ultimately show ?thesis using S'
      by (intro growsI [of k sv' E S']) (auto intro: service_ok_cache_key)
  qed
qed

lemma grows_get_key:
  assumes ok: "service_ok k sv E S" and run: "get_shortstatekey k t n sv = (r, sv')"
  shows "grows k sv' E S [] (key_facts (GetKey t n, (case r of Inl e \<Rightarrow> Fault e | Inr s \<Rightarrow> Shorts [s])))"
  using run service_okD(4) [OF ok, of "(t, n)"] service_ok_cache_key [OF ok, of "(t, n)"] ok
    adapter_answers(3) [OF service_okD(1) [OF ok], of t n]
  by (auto simp: get_shortstatekey_def
      split: option.splits sum.splits intro!: growsI [of _ _ E S])

lemma grows_get_key_name:
  assumes ok: "service_ok k sv E S" and run: "get_statekey_from_short k s sv = (r, sv')"
  shows "grows k sv' E S [] (key_facts (GetKeyName s, (case r of Inl e \<Rightarrow> Fault e | Inr p \<Rightarrow> KeyName p)))"
  using run service_okD(5) [OF ok, of s] service_ok_cache_key [OF ok, of _ s] ok
    adapter_answers(4) [OF service_okD(1) [OF ok], of s]
  by (auto simp: get_statekey_from_short_def
      split: option.splits sum.splits intro!: growsI [of _ _ E S])

lemma fill_slots_ok:
  assumes "service_ok k sv E S" and "\<And>i s. (i, Some s) \<in> set slots \<Longrightarrow> E i = Some s"
    and "map E (map fst (filter (\<lambda>p. snd p = None) slots)) = map Some allocated"
    and "fill_slots slots allocated sv = (r, sv')"
  shows "service_ok k sv' E S \<and> (\<exists>ss. r = Inr ss \<and> map E (map fst slots) = map Some ss)"
  using assms
proof (induction slots allocated sv arbitrary: r sv' rule: fill_slots.induct)
  case (2 i short slots allocated sv)
  obtain r1 sv1 where rest: "fill_slots slots allocated sv = (r1, sv1)" by fastforce
  have "service_ok k sv1 E S \<and> (\<exists>ss. r1 = Inr ss \<and> map E (map fst slots) = map Some ss)"
    using "2.prems" rest by (intro "2.IH") auto
  then show ?case using "2.prems"(2,4) rest by auto
next
  case (4 i slots short allocated sv)
  obtain r1 sv1 where rest: "fill_slots slots allocated (cache_event i short sv) = (r1, sv1)" by fastforce
  have i: "E i = Some short" using "4.prems"(3) by simp
  have "service_ok k sv1 E S \<and> (\<exists>ss. r1 = Inr ss \<and> map E (map fst slots) = map Some ss)"
    using "4.prems" rest i by (intro "4.IH") (auto intro: service_ok_cache_event)
  then show ?case using "4.prems"(4) rest i by auto
qed auto

lemma chunk_ok:
  assumes ok: "engine_ok k" "service_ok k sv E S" and run: "get_or_create_chunk k chunk sv = (r, sv')"
  shows "\<exists>E'. service_ok k sv' E' S \<and> E \<subseteq>\<^sub>m E' \<and> (\<forall>ss. r = Inr ss \<longrightarrow> map E' chunk = map Some ss)"
proof -
  let ?slots = "map (\<lambda>i. (i, ss_events sv i)) chunk"
  let ?misses = "map fst (filter (\<lambda>p. snd p = None) ?slots)"
  have hits: "E i = Some s" if "(i, Some s) \<in> set ?slots" for i s
    using that service_okD(2) [OF ok(2), of i s] by auto
  show ?thesis
  proof (cases "?misses = []")
    case True
    then have "\<forall>i\<in>set chunk. ss_events sv i \<noteq> None" by (auto simp: filter_empty_conv)
    then have "map E chunk = map Some (map (the \<circ> snd) ?slots)" using service_okD(2) [OF ok(2)] by auto
    with True run ok(2) show ?thesis by (auto simp: get_or_create_chunk_def)
  next
    case False
    show ?thesis
    proof (cases "allocate_events k (ss_adapter sv) ?misses")
      case (Inl e)
      with False run ok(2) show ?thesis by (auto simp: get_or_create_chunk_def Let_def)
    next
      case (Inr p)
      obtain al a where p: "p = (al, a)" by (cases p)
      obtain E' where E': "adapter_ok k a E' S" "E \<subseteq>\<^sub>m E'" "map E' ?misses = map Some al"
        using allocate_events_ok [OF ok(1) service_okD(1) [OF ok(2)] Inr [unfolded p]] .
      have "fill_slots ?slots al (sv\<lparr>ss_adapter := a\<rparr>) = (r, sv')"
        using False run Inr p by (simp add: get_or_create_chunk_def Let_def)
      moreover have "service_ok k (sv\<lparr>ss_adapter := a\<rparr>) E' S" using ok(2) E'(1,2) by (rule service_ok_adapter) simp
      moreover have "E' i = Some s" if "(i, Some s) \<in> set ?slots" for i s
        using hits [OF that] E'(2) by (rule map_leD [rotated])
      ultimately have "service_ok k sv' E' S \<and> (\<exists>ss. r = Inr ss \<and> map E' (map fst ?slots) = map Some ss)"
        using E'(3) by (intro fill_slots_ok) auto
      with E'(2) show ?thesis by (auto simp: comp_def)
    qed
  qed
qed

lemma chunks_ok:
  assumes ok: "engine_ok k"
  shows "service_ok k sv E S \<Longrightarrow> get_or_create_chunks k cs sv = (r, sv') \<Longrightarrow>
    \<exists>E'. service_ok k sv' E' S \<and> E \<subseteq>\<^sub>m E' \<and> (\<forall>ss. r = Inr ss \<longrightarrow> map E' (concat cs) = map Some ss)"
proof (induction cs arbitrary: sv E r sv')
  case (Cons c cs)
  obtain r1 sv1 where one: "get_or_create_chunk k c sv = (r1, sv1)" by fastforce
  obtain E1 where E1: "service_ok k sv1 E1 S" "E \<subseteq>\<^sub>m E1" "\<And>ss. r1 = Inr ss \<Longrightarrow> map E1 c = map Some ss"
    using chunk_ok [OF ok Cons.prems(1) one] by blast
  show ?case
  proof (cases r1)
    case (Inl e)
    with Cons.prems(2) one E1 show ?thesis by auto
  next
    case (Inr ss)
    obtain r2 sv2 where two: "get_or_create_chunks k cs sv1 = (r2, sv2)" by fastforce
    obtain E2 where E2: "service_ok k sv2 E2 S" "E1 \<subseteq>\<^sub>m E2"
      "\<And>ss. r2 = Inr ss \<Longrightarrow> map E2 (concat cs) = map Some ss"
      using Cons.IH [OF E1(1) two] by blast
    have "E1 i = E2 i" if "i \<in> set c" for i
    proof -
      have "E1 i \<in> set (map Some ss)" using E1(3) [OF Inr] that by (metis image_eqI set_map)
      then show ?thesis using map_leD [OF E2(2)] by fastforce
    qed
    then have "map E2 c = map Some ss" using E1(3) [OF Inr] by (metis map_cong)
    with E1(2) E2 Cons.prems(2) one two Inr show ?thesis
      by (intro exI [of _ E2]) (auto simp: try_res_eq_Inr intro: map_le_trans)
  qed
qed auto

lemma concat_chunks_of: "0 < n \<Longrightarrow> concat (chunks_of n xs) = xs"
proof (induction n xs rule: chunks_of.induct)
  case (1 n xs)
  then show ?case by (cases "xs = []") (simp_all add: chunks_of.simps [of n xs] chunks_of.simps [of n "[]"])
qed

lemma grows_create_events:
  assumes ok: "engine_ok k" "service_ok k sv E S" and run: "multi_get_or_create_shorteventid k is sv = (r, sv')"
  shows "grows k sv' E S (event_facts (GetOrCreateEvents is, (case r of Inl e \<Rightarrow> Fault e | Inr ss \<Rightarrow> Shorts ss))) []"
proof -
  obtain E' where E': "service_ok k sv' E' S" "E \<subseteq>\<^sub>m E'" "\<And>ss. r = Inr ss \<Longrightarrow> map E' is = map Some ss"
    using chunks_ok [OF ok(1,2) run [unfolded multi_get_or_create_shorteventid_def]]
    by (auto simp: concat_chunks_of)
  have "E' i = Some s" if r: "r = Inr ss" and m: "(i, s) \<in> set (zip is ss)" for i s ss
  proof -
    obtain j where j: "j < length is" "j < length ss" "i = is ! j" "s = ss ! j"
      using m by (auto simp: set_zip)
    with arg_cong [OF E'(3) [OF r], of "\<lambda>xs. xs ! j"] show ?thesis by simp
  qed
  with E'(1,2) show ?thesis by (cases r) (auto intro!: growsI [of k sv' E' S])
qed

lemmas grows_calls = grows_create_event grows_create_events grows_get_event grows_get_event_id
  grows_create_key grows_get_key grows_get_key_name

lemma run_op_grows:
  assumes "engine_ok k" "service_ok k sv E S" "valid_op op" and "run_op k op sv = (ans, sv')"
  shows "grows k sv' E S (event_facts (op, ans)) (key_facts (op, ans))"
proof -
  have none: "event_facts (GetOrCreateKey t n, a) = []" "event_facts (GetKey t n, a) = []"
    "event_facts (GetKeyName s, a) = []" "key_facts (GetOrCreateEvent i, a) = []"
    "key_facts (GetOrCreateEvents is, a) = []" "key_facts (GetEvent i, a) = []" "key_facts (GetEventId s, a) = []"
    for t n s i "is" a by (cases a; simp)+
  show ?thesis using assms
    by (cases op) (auto simp: answer_with_def none intro!: grows_calls
        simp del: event_facts.simps key_facts.simps intro: prod.collapse [symmetric])
qed

section \<open>Runs\<close>

text \<open>
  A run of the server: it starts on an empty database, answers calls, loses cache entries and
  restarts at any time. The trace records the calls and their answers.
\<close>

definition empty_store :: "'n short_store" where
  "empty_store = \<lparr>event_forward = Map.empty, event_reverse = Map.empty, state_key_forward = Map.empty,
     state_key_reverse = Map.empty, counter_record = None\<rparr>"

definition evicted :: "'n short_service \<Rightarrow> 'n short_service \<Rightarrow> bool" where
  "evicted sv sv' \<longleftrightarrow> ss_adapter sv' = ss_adapter sv \<and>
     ss_events sv' \<subseteq>\<^sub>m ss_events sv \<and> ss_event_ids sv' \<subseteq>\<^sub>m ss_event_ids sv \<and>
     ss_keys sv' \<subseteq>\<^sub>m ss_keys sv \<and> ss_key_names sv' \<subseteq>\<^sub>m ss_key_names sv"

inductive short_run ::
  "'n engine \<Rightarrow> 'n short_service \<Rightarrow> (short_op \<times> short_answer) list \<Rightarrow> bool" for k
where
  start: "service_build empty_store = Inr sv \<Longrightarrow> short_run k sv []"
| call: "short_run k sv tr \<Longrightarrow> valid_op op \<Longrightarrow> run_op k op sv = (ans, sv') \<Longrightarrow> short_run k sv' (tr @ [(op, ans)])"
| evict: "short_run k sv tr \<Longrightarrow> evicted sv sv' \<Longrightarrow> short_run k sv' tr"
| restart: "short_run k sv tr \<Longrightarrow> service_build (sa_store (ss_adapter sv)) = Inr sv' \<Longrightarrow> short_run k sv' tr"

lemma service_ok_evicted:
  assumes ok: "service_ok k sv E S" and ev: "evicted sv sv'"
  shows "service_ok k sv' E S"
proof -
  have "ss_events sv' \<subseteq>\<^sub>m E" "ss_keys sv' \<subseteq>\<^sub>m S" "ss_adapter sv' = ss_adapter sv"
    using ok ev by (auto simp: service_ok_def evicted_def intro: map_le_trans)
  moreover have "E i = Some s" if "ss_event_ids sv' s = Some i" for i s
    using ok ev that map_leD [of "ss_event_ids sv'"] unfolding service_ok_def evicted_def by blast
  moreover have "S p = Some s" if "ss_key_names sv' s = Some p" for p s
    using ok ev that map_leD [of "ss_key_names sv'"] unfolding service_ok_def evicted_def by blast
  ultimately show ?thesis using ok by (simp add: service_ok_def)
qed

lemma service_ok_restart:
  assumes "service_ok k sv E S"
  shows "\<exists>sv'. service_build (sa_store (ss_adapter sv)) = Inr sv' \<and> service_ok k sv' E S"
  using service_okD(1) [OF assms] by (simp add: service_build_def adapter_ok_def service_ok_def)

lemma short_run_table:
  assumes ok: "engine_ok k" and "short_run k sv tr"
  shows "\<exists>E S. service_ok k sv E S \<and> (\<forall>x\<in>set tr. (\<forall>(i, s)\<in>set (event_facts x). E i = Some s) \<and>
    (\<forall>(p, s)\<in>set (key_facts x). S p = Some s))"
  using assms(2)
proof (induction rule: short_run.induct)
  case (start sv)
  have "service_ok k sv Map.empty Map.empty" using start
    by (auto simp: service_build_def empty_store_def adapter_new_def service_ok_def adapter_ok_def
        represents_def represents_events_def represents_keys_def)
  then show ?case by (intro exI [of _ Map.empty]) simp
next
  case (call sv tr op ans sv')
  obtain E S where old: "service_ok k sv E S" "\<forall>x\<in>set tr. (\<forall>(i, s)\<in>set (event_facts x). E i = Some s) \<and>
    (\<forall>(p, s)\<in>set (key_facts x). S p = Some s)" using call.IH by blast
  obtain E' S' where new: "service_ok k sv' E' S'" "E \<subseteq>\<^sub>m E'" "S \<subseteq>\<^sub>m S'"
    "\<forall>(i, s)\<in>set (event_facts (op, ans)). E' i = Some s" "\<forall>(p, s)\<in>set (key_facts (op, ans)). S' p = Some s"
    using run_op_grows [OF ok old(1) call.hyps(2,3)] unfolding grows_def by blast
  show ?case using old(2) new map_leD [OF new(2)] map_leD [OF new(3)]
    by (intro exI [of _ E'] exI [of _ S']) fastforce
next
  case (evict sv tr sv')
  then show ?case using service_ok_evicted by blast
next
  case (restart sv tr sv')
  then show ?case using service_ok_restart by fastforce
qed

definition events_learned :: "(short_op \<times> short_answer) list \<Rightarrow> (bytes \<times> u64) list" where
  "events_learned tr = concat (map event_facts tr)"

definition keys_learned :: "(short_op \<times> short_answer) list \<Rightarrow> ((bytes \<times> bytes) \<times> u64) list" where
  "keys_learned tr = concat (map key_facts tr)"

lemma short_run_learned:
  assumes "engine_ok k" and "short_run k sv tr"
  shows "\<exists>E S. service_ok k sv E S \<and> (\<forall>i s. (i, s) \<in> set (events_learned tr) \<longrightarrow> E i = Some s) \<and>
    (\<forall>p s. (p, s) \<in> set (keys_learned tr) \<longrightarrow> S p = Some s)"
proof -
  obtain E S where ES: "service_ok k sv E S" "\<forall>x\<in>set tr. (\<forall>(i, s)\<in>set (event_facts x). E i = Some s) \<and>
    (\<forall>(p, s)\<in>set (key_facts x). S p = Some s)" using short_run_table [OF assms] by blast
  show ?thesis
    by (intro exI [of _ E] exI [of _ S] conjI ES(1) allI impI)
      (use ES(2) in \<open>fastforce simp: events_learned_def keys_learned_def\<close>)+
qed

text \<open>
  C13: In every run of the server, whatever it caches, forgets and restarts, all answers about
  short identifiers are consistent: two answers name the same event exactly when they name the
  same number, likewise for state keys, no number ever stands for an event and for a state key,
  and the server can always restart on its database.
\<close>
theorem short_ids_consistent:
  assumes "engine_ok k" and "short_run k sv tr"
  shows "((i, s) \<in> set (events_learned tr) \<and> (j, t) \<in> set (events_learned tr) \<longrightarrow> (i = j \<longleftrightarrow> s = t)) \<and>
    ((p, s) \<in> set (keys_learned tr) \<and> (q, t) \<in> set (keys_learned tr) \<longrightarrow> (p = q \<longleftrightarrow> s = t)) \<and>
    ((i, s) \<in> set (events_learned tr) \<and> (q, t) \<in> set (keys_learned tr) \<longrightarrow> s \<noteq> t) \<and>
    (\<exists>sv'. service_build (sa_store (ss_adapter sv)) = Inr sv')"
proof -
  obtain E S where ES: "service_ok k sv E S"
    "\<And>i s. (i, s) \<in> set (events_learned tr) \<Longrightarrow> E i = Some s"
    "\<And>p s. (p, s) \<in> set (keys_learned tr) \<Longrightarrow> S p = Some s"
    using short_run_learned [OF assms] by blast
  have rep: "represents_events k (sa_store (ss_adapter sv)) (sa_counter (ss_adapter sv)) E"
    "represents_keys k (sa_store (ss_adapter sv)) (sa_counter (ss_adapter sv)) S"
    "\<And>i p s. E i = Some s \<Longrightarrow> S p \<noteq> Some s"
    using service_okD(1) [OF ES(1)] by (auto simp: adapter_ok_def represents_def)
  have "(i = j) = (s = t)" if "(i, s) \<in> set (events_learned tr) \<and> (j, t) \<in> set (events_learned tr)"
    using that ES(2) represents_eventsD(5) [OF rep(1)] by (metis option.inject)
  moreover have "(p = q) = (s = t)" if "(p, s) \<in> set (keys_learned tr) \<and> (q, t) \<in> set (keys_learned tr)"
    using that ES(3) represents_keys_inj [OF rep(2)] by (metis option.inject)
  moreover have "s \<noteq> t" if "(i, s) \<in> set (events_learned tr) \<and> (q, t) \<in> set (keys_learned tr)"
    using that ES(2,3) rep(3) by blast
  ultimately show ?thesis using service_ok_restart [OF ES(1)] by blast
qed

text \<open>A table entry is found, through a cache or not.\<close>

lemma known_event:
  assumes ok: "service_ok k sv E S" and i: "E i = Some s"
  shows "fst (get_shorteventid k i sv) = Inr s"
    and "utf8_valid i \<and> is_event_id k i \<Longrightarrow> fst (get_eventid_from_short k s sv) = Inr i"
proof -
  note a = service_okD(1) [OF ok]
  show "fst (get_shorteventid k i sv) = Inr s"
    using service_okD(2) [OF ok, of i] i
    by (auto simp: get_shorteventid_def adapter_answers(1) [OF a] split: option.splits)
  have inj: "j = i" if "E j = Some s" for j
    using a i that represents_eventsD(5) by (auto simp: adapter_ok_def represents_def)
  have "adapter_get_event_id k (ss_adapter sv) s = Some i" using i by (simp add: adapter_answers(2) [OF a])
  then show "fst (get_eventid_from_short k s sv) = Inr i" if "utf8_valid i \<and> is_event_id k i"
    using that inj service_okD(3) [OF ok, of s]
    by (auto simp: get_eventid_from_short_def parse_event_id_def split: option.splits)
qed

lemma create_event_succeeds:
  assumes ok: "engine_ok k" "service_ok k sv E S" and room: "unat (sa_counter (ss_adapter sv)) < 2 ^ 64 - 1"
  obtains s sv' where "get_or_create_shorteventid k i sv = (Inr s, sv')"
proof -
  note a = service_okD(1) [OF ok(2)]
  let ?n = "sa_counter (ss_adapter sv)"
  have fwd: "event_forward (sa_store (ss_adapter sv)) (forward_event_node k i) = map_option (\<lambda>s. with_prefix s i) (E i)"
    using a represents_eventsD(1) by (auto simp: adapter_ok_def represents_def)
  have "u64_checked_add ?n 1 = Some (?n + 1)" using room by (simp add: u64_checked_add_def)
  then have "\<exists>p. allocate_events k (ss_adapter sv) [i] = Inr p"
    by (cases "E i") (simp_all add: allocate_events_def allocate_event_def fwd Let_def)
  then show ?thesis using that
    by (cases "ss_events sv i") (auto simp: get_or_create_shorteventid_def)
qed

text \<open>
  In every run a short identifier can be had for every event as long as the counter has not
  reached its maximum, the service then answers the lookup of the event with it and the lookup
  of the number with the event, and it keeps doing so for the rest of the run.
\<close>
lemma short_ids_available:
  assumes "engine_ok k" and "short_run k sv tr"
  shows "((i, s) \<in> set (events_learned tr) \<longrightarrow> fst (get_shorteventid k i sv) = Inr s \<and>
      (utf8_valid i \<and> is_event_id k i \<longrightarrow> fst (get_eventid_from_short k s sv) = Inr i)) \<and>
    (unat (sa_counter (ss_adapter sv)) < 2 ^ 64 - 1 \<longrightarrow> (\<exists>s sv'. get_or_create_shorteventid k i sv = (Inr s, sv') \<and>
      short_run k sv' (tr @ [(GetOrCreateEvent i, Shorts [s])])))"
proof -
  obtain E S where ES: "service_ok k sv E S"
    "\<And>i s. (i, s) \<in> set (events_learned tr) \<Longrightarrow> E i = Some s"
    using short_run_learned [OF assms] by blast
  have "\<exists>s sv'. get_or_create_shorteventid k i sv = (Inr s, sv') \<and>
      short_run k sv' (tr @ [(GetOrCreateEvent i, Shorts [s])])" if room: "unat (sa_counter (ss_adapter sv)) < 2 ^ 64 - 1"
  proof -
    obtain s sv' where run: "get_or_create_shorteventid k i sv = (Inr s, sv')"
      using create_event_succeeds [OF assms(1) ES(1) room] .
    then have "run_op k (GetOrCreateEvent i) sv = (Shorts [s], sv')" by (simp add: answer_with_def)
    from short_run.call [OF assms(2) _ this] run show ?thesis by simp
  qed
  with known_event [OF ES(1), of i s] ES(2) show ?thesis by blast
qed

section \<open>Witnesses\<close>

definition sample_engine :: "bytes engine" where
  "sample_engine = \<lparr>derive_id = (\<lambda>d b. b), event_record_id = (\<lambda>i. i), is_event_id = (\<lambda>i. i \<noteq> [])\<rparr>"

definition sample_service :: "bytes short_service" where
  "sample_service = \<lparr>ss_adapter = \<lparr>sa_store = empty_store, sa_counter = 0\<rparr>, ss_events = Map.empty,
     ss_event_ids = Map.empty, ss_keys = Map.empty, ss_key_names = Map.empty\<rparr>"

definition sample_calls :: "short_op list" where
  "sample_calls = [GetOrCreateEvent [36], GetOrCreateEvent [37], GetEvent [36]]"

fun run_ops :: "'n engine \<Rightarrow> short_op list \<Rightarrow> 'n short_service \<Rightarrow> short_answer list \<times> 'n short_service" where
  "run_ops k [] sv = ([], sv)"
| "run_ops k (op # ops) sv =
     (let (a, sv') = run_op k op sv; (as, sv'') = run_ops k ops sv' in (a # as, sv''))"

lemma run_ops_run:
  "short_run k sv tr \<Longrightarrow> \<forall>op\<in>set ops. valid_op op \<Longrightarrow> run_ops k ops sv = (as, sv') \<Longrightarrow>
     short_run k sv' (tr @ zip ops as)"
proof (induction ops arbitrary: sv tr as sv')
  case (Cons op ops)
  obtain a sv1 where one: "run_op k op sv = (a, sv1)" by fastforce
  obtain as1 sv2 where two: "run_ops k ops sv1 = (as1, sv2)" by fastforce
  have "short_run k sv1 (tr @ [(op, a)])" using Cons.prems(1,2) one by (auto intro: short_run.call)
  from Cons.IH [OF this _ two] Cons.prems(2,3) one two show ?case by auto
qed simp

lemma sample_engine_ok: "engine_ok sample_engine"
  by (simp add: engine_ok_def sample_engine_def inj_def)

lemma sample_answers:
  "fst (run_ops sample_engine sample_calls sample_service) = [Shorts [1], Shorts [2], Shorts [1]]"
  by (simp add: sample_calls_def sample_service_def sample_engine_def empty_store_def answer_with_def get_or_create_shorteventid_def get_shorteventid_def get_eventid_from_short_def allocate_events_def allocate_event_def forward_event_node_def u64_checked_add_def commit_def cache_event_def reverse_node_def Let_def)

lemma sample_run:
  "short_run sample_engine (snd (run_ops sample_engine sample_calls sample_service))
     (zip sample_calls [Shorts [1], Shorts [2], Shorts [1]])"
proof -
  have "short_run sample_engine sample_service []"
    by (rule short_run.start) (simp add: service_build_def adapter_new_def empty_store_def sample_service_def)
  from run_ops_run [OF this, of sample_calls] sample_answers show ?thesis
    by (cases "run_ops sample_engine sample_calls sample_service") (simp add: sample_calls_def)
qed

theorem short_ids_consistent_witness:
  "(([36], 1) \<in> set (events_learned (zip sample_calls [Shorts [1], Shorts [2], Shorts [1]])) \<and>
    ([37], 2) \<in> set (events_learned (zip sample_calls [Shorts [1], Shorts [2], Shorts [1]]))) \<and>
   (([36] :: bytes) = [37] \<longleftrightarrow> (1 :: u64) = 2)"
proof -
  have "([36], 1) \<in> set (events_learned (zip sample_calls [Shorts [1], Shorts [2], Shorts [1]])) \<and>
    ([37], 2) \<in> set (events_learned (zip sample_calls [Shorts [1], Shorts [2], Shorts [1]]))"
    by (simp add: events_learned_def sample_calls_def)
  then show ?thesis using short_ids_consistent [OF sample_engine_ok sample_run, of "[36]" 1 "[37]" 2] by blast
qed

theorem short_ids_available_witness:
  "fst (get_shorteventid sample_engine [36] (snd (run_ops sample_engine sample_calls sample_service))) = Inr 1 \<and>
   fst (get_eventid_from_short sample_engine 1 (snd (run_ops sample_engine sample_calls sample_service))) = Inr [36]"
proof -
  have "([36], 1) \<in> set (events_learned (zip sample_calls [Shorts [1], Shorts [2], Shorts [1]]))"
    by (simp add: events_learned_def sample_calls_def)
  moreover have "utf8_valid [36]" "is_event_id sample_engine [36]" by (simp_all add: sample_engine_def)
  ultimately show ?thesis using short_ids_available [OF sample_engine_ok sample_run, of "[36]" 1] by blast
qed

text \<open>
  Inside one batch the check for collisions of record identifiers is blind: the loop reads the
  committed store only, so of two new events with the same record identifier the second
  silently takes over the record of the first.
\<close>

lemma batch_collision_undetected:
  assumes "event_record_id k = (\<lambda>_. n)" and "adapter_new s = Inr a" and "event_forward s n = None"
    and "sa_counter a = 0" and "i \<noteq> j"
  shows "\<exists>a'. allocate_events k a [i, j] = Inr ([1, 2], a') \<and> adapter_get_event k a' i = Inr None"
proof -
  have "sa_store a = s" using assms(2) by (auto simp: adapter_new_def split: option.splits if_split_asm)
  with assms show ?thesis
    by (simp add: allocate_events_def allocate_event_def forward_event_node_def Let_def u64_checked_add_def
        commit_def adapter_get_event_def)
qed

end
