(* ===== verification/Visibility.thy ===== *)
theory Visibility
  imports Sample_Codec
begin

text \<open>
  Who may see an event and who may redact it: \<^verbatim>\<open>user_can_see_event\<close>, \<^verbatim>\<open>user_can_see_state_events\<close>,
  \<^verbatim>\<open>user_can_redact\<close> (\<^verbatim>\<open>service/rooms/state_accessor/user_can.rs\<close>), \<^verbatim>\<open>server_can_see_event\<close>
  (\<^verbatim>\<open>server_can.rs\<close>), and the state roots they consult (\<^verbatim>\<open>state.rs\<close>, \<^verbatim>\<open>room_state.rs\<close>, \<^verbatim>\<open>mod.rs\<close>).
  The services below (the timeline, the state trees, the membership caches) are a record of
  lookups, and every definition takes it as an argument; an error of a lookup is \<open>None\<close>.
\<close>

datatype history_visibility =
    HvInvited
  | HvJoined
  | HvShared
  | HvWorldReadable
  | HvCustom string

record pdu = event +
  pdu_origin :: "string option"

text \<open>
  What the other services answer: stored events, the state roots of events and rooms, the event
  under a key of a state root, the membership caches, and the decoders of contents.
\<close>

record ('r, 'v) view =
  vw_codec :: "'v codec"
  vw_pdu :: "event_id \<Rightarrow> pdu option"
  vw_short_known :: "event_id \<Rightarrow> bool"
  vw_root :: "event_id \<Rightarrow> 'r option"
  vw_empty_root :: "room_id \<Rightarrow> 'r option"
  vw_room_root :: "room_id \<Rightarrow> 'r option"
  vw_state :: "room_id \<Rightarrow> 'r \<Rightarrow> event_type \<Rightarrow> string \<Rightarrow> pdu option"
  vw_history :: "string \<Rightarrow> history_visibility option"
  vw_is_joined :: "user_id \<Rightarrow> room_id \<Rightarrow> bool"
  vw_once_joined :: "user_id \<Rightarrow> room_id \<Rightarrow> bool"
  vw_is_invited :: "user_id \<Rightarrow> room_id \<Rightarrow> bool"
  vw_membership :: "user_id \<Rightarrow> room_id \<Rightarrow> membership option"
  vw_server_in_room :: "string \<Rightarrow> room_id \<Rightarrow> bool"
  vw_users_once_joined :: "room_id \<Rightarrow> user_id list"
  vw_users_invited :: "room_id \<Rightarrow> user_id list"
  vw_bypass :: bool
  vw_server_name :: string
  vw_redact_other :: "power_levels \<Rightarrow> user_id \<Rightarrow> bool"
  vw_redact_own :: "power_levels \<Rightarrow> user_id \<Rightarrow> bool"

abbreviation RoomHistoryVisibility :: event_type where
  "RoomHistoryVisibility \<equiv> OtherType ''m.room.history_visibility''"

abbreviation RoomServerAcl :: event_type where
  "RoomServerAcl \<equiv> OtherType ''m.room.server_acl''"

section \<open>State roots\<close>

definition pdu_roothandle_after_event :: "('r, 'v) view \<Rightarrow> event_id \<Rightarrow> 'r option" where
  "pdu_roothandle_after_event vw event_id =
     (if vw_short_known vw event_id then vw_root vw event_id else None)"

definition pdu_roothandle_before_event :: "('r, 'v) view \<Rightarrow> event_id \<Rightarrow> 'r option" where
  "pdu_roothandle_before_event vw event_id =
     (case vw_pdu vw event_id of
        None \<Rightarrow> None
      | Some pdu \<Rightarrow>
          if ev_state_key pdu = None then pdu_roothandle_after_event vw event_id
          else
            case (ev_prev pdu, ev_room_id pdu) of
              ([], Some room_id) \<Rightarrow> vw_empty_root vw room_id
            | ([prev], _) \<Rightarrow>
                if \<not> vw_short_known vw prev then None
                else (case vw_root vw prev of
                        Some root_handle \<Rightarrow> Some root_handle
                      | None \<Rightarrow> pdu_roothandle_after_event vw event_id)
            | _ \<Rightarrow> pdu_roothandle_after_event vw event_id)"

definition state_get_content_hamt ::
  "('r, 'v) view \<Rightarrow> (string \<Rightarrow> 'a option) \<Rightarrow> room_id \<Rightarrow> 'r \<Rightarrow> event_type \<Rightarrow> string \<Rightarrow> 'a option" where
  "state_get_content_hamt vw decode room_id root event_type state_key =
     (case vw_state vw room_id root event_type state_key of
        None \<Rightarrow> None | Some pdu \<Rightarrow> decode (ev_content pdu))"

definition user_membership_hamt :: "('r, 'v) view \<Rightarrow> room_id \<Rightarrow> 'r \<Rightarrow> user_id \<Rightarrow> membership" where
  "user_membership_hamt vw room_id root user_id =
     (case state_get_content_hamt vw (c_member (vw_codec vw)) room_id root RoomMember user_id of
        None \<Rightarrow> Leave | Some m \<Rightarrow> m)"

definition user_was_joined_hamt :: "('r, 'v) view \<Rightarrow> room_id \<Rightarrow> 'r \<Rightarrow> user_id \<Rightarrow> bool" where
  "user_was_joined_hamt vw room_id root user_id \<longleftrightarrow> user_membership_hamt vw room_id root user_id = Join"

definition user_was_invited_hamt :: "('r, 'v) view \<Rightarrow> room_id \<Rightarrow> 'r \<Rightarrow> user_id \<Rightarrow> bool" where
  "user_was_invited_hamt vw room_id root user_id \<longleftrightarrow>
     (let s = user_membership_hamt vw room_id root user_id in s = Join \<or> s = Invite)"

definition user_membership_at_event :: "('r, 'v) view \<Rightarrow> event_id \<Rightarrow> room_id \<Rightarrow> user_id \<Rightarrow> membership" where
  "user_membership_at_event vw event_id room_id user_id =
     (case pdu_roothandle_before_event vw event_id of
        Some root \<Rightarrow> user_membership_hamt vw room_id root user_id
      | None \<Rightarrow> (case vw_membership vw user_id room_id of None \<Rightarrow> Leave | Some m \<Rightarrow> m))"

definition room_state_get :: "('r, 'v) view \<Rightarrow> room_id \<Rightarrow> event_type \<Rightarrow> string \<Rightarrow> pdu option" where
  "room_state_get vw room_id event_type state_key =
     (case vw_room_root vw room_id of
        None \<Rightarrow> None | Some root \<Rightarrow> vw_state vw room_id root event_type state_key)"

definition room_state_get_content ::
  "('r, 'v) view \<Rightarrow> (string \<Rightarrow> 'a option) \<Rightarrow> room_id \<Rightarrow> event_type \<Rightarrow> string \<Rightarrow> 'a option" where
  "room_state_get_content vw decode room_id event_type state_key =
     (case room_state_get vw room_id event_type state_key of
        None \<Rightarrow> None | Some pdu \<Rightarrow> decode (ev_content pdu))"

definition or_shared :: "history_visibility option \<Rightarrow> history_visibility" where
  "or_shared h = (case h of None \<Rightarrow> HvShared | Some v \<Rightarrow> v)"

definition history_at :: "('r, 'v) view \<Rightarrow> room_id \<Rightarrow> 'r \<Rightarrow> history_visibility" where
  "history_at vw room_id root =
     or_shared (state_get_content_hamt vw (vw_history vw) room_id root RoomHistoryVisibility '''')"

definition history_now :: "('r, 'v) view \<Rightarrow> room_id \<Rightarrow> history_visibility" where
  "history_now vw room_id =
     or_shared (room_state_get_content vw (vw_history vw) room_id RoomHistoryVisibility '''')"

definition is_world_readable :: "('r, 'v) view \<Rightarrow> room_id \<Rightarrow> bool" where
  "is_world_readable vw room_id \<longleftrightarrow>
     room_state_get_content vw (vw_history vw) room_id RoomHistoryVisibility '''' = Some HvWorldReadable"

section \<open>Users\<close>

definition user_can_see_event :: "('r, 'v) view \<Rightarrow> user_id \<Rightarrow> room_id \<Rightarrow> event_id \<Rightarrow> bool" where
  "user_can_see_event vw user_id room_id event_id =
     (if (case vw_pdu vw event_id of Some pdu \<Rightarrow> ev_sender pdu = user_id | None \<Rightarrow> False) then True
      else
        let currently_member = vw_is_joined vw user_id room_id;
            was_member = (currently_member \<or> vw_once_joined vw user_id room_id)
        in if currently_member \<and> vw_bypass vw \<and> c_user_server (vw_codec vw) user_id = vw_server_name vw
           then True
           else
             case pdu_roothandle_before_event vw event_id of
               None \<Rightarrow>
                 (case history_now vw room_id of
                    HvWorldReadable \<Rightarrow> True
                  | HvShared \<Rightarrow> was_member
                  | _ \<Rightarrow> False)
             | Some root_handle \<Rightarrow>
                 (case history_at vw room_id root_handle of
                    HvInvited \<Rightarrow> user_was_invited_hamt vw room_id root_handle user_id
                  | HvJoined \<Rightarrow> user_was_joined_hamt vw room_id root_handle user_id
                  | HvWorldReadable \<Rightarrow> True
                  | HvShared \<Rightarrow> was_member
                  | HvCustom _ \<Rightarrow> was_member))"

definition user_can_see_state_events :: "('r, 'v) view \<Rightarrow> user_id \<Rightarrow> room_id \<Rightarrow> bool" where
  "user_can_see_state_events vw user_id room_id =
     (if vw_is_joined vw user_id room_id then True
      else if vw_bypass vw \<and> vw_server_name vw = c_user_server (vw_codec vw) user_id then True
      else
        let was_member = vw_once_joined vw user_id room_id
        in case history_now vw room_id of
             HvWorldReadable \<Rightarrow> True
           | HvShared \<Rightarrow> was_member
           | HvInvited \<Rightarrow> vw_is_invited vw user_id room_id \<or> was_member
           | _ \<Rightarrow> False)"

datatype redact_error = RedactForbidden | RedactNoCreate | RedactBadCreate | RedactVersion

definition user_can_redact ::
  "('r, 'v) view \<Rightarrow> event_id \<Rightarrow> user_id \<Rightarrow> room_id \<Rightarrow> bool \<Rightarrow> (redact_error, bool) result" where
  "user_can_redact vw redacts sender room_id federation =
     (let c = vw_codec vw; redacting_event = vw_pdu vw redacts;
          has_kind = (\<lambda>t. case redacting_event of Some pdu \<Rightarrow> ev_kind pdu = t | None \<Rightarrow> False)
      in if has_kind RoomCreate then Inl RedactForbidden
         else if has_kind RoomServerAcl then Inl RedactForbidden
         else
           try_res (ok_or (room_state_get vw room_id RoomCreate '''') RedactNoCreate) (\<lambda>room_create.
           try_res (ok_or (c_create c (ev_content room_create)) RedactBadCreate) (\<lambda>create_content.
           case room_version_new (cc_room_version create_content) of
             Inl _ \<Rightarrow> Inl RedactVersion
           | Inr room_features \<Rightarrow>
               if explicitly_privilege_room_creators room_features \<and>
                  (sender = ev_sender room_create \<or>
                   (case cc_additional_creators create_content of Some cs \<Rightarrow> sender \<in> set cs | None \<Rightarrow> False))
               then Inr True
               else
                 case room_state_get_content vw (c_power_levels c) room_id RoomPowerLevels '''' of
                   Some pl \<Rightarrow>
                     Inr (vw_redact_other vw pl sender \<or>
                          vw_redact_own vw pl sender \<and>
                          (case redacting_event of
                             Some pdu \<Rightarrow>
                               if federation then c_user_server c (ev_sender pdu) = c_user_server c sender
                               else ev_sender pdu = sender
                           | None \<Rightarrow> False))
                 | None \<Rightarrow>
                     Inr (ev_sender room_create = sender \<or>
                          (case redacting_event of Some pdu \<Rightarrow> ev_sender pdu = sender | None \<Rightarrow> False)))))"

section \<open>Servers\<close>

definition event_concerns_server :: "'v codec \<Rightarrow> string \<Rightarrow> pdu \<Rightarrow> bool" where
  "event_concerns_server c origin pdu \<longleftrightarrow>
     c_user_server c (ev_sender pdu) = origin \<or> pdu_origin pdu = Some origin \<or> ev_kind pdu = RoomCreate \<or>
     ev_kind pdu = RoomMember \<and>
     (case ev_state_key pdu of
        Some k \<Rightarrow> c_valid_user c k \<and> c_user_server c k = origin
      | None \<Rightarrow> False)"

definition server_can_see_event :: "('r, 'v) view \<Rightarrow> string \<Rightarrow> room_id \<Rightarrow> event_id \<Rightarrow> bool" where
  "server_can_see_event vw origin room_id event_id =
     (let c = vw_codec vw
      in if c_event_server c event_id = Some origin then True
         else if (case vw_pdu vw event_id of Some pdu \<Rightarrow> event_concerns_server c origin pdu | None \<Rightarrow> False)
         then True
         else if is_world_readable vw room_id then True
         else
           let server_in_room = vw_server_in_room vw origin room_id
           in if server_in_room \<and>
                 (case vw_room_root vw room_id of
                    Some room_root \<Rightarrow> history_at vw room_id room_root = HvShared
                  | None \<Rightarrow> False)
              then True
              else
                case pdu_roothandle_before_event vw event_id of
                  None \<Rightarrow>
                    (case vw_room_root vw room_id of
                       None \<Rightarrow> False
                     | Some room_root \<Rightarrow>
                         (case history_at vw room_id room_root of
                            HvWorldReadable \<Rightarrow> True
                          | HvShared \<Rightarrow> server_in_room
                          | _ \<Rightarrow> False))
                | Some root_handle \<Rightarrow>
                    (case history_at vw room_id root_handle of
                       HvWorldReadable \<Rightarrow> True
                     | HvShared \<Rightarrow> server_in_room
                     | HvCustom _ \<Rightarrow> server_in_room
                     | HvInvited \<Rightarrow>
                         list_ex (\<lambda>member. c_user_server c member = origin \<and>
                             user_was_invited_hamt vw room_id root_handle member)
                           (vw_users_once_joined vw room_id @ vw_users_invited vw room_id)
                     | HvJoined \<Rightarrow>
                         list_ex (\<lambda>member. c_user_server c member = origin \<and>
                             user_was_joined_hamt vw room_id root_handle member)
                           (vw_users_once_joined vw room_id)))"

section \<open>Outsiders\<close>

text \<open>
  The visibility that holds for an event: that of the state before it, or the current one when
  no state is known for it.
\<close>

definition event_history :: "('r, 'v) view \<Rightarrow> room_id \<Rightarrow> event_id \<Rightarrow> history_visibility" where
  "event_history vw room_id event_id =
     (case pdu_roothandle_before_event vw event_id of
        Some root \<Rightarrow> history_at vw room_id root | None \<Rightarrow> history_now vw room_id)"

text \<open>A user was in the room at some time that the server knows of.\<close>

definition user_was_inside :: "('r, 'v) view \<Rightarrow> user_id \<Rightarrow> room_id \<Rightarrow> event_id \<Rightarrow> bool" where
  "user_was_inside vw u room_id event_id \<longleftrightarrow>
     vw_is_joined vw u room_id \<or> vw_once_joined vw u room_id \<or>
     (\<exists>root. pdu_roothandle_before_event vw event_id = Some root \<and>
        user_membership_hamt vw room_id root u \<in> {Join, Invite})"

lemma history_at_now:
  "vw_room_root vw room_id = Some root \<Longrightarrow> history_at vw room_id root = history_now vw room_id"
  by (simp add: history_at_def history_now_def room_state_get_content_def state_get_content_hamt_def
      room_state_get_def)

lemma is_world_readable_now: "is_world_readable vw room_id \<longleftrightarrow> history_now vw room_id = HvWorldReadable"
  by (auto simp: is_world_readable_def history_now_def or_shared_def split: option.splits)

lemma hamt_membership:
  "user_was_joined_hamt vw room_id root u \<Longrightarrow> user_membership_hamt vw room_id root u \<in> {Join, Invite}"
  "user_was_invited_hamt vw room_id root u \<Longrightarrow> user_membership_hamt vw room_id root u \<in> {Join, Invite}"
  by (auto simp: user_was_joined_hamt_def user_was_invited_hamt_def Let_def)

lemma user_sees:
  assumes "user_can_see_event vw u room_id event_id"
  shows "(\<exists>pdu. vw_pdu vw event_id = Some pdu \<and> ev_sender pdu = u) \<or>
    event_history vw room_id event_id = HvWorldReadable \<or> user_was_inside vw u room_id event_id"
proof (rule ccontr)
  assume no: "\<not> ?thesis"
  then have out: "\<not> vw_is_joined vw u room_id" "\<not> vw_once_joined vw u room_id"
    by (auto simp: user_was_inside_def)
  show False
  proof (cases "pdu_roothandle_before_event vw event_id")
    case None
    with assms no out show False
      by (auto simp: user_can_see_event_def event_history_def Let_def
          split: option.splits history_visibility.splits if_split_asm)
  next
    case (Some root)
    with no have "\<not> user_was_joined_hamt vw room_id root u" "\<not> user_was_invited_hamt vw room_id root u"
      using hamt_membership [of vw room_id root u] by (auto simp: user_was_inside_def)
    with Some assms no out show False
      by (auto simp: user_can_see_event_def event_history_def Let_def
          split: option.splits history_visibility.splits if_split_asm)
  qed
qed

lemma server_sees:
  assumes "server_can_see_event vw origin room_id event_id"
  shows "c_event_server (vw_codec vw) event_id = Some origin \<or>
    (\<exists>pdu. vw_pdu vw event_id = Some pdu \<and> event_concerns_server (vw_codec vw) origin pdu) \<or>
    history_now vw room_id = HvWorldReadable \<or> event_history vw room_id event_id = HvWorldReadable \<or>
    vw_server_in_room vw origin room_id \<or>
    (\<exists>u. c_user_server (vw_codec vw) u = origin \<and> user_was_inside vw u room_id event_id)"
proof (rule ccontr)
  assume no: "\<not> ?thesis"
  note defs = server_can_see_event_def event_history_def is_world_readable_now Let_def
  show False
  proof (cases "pdu_roothandle_before_event vw event_id")
    case None
    with assms no show False
      by (auto simp: defs history_at_now split: option.splits history_visibility.splits if_split_asm)
  next
    case (Some root)
    have "\<not> user_was_joined_hamt vw room_id root u \<and> \<not> user_was_invited_hamt vw room_id root u"
      if "c_user_server (vw_codec vw) u = origin" for u
      using hamt_membership [of vw room_id root u] no that Some by (auto simp: user_was_inside_def)
    with Some assms no show False
      by (auto simp: defs list_ex_iff split: option.splits history_visibility.splits if_split_asm)
  qed
qed

text \<open>
  C14: History is hidden from outsiders. A user who did not send the event, is not and never was
  joined, and was neither joined nor invited when it was sent, sees it only if it is world
  readable. A server that the event does not concern, that is not in the room and none of
  whose users was ever inside, sees it only if the event or the room is world readable.
\<close>
theorem history_hidden_from_outsiders:
  assumes "event_history vw room_id event_id \<noteq> HvWorldReadable"
  shows "(\<not> user_was_inside vw u room_id event_id \<and>
      (\<forall>pdu. vw_pdu vw event_id = Some pdu \<longrightarrow> ev_sender pdu \<noteq> u) \<longrightarrow>
      \<not> user_can_see_event vw u room_id event_id) \<and>
    (history_now vw room_id \<noteq> HvWorldReadable \<and> \<not> vw_server_in_room vw origin room_id \<and>
      (\<forall>u. c_user_server (vw_codec vw) u = origin \<longrightarrow> \<not> user_was_inside vw u room_id event_id) \<and>
      c_event_server (vw_codec vw) event_id \<noteq> Some origin \<and>
      (\<forall>pdu. vw_pdu vw event_id = Some pdu \<longrightarrow> \<not> event_concerns_server (vw_codec vw) origin pdu) \<longrightarrow>
      \<not> server_can_see_event vw origin room_id event_id)"
  using assms user_sees [of vw u room_id event_id] server_sees [of vw origin room_id event_id] by blast

section \<open>Changes of the current visibility\<close>

lemma pdu_root_room_root [simp]:
  "pdu_roothandle_before_event (vw\<lparr>vw_room_root := f\<rparr>) = pdu_roothandle_before_event vw"
  by (simp add: fun_eq_iff pdu_roothandle_before_event_def pdu_roothandle_after_event_def
      split: option.splits list.splits)

lemma history_at_room_root [simp]:
  "history_at (vw\<lparr>vw_room_root := f\<rparr>) = history_at vw"
  "user_membership_hamt (vw\<lparr>vw_room_root := f\<rparr>) = user_membership_hamt vw"
  by (simp_all add: fun_eq_iff history_at_def user_membership_hamt_def state_get_content_hamt_def)

lemma user_can_see_event_room_root:
  assumes "pdu_roothandle_before_event vw event_id = Some root"
  shows "user_can_see_event (vw\<lparr>vw_room_root := f\<rparr>) u room_id event_id = user_can_see_event vw u room_id event_id"
  using assms
  by (simp add: user_can_see_event_def user_was_joined_hamt_def user_was_invited_hamt_def Let_def
      cong: option.case_cong history_visibility.case_cong)

text \<open>
  A room of the server \<open>x\<close> in which a message was sent while only joined members could see it;
  later a user of the server \<open>y\<close> joined. The current state is the argument.
\<close>

definition sample_view :: "nat \<Rightarrow> (nat, json) view" where
  "sample_view now =
     \<lparr>vw_codec = sample_codec,
      vw_pdu = (\<lambda>i. if i = ''$e'' then Some (event.extend (sample_event ''$e'' ''@a:x'' (OtherType ''m'') None '''' [])
                  \<lparr>pdu_origin = None\<rparr>) else None),
      vw_short_known = (\<lambda>i. True), vw_root = (\<lambda>i. Some 0), vw_empty_root = (\<lambda>r. None),
      vw_room_root = (\<lambda>r. Some now),
      vw_state = (\<lambda>r root t k.
        if t = RoomHistoryVisibility
        then Some (event.extend (sample_event ''$h'' ''@a:x'' t (Some k) (if root = 0 then ''joined'' else ''shared'') [])
                  \<lparr>pdu_origin = None\<rparr>)
        else None),
      vw_history = (\<lambda>s. if s = ''joined'' then Some HvJoined else if s = ''shared'' then Some HvShared else None),
      vw_is_joined = (\<lambda>u r. u = ''@b:y''), vw_once_joined = (\<lambda>u r. u = ''@b:y''),
      vw_is_invited = (\<lambda>u r. False), vw_membership = (\<lambda>u r. None), vw_server_in_room = (\<lambda>s r. s = ''y''),
      vw_users_once_joined = (\<lambda>r. [''@b:y'']), vw_users_invited = (\<lambda>r. []), vw_bypass = False,
      vw_server_name = ''x'', vw_redact_other = (\<lambda>pl u. False), vw_redact_own = (\<lambda>pl u. False)\<rparr>"

lemma sample_view_now: "sample_view 1 = (sample_view 0)\<lparr>vw_room_root := \<lambda>r. Some 1\<rparr>"
  by (simp add: sample_view_def)

lemma sample_view_answers:
  "pdu_roothandle_before_event (sample_view 0) ''$e'' = Some 0"
  "event_history (sample_view 1) ''!r'' ''$e'' = HvJoined"
  "\<not> server_can_see_event (sample_view 0) ''y'' ''!r'' ''$e''"
  "server_can_see_event (sample_view 1) ''y'' ''!r'' ''$e''"
  "\<not> user_can_see_event (sample_view 0) ''@b:y'' ''!r'' ''$e''"
  by code_simp+

text \<open>
  What a user may see of an event with known state does not change when the visibility of
  the room is changed afterwards. What a server may see does: a message sent while only joined
  members could see it is withheld from a server that came later, and given to it as soon as
  the current visibility of the room is set to shared.
\<close>
lemma visibility_change_is_retroactive_for_servers:
  assumes "pdu_roothandle_before_event vw event_id = Some root"
  shows "user_can_see_event (vw\<lparr>vw_room_root := f\<rparr>) u room_id event_id = user_can_see_event vw u room_id event_id \<and>
    event_history (sample_view 1) ''!r'' ''$e'' = HvJoined \<and>
    \<not> server_can_see_event (sample_view 0) ''y'' ''!r'' ''$e'' \<and>
    server_can_see_event ((sample_view 0)\<lparr>vw_room_root := \<lambda>r. Some 1\<rparr>) ''y'' ''!r'' ''$e''"
  unfolding sample_view_now [symmetric] using user_can_see_event_room_root [OF assms] sample_view_answers by blast

theorem visibility_change_is_retroactive_for_servers_witness:
  "\<not> user_can_see_event ((sample_view 0)\<lparr>vw_room_root := \<lambda>r. Some 1\<rparr>) ''@b:y'' ''!r'' ''$e''"
  using visibility_change_is_retroactive_for_servers [OF sample_view_answers(1), of "\<lambda>r. Some 1" "''@b:y''" "''!r''"]
    sample_view_answers(5) by simp

theorem history_hidden_from_outsiders_witness:
  "\<not> user_can_see_event (sample_view 0) ''@c:z'' ''!r'' ''$e'' \<and>
   \<not> server_can_see_event (sample_view 0) ''z'' ''!r'' ''$e''"
proof -
  have joined: "event_history (sample_view 0) ''!r'' ''$e'' = HvJoined"
    "history_now (sample_view 0) ''!r'' = HvJoined" by code_simp+
  have root: "pdu_roothandle_before_event (sample_view 0) ''$e'' = Some 0" by code_simp
  have none: "user_membership_hamt (sample_view 0) ''!r'' 0 u = Leave" for u
    by (simp add: user_membership_hamt_def state_get_content_hamt_def sample_view_def)
  have server: "c_user_server (vw_codec (sample_view 0)) ''@b:y'' = ''y''" by code_simp
  have outside: "\<not> user_was_inside (sample_view 0) u ''!r'' ''$e''"
    if "c_user_server (vw_codec (sample_view 0)) u = ''z''" for u
  proof -
    have "u \<noteq> ''@b:y''" using that server by auto
    then show ?thesis using root none by (auto simp: user_was_inside_def) (simp_all add: sample_view_def)
  qed
  have c: "\<not> user_was_inside (sample_view 0) ''@c:z'' ''!r'' ''$e''" by (rule outside) code_simp
  have pdu: "vw_pdu (sample_view 0) ''$e'' = Some pdu \<Longrightarrow>
      ev_sender pdu = ''@a:x'' \<and> \<not> event_concerns_server (vw_codec (sample_view 0)) ''z'' pdu" for pdu
    by (auto simp: sample_view_def sample_event_def event.defs event_concerns_server_def sample_codec_def
        sample_server_def)
  have e: "c_event_server (vw_codec (sample_view 0)) ''$e'' \<noteq> Some ''z''"
    "\<not> vw_server_in_room (sample_view 0) ''z'' ''!r''" by code_simp+
  show ?thesis
    using history_hidden_from_outsiders [of "sample_view 0" "''!r''" "''$e''" "''@c:z''" "''z''"] joined outside c pdu e
    by auto
qed

end
