(* ===== verification/Auth_Chain.thy ===== *)
theory Auth_Chain
  imports Auth_Graph Byte_Order
begin

text \<open>
  The auth chain service (\<^verbatim>\<open>service/rooms/auth_chain\<close>): the two-level cache of chains, the
  breadth-first walk over stored auth edges with its fallback to the events themselves, and
  the chain of several events. Every round of the walk that queues anything finds something new,
  so the walk ends.
\<close>

section \<open>The cache\<close>

text \<open>
  The memory cache is a least-recently-used cache of another package, and the serialisation of
  the bitmaps comes from another one; both are arguments, and so is the order in which a hash set
  is iterated (from the order of insertion). A bitmap is the set of its members.
\<close>

record 'c chain_lib =
  lru_get :: "u64 \<times> u64 \<Rightarrow> 'c \<Rightarrow> u64 set option \<times> 'c"
  lru_insert :: "u64 \<times> u64 \<Rightarrow> u64 set \<Rightarrow> 'c \<Rightarrow> 'c"
  lru_empty :: 'c
  hash_iter :: "event_id list \<Rightarrow> event_id list"
  bitmap_serialize :: "u64 set \<Rightarrow> byte list"
  bitmap_deserialize :: "byte list \<Rightarrow> u64 set option"

record 'c chain_data =
  cd_ram :: 'c
  cd_db :: "byte list \<Rightarrow> byte list option"

definition pack_key :: "u64 \<Rightarrow> u64 \<Rightarrow> byte list" where
  "pack_key short_room short_event = u64_to_be_bytes short_room @ u64_to_be_bytes short_event"

text \<open>\<^verbatim>\<open>as_chunks\<close>: the complete chunks of eight bytes.\<close>

function chunks8 :: "byte list \<Rightarrow> byte list list" where
  "chunks8 bs = (if length bs < 8 then [] else take 8 bs # chunks8 (drop 8 bs))"
  by pat_completeness auto
termination by (relation "measure length") auto

declare chunks8.simps [simp del]

definition get_cached_eventid_authchain ::
  "'c chain_lib \<Rightarrow> u64 \<Rightarrow> u64 \<Rightarrow> 'c chain_data \<Rightarrow> u64 set option \<times> 'c chain_data" where
  "get_cached_eventid_authchain lib short_room short_event d =
     (let key = (short_room, short_event)
      in case lru_get lib key (cd_ram d) of
           (Some result, ram) \<Rightarrow> (Some result, d\<lparr>cd_ram := ram\<rparr>)
         | (None, ram) \<Rightarrow>
             (case cd_db d (pack_key short_room short_event) of
                None \<Rightarrow> (None, d\<lparr>cd_ram := ram\<rparr>)
              | Some raw \<Rightarrow>
                  let chain = (case bitmap_deserialize lib raw of
                                 Some bm \<Rightarrow> bm
                               | None \<Rightarrow> set (map u64_from_be_bytes (chunks8 raw)))
                  in (Some chain, d\<lparr>cd_ram := lru_insert lib key chain ram\<rparr>)))"

definition cache_auth_chain ::
  "'c chain_lib \<Rightarrow> u64 \<Rightarrow> u64 \<Rightarrow> u64 set \<Rightarrow> 'c chain_data \<Rightarrow> 'c chain_data" where
  "cache_auth_chain lib short_room short_event auth_chain d =
     d\<lparr>cd_db := (cd_db d)(pack_key short_room short_event \<mapsto> bitmap_serialize lib auth_chain),
       cd_ram := lru_insert lib (short_room, short_event) auth_chain (cd_ram d)\<rparr>"

definition clear_db_cache :: "'c chain_lib \<Rightarrow> 'c chain_data \<Rightarrow> 'c chain_data" where
  "clear_db_cache lib d = d\<lparr>cd_ram := lru_empty lib, cd_db := Map.empty\<rparr>"

definition clear_cache :: "'c chain_lib \<Rightarrow> 'c chain_data \<Rightarrow> 'c chain_data" where
  "clear_cache lib d = d\<lparr>cd_ram := lru_empty lib\<rparr>"

section \<open>The walk\<close>

text \<open>
  The services: short identifiers, the stored auth edges, the stored events. The table of short
  identifiers is read as it stands after the identifiers the walk creates.
\<close>

record 'v chain_env =
  ce_codec :: "'v codec"
  ce_shortroomid :: "room_id \<Rightarrow> u64 option"
  ce_short :: "event_id \<Rightarrow> u64"
  ce_get_short :: "event_id \<Rightarrow> u64 option"
  ce_event_id :: "u64 \<Rightarrow> event_id option"
  ce_auth_shorts :: "u64 \<Rightarrow> u64 list option"
  ce_stored :: "event_id \<Rightarrow> event option"

datatype chain_error = ChainNotFound | ChainForbidden

definition get_pdu_in_room :: "'v chain_env \<Rightarrow> room_id \<Rightarrow> event_id \<Rightarrow> event option" where
  "get_pdu_in_room env expected_room event_id =
     (case ce_stored env event_id of
        None \<Rightarrow> None
      | Some pdu \<Rightarrow>
          if room_id_or_hash (ce_codec env) pdu \<noteq> Some expected_room then None else Some pdu)"

record 'c walk =
  wk_found :: "u64 set"
  wk_data :: "'c chain_data"

text \<open>A new member of the chain: its cached chain is merged, or it is queued.\<close>

definition visit_short ::
  "'c chain_lib \<Rightarrow> u64 \<Rightarrow> u64 \<Rightarrow> 'c walk \<Rightarrow> bool \<times> 'c walk" where
  "visit_short lib short_room auth_short w =
     (if auth_short \<in> wk_found w then (False, w)
      else
        let found = insert auth_short (wk_found w)
        in case get_cached_eventid_authchain lib short_room auth_short (wk_data w) of
             (Some cached, d) \<Rightarrow> (False, \<lparr>wk_found = found \<union> cached, wk_data = d\<rparr>)
           | (None, d) \<Rightarrow> (True, \<lparr>wk_found = found, wk_data = d\<rparr>))"

fun visit_shorts ::
  "'c chain_lib \<Rightarrow> u64 \<Rightarrow> u64 list \<Rightarrow> 'c walk \<Rightarrow> u64 list \<times> 'c walk" where
  "visit_shorts lib short_room [] w = ([], w)"
| "visit_shorts lib short_room (s # ss) w =
     (let (queue, w') = visit_short lib short_room s w;
          (next_short_ids, w'') = visit_shorts lib short_room ss w'
      in ((if queue then s # next_short_ids else next_short_ids), w''))"

text \<open>One batch: stored edges are followed, events without them are collected.\<close>

fun walk_batch ::
  "'v chain_env \<Rightarrow> 'c chain_lib \<Rightarrow> u64 \<Rightarrow> (u64 \<times> event_id) list \<Rightarrow> 'c walk
     \<Rightarrow> u64 list \<times> event_id list \<times> 'c walk" where
  "walk_batch env lib short_room [] w = ([], [], w)"
| "walk_batch env lib short_room ((s, i) # batch) w =
     (case ce_auth_shorts env s of
        Some auth_shorts \<Rightarrow>
          (let (next1, w1) = visit_shorts lib short_room auth_shorts w;
               (next_short_ids, missing, w2) = walk_batch env lib short_room batch w1
           in (next1 @ next_short_ids, missing, w2))
      | None \<Rightarrow>
          (let (next_short_ids, missing, w1) = walk_batch env lib short_room batch w
           in (next_short_ids, i # missing, w1)))"

definition resolve_shorts :: "'v chain_env \<Rightarrow> u64 list \<Rightarrow> (u64 \<times> event_id) list" where
  "resolve_shorts env ss = List.map_filter (\<lambda>s. map_option (Pair s) (ce_event_id env s)) ss"

text \<open>The legacy events of a batch: the auth events of those that are stored.\<close>

fun legacy_auth_events ::
  "'v chain_env \<Rightarrow> room_id \<Rightarrow> event_id list \<Rightarrow> (chain_error, event_id list \<times> bool) result" where
  "legacy_auth_events env room_id [] = Inr ([], True)"
| "legacy_auth_events env room_id (i # is) =
     (case get_pdu_in_room env room_id i of
        None \<Rightarrow> try_res (legacy_auth_events env room_id is) (\<lambda>(ids, _). Inr (ids, False))
      | Some pdu \<Rightarrow>
          if (case ev_room_id pdu of Some claimed_room_id \<Rightarrow> claimed_room_id \<noteq> room_id | None \<Rightarrow> False)
          then Inl ChainForbidden
          else try_res (legacy_auth_events env room_id is) (\<lambda>(ids, complete). Inr (ev_auth pdu @ ids, complete)))"

fun visit_legacy ::
  "'v chain_env \<Rightarrow> 'c chain_lib \<Rightarrow> u64 \<Rightarrow> event_id list \<Rightarrow> 'c walk \<Rightarrow> (u64 \<times> event_id) list \<times> 'c walk" where
  "visit_legacy env lib short_room [] w = ([], w)"
| "visit_legacy env lib short_room (i # is) w =
     (let (queue, w') = visit_short lib short_room (ce_short env i) w;
          (todo, w'') = visit_legacy env lib short_room is w'
      in ((if queue then (ce_short env i, i) # todo else todo), w''))"

definition walk_round ::
  "'v chain_env \<Rightarrow> 'c chain_lib \<Rightarrow> room_id \<Rightarrow> u64 \<Rightarrow> (u64 \<times> event_id) list \<Rightarrow> 'c walk
     \<Rightarrow> (chain_error, (u64 \<times> event_id) list \<times> bool \<times> 'c walk) result" where
  "walk_round env lib room_id short_room batch w =
     (let (next_short_ids, missing, w1) = walk_batch env lib short_room batch w;
          todo = resolve_shorts env next_short_ids;
          complete = list_all (\<lambda>s. ce_event_id env s \<noteq> None) next_short_ids
      in try_res (legacy_auth_events env room_id missing) (\<lambda>(ids, complete').
           let (todo', w2) = visit_legacy env lib short_room (hash_iter lib ids) w1
           in Inr (todo @ todo', complete \<and> complete', w2)))"

text \<open>Every round that queues anything has found something new.\<close>

lemma visit_short_grows:
  assumes "visit_short lib r s w = (q, w')"
  shows "wk_found w \<subseteq> wk_found w'" and "q \<Longrightarrow> s \<notin> wk_found w" and "s \<in> wk_found w'"
  using assms by (auto simp: visit_short_def Let_def split: if_split_asm prod.splits option.splits)

lemma visit_shorts_grows:
  "visit_shorts lib r ss w = (nx, w') \<Longrightarrow>
     wk_found w \<subseteq> wk_found w' \<and> set ss \<subseteq> wk_found w' \<and> set nx \<subseteq> set ss - wk_found w"
proof (induction ss arbitrary: w nx w')
  case (Cons s ss)
  obtain q w1 where one: "visit_short lib r s w = (q, w1)" by fastforce
  obtain nx1 w2 where two: "visit_shorts lib r ss w1 = (nx1, w2)" by fastforce
  from Cons.IH [OF two] visit_short_grows [OF one] Cons.prems one two show ?case
    by (auto split: if_split_asm)
qed simp

lemma walk_batch_grows:
  "walk_batch env lib r batch w = (nx, missing, w') \<Longrightarrow>
     wk_found w \<subseteq> wk_found w' \<and> set nx \<subseteq> wk_found w' - wk_found w"
proof (induction env lib r batch w arbitrary: nx missing w' rule: walk_batch.induct)
  case (2 env lib r s i batch w)
  show ?case
  proof (cases "ce_auth_shorts env s")
    case None
    obtain nx1 m1 w1 where "walk_batch env lib r batch w = (nx1, m1, w1)" by (metis prod_cases3)
    with "2.IH"(1) [OF None] "2.prems" None show ?thesis by auto
  next
    case (Some as)
    obtain nx1 w1 where one: "visit_shorts lib r as w = (nx1, w1)" by fastforce
    obtain nx2 m2 w2 where two: "walk_batch env lib r batch w1 = (nx2, m2, w2)" by (metis prod_cases3)
    have eqs: "nx = nx1 @ nx2" "w' = w2" using "2.prems" Some one two by auto
    show ?thesis
      using "2.IH"(2) [OF Some refl one [symmetric] two] visit_shorts_grows [OF one]
      unfolding eqs set_append by blast
  qed
qed simp

lemma visit_legacy_grows:
  "visit_legacy env lib r is w = (todo, w') \<Longrightarrow>
     wk_found w \<subseteq> wk_found w' \<and> ce_short env ` set is \<subseteq> wk_found w' \<and> fst ` set todo \<subseteq> wk_found w' - wk_found w"
proof (induction "is" arbitrary: w todo w')
  case (Cons i "is")
  obtain q w1 where one: "visit_short lib r (ce_short env i) w = (q, w1)" by fastforce
  obtain todo1 w2 where two: "visit_legacy env lib r is w1 = (todo1, w2)" by fastforce
  have eqs: "w' = w2" "todo = (if q then (ce_short env i, i) # todo1 else todo1)"
    using Cons.prems one two by auto
  show ?case
    using Cons.IH [OF two] visit_short_grows [OF one] unfolding eqs
    by (cases q) (simp_all, blast+)
qed simp

lemma resolve_shorts_set: "set (resolve_shorts env ss) = {(s, i). s \<in> set ss \<and> ce_event_id env s = Some i}"
  by (induction ss) (auto simp: resolve_shorts_def List.map_filter_simps split: option.splits)

lemma walk_round_grows:
  assumes "walk_round env lib room r batch w = Inr (todo, c, w')"
  shows "wk_found w \<subseteq> wk_found w'" and "fst ` set todo \<subseteq> wk_found w' - wk_found w"
proof -
  obtain nx m w1 where one: "walk_batch env lib r batch w = (nx, m, w1)" by (metis prod_cases3)
  obtain ids c' where leg: "legacy_auth_events env room m = Inr (ids, c')"
    using assms one by (auto simp: walk_round_def try_res_eq_Inr)
  obtain todo' w2 where two: "visit_legacy env lib r (hash_iter lib ids) w1 = (todo', w2)" by fastforce
  have "todo = resolve_shorts env nx @ todo'" "w' = w2"
    using assms one leg two by (auto simp: walk_round_def)
  moreover have "fst ` set (resolve_shorts env nx) \<subseteq> set nx" by (auto simp: resolve_shorts_set)
  ultimately show "wk_found w \<subseteq> wk_found w'" "fst ` set todo \<subseteq> wk_found w' - wk_found w"
    using walk_batch_grows [OF one] visit_legacy_grows [OF two] by (auto simp: image_Un)
qed

function walk_loop ::
  "'v chain_env \<Rightarrow> 'c chain_lib \<Rightarrow> room_id \<Rightarrow> u64 \<Rightarrow> (u64 \<times> event_id) list \<Rightarrow> bool \<Rightarrow> 'c walk
     \<Rightarrow> (chain_error, bool \<times> 'c walk) result" where
  "walk_loop env lib room_id short_room todo complete w =
     (if todo = [] then Inr (complete, w)
      else case walk_round env lib room_id short_room todo w of
             Inl e \<Rightarrow> Inl e
           | Inr (todo', complete', w') \<Rightarrow> walk_loop env lib room_id short_room todo' (complete \<and> complete') w')"
  by pat_completeness auto
termination
proof (relation "measures [\<lambda>(env, lib, room, r, todo, c, w). card (- wk_found w),
    \<lambda>(env, lib, room, r, todo, c, w). length todo]")
  fix env :: "'v chain_env" and lib :: "'c chain_lib" and room r todo c w rr todo' cw c' w'
  assume todo: "todo \<noteq> []" and rr: "walk_round env lib room r todo w = Inr rr" "(todo', cw) = rr" "(c', w') = cw"
  then have "walk_round env lib room r todo w = Inr (todo', c', w')" by simp
  note grows = walk_round_grows [OF this]
  show "((env, lib, room, r, todo', c \<and> c', w'), env, lib, room, r, todo, c, w) \<in>
    measures [\<lambda>(env, lib, room, r, todo, c, w). card (- wk_found w),
      \<lambda>(env, lib, room, r, todo, c, w). length todo]"
  proof (cases "todo' = []")
    case True
    have "card (- wk_found w') \<le> card (- wk_found w)" using grows(1) by (intro card_mono) auto
    with True todo show ?thesis by auto
  next
    case False
    then obtain p where "p \<in> set todo'" by (cases todo') auto
    with grows have "- wk_found w' \<subset> - wk_found w" by fastforce
    then have "card (- wk_found w') < card (- wk_found w)" by (intro psubset_card_mono) auto
    then show ?thesis by simp
  qed
qed simp

declare walk_loop.simps [simp del]

text \<open>The create event that the room identifier names, for rooms named by it.\<close>

definition derived_create_id :: "'v chain_env \<Rightarrow> room_id \<Rightarrow> event_id option" where
  "derived_create_id env room_id =
     (case room_id of
        ch # without_sigil \<Rightarrow>
          if ch = CHR ''!'' then c_event_id (ce_codec env) (CHR ''$'' # without_sigil) else None
      | [] \<Rightarrow> None)"

definition add_derived_create_event ::
  "'v chain_env \<Rightarrow> room_id \<Rightarrow> event_id option \<Rightarrow> u64 set \<Rightarrow> bool \<times> u64 set" where
  "add_derived_create_event env room_id exclude chain =
     (case derived_create_id env room_id of
        None \<Rightarrow> (True, chain)
      | Some create_id \<Rightarrow>
          if exclude = Some create_id then (True, chain)
          else case ce_get_short env create_id of
                 None \<Rightarrow> (True, chain)
               | Some create_short \<Rightarrow>
                   if get_pdu_in_room env room_id create_id = None then (False, chain)
                   else (True, insert create_short chain))"

definition get_auth_chain_inner ::
  "'v chain_env \<Rightarrow> 'c chain_lib \<Rightarrow> room_id \<Rightarrow> u64 \<Rightarrow> event_id \<Rightarrow> u64 \<Rightarrow> 'c chain_data
     \<Rightarrow> (chain_error, u64 set \<times> bool \<times> 'c chain_data) result" where
  "get_auth_chain_inner env lib room_id short_room event_id short d =
     try_res (walk_loop env lib room_id short_room [(short, event_id)] True \<lparr>wk_found = {}, wk_data = d\<rparr>)
       (\<lambda>(is_complete, w).
         let (known, found) = add_derived_create_event env room_id (Some event_id) (wk_found w)
         in Inr (found, is_complete \<and> known, wk_data w))"

section \<open>The chain of several events\<close>

text \<open>
  The first pass takes what is cached, the second walks the rest, looking again first. The source
  has the same body twice, once ending in the bitmap and once in the list of its members. The
  lookups of the first pass may complete in any order: \<open>starting_events\<close> is listed in that order.
\<close>

fun cached_starts ::
  "'c chain_lib \<Rightarrow> u64 \<Rightarrow> (u64 \<times> event_id) list \<Rightarrow> 'c chain_data
     \<Rightarrow> u64 set \<times> (u64 \<times> event_id) list \<times> 'c chain_data" where
  "cached_starts lib short_room [] d = ({}, [], d)"
| "cached_starts lib short_room ((short, i) # starts) d =
     (let (res, d1) = get_cached_eventid_authchain lib short_room short d;
          (chain, uncached, d2) = cached_starts lib short_room starts d1
      in case res of
           Some cached \<Rightarrow> (insert short (cached \<union> chain), uncached, d2)
         | None \<Rightarrow> (chain, (short, i) # uncached, d2))"

fun walk_starts ::
  "'v chain_env \<Rightarrow> 'c chain_lib \<Rightarrow> room_id \<Rightarrow> u64 \<Rightarrow> (u64 \<times> event_id) list \<Rightarrow> 'c chain_data
     \<Rightarrow> (chain_error, u64 set \<times> 'c chain_data) result" where
  "walk_starts env lib room_id short_room [] d = Inr ({}, d)"
| "walk_starts env lib room_id short_room ((short, i) # starts) d =
     (case get_cached_eventid_authchain lib short_room short d of
        (Some cached, d1) \<Rightarrow>
          try_res (walk_starts env lib room_id short_room starts d1) (\<lambda>(chain, d2).
          Inr (insert short (cached \<union> chain), d2))
      | (None, d1) \<Rightarrow>
          try_res (get_auth_chain_inner env lib room_id short_room i short d1) (\<lambda>(auth_chain, is_complete, d2).
          try_res (walk_starts env lib room_id short_room starts
            (if is_complete then cache_auth_chain lib short_room short auth_chain d2 else d2)) (\<lambda>(chain, d3).
          Inr (insert short (auth_chain \<union> chain), d3))))"

definition get_auth_chain_bitmap ::
  "'v chain_env \<Rightarrow> 'c chain_lib \<Rightarrow> room_id \<Rightarrow> event_id list \<Rightarrow> 'c chain_data
     \<Rightarrow> (chain_error, u64 set \<times> 'c chain_data) result" where
  "get_auth_chain_bitmap env lib room_id starting_events d =
     try_res (ok_or (ce_shortroomid env room_id) ChainNotFound) (\<lambda>short_room.
     let starting_ids = map (\<lambda>i. (ce_short env i, i)) starting_events;
         (cached_chain, uncached, d1) = cached_starts lib short_room starting_ids d
     in try_res (walk_starts env lib room_id short_room uncached d1) (\<lambda>(chain, d2).
        Inr (snd (add_derived_create_event env room_id None (cached_chain \<union> chain)), d2)))"

definition get_auth_chain ::
  "'v chain_env \<Rightarrow> 'c chain_lib \<Rightarrow> room_id \<Rightarrow> event_id list \<Rightarrow> 'c chain_data
     \<Rightarrow> (chain_error, u64 list \<times> 'c chain_data) result" where
  "get_auth_chain env lib room_id starting_events d =
     try_res (get_auth_chain_bitmap env lib room_id starting_events d) (\<lambda>(chain, d').
     Inr (sorted_list_of_set chain, d'))"

definition event_ids_iter ::
  "'v chain_env \<Rightarrow> 'c chain_lib \<Rightarrow> room_id \<Rightarrow> event_id list \<Rightarrow> 'c chain_data
     \<Rightarrow> (chain_error, event_id list \<times> 'c chain_data) result" where
  "event_ids_iter env lib room_id starting_events d =
     try_res (get_auth_chain env lib room_id starting_events d) (\<lambda>(chain, d').
     Inr (List.map_filter (ce_event_id env) chain, d'))"

end
