(* ===== verification/Auth_Chain_Closure.thy ===== *)
theory Auth_Chain_Closure
  imports Auth_Chain Sample_Codec
begin

text \<open>
  What the auth chain service computes: the transitive closure of the auth edges, whatever the
  cache holds or has forgotten, and caches that hold nothing but closures.
\<close>

section \<open>The closure the chain stands for\<close>

text \<open>
  The edges the walk follows: the stored edges of an event whose identifier is known, else the
  auth events of the stored event.
\<close>

definition auth_succ :: "'v chain_env \<Rightarrow> room_id \<Rightarrow> u64 \<Rightarrow> u64 set" where
  "auth_succ env room_id s =
     (case ce_event_id env s of
        None \<Rightarrow> {}
      | Some i \<Rightarrow>
          (case ce_auth_shorts env s of
             Some auth_shorts \<Rightarrow> set auth_shorts
           | None \<Rightarrow>
               (case get_pdu_in_room env room_id i of
                  None \<Rightarrow> {}
                | Some pdu \<Rightarrow> ce_short env ` set (ev_auth pdu))))"

definition auth_known :: "'v chain_env \<Rightarrow> room_id \<Rightarrow> u64 \<Rightarrow> bool" where
  "auth_known env room_id s =
     (case ce_event_id env s of
        None \<Rightarrow> False
      | Some i \<Rightarrow> ce_auth_shorts env s \<noteq> None \<or> get_pdu_in_room env room_id i \<noteq> None)"

definition chain_edges :: "'v chain_env \<Rightarrow> room_id \<Rightarrow> (u64 \<times> u64) set" where
  "chain_edges env room_id = {(s, t). t \<in> auth_succ env room_id s}"

definition derived_create :: "'v chain_env \<Rightarrow> room_id \<Rightarrow> u64 set" where
  "derived_create env room_id =
     (case derived_create_id env room_id of
        None \<Rightarrow> {}
      | Some create_id \<Rightarrow>
          if get_pdu_in_room env room_id create_id = None then {}
          else set_option (ce_get_short env create_id))"

text \<open>What a cached chain of \<open>s\<close> may be.\<close>

definition chain_of :: "'v chain_env \<Rightarrow> room_id \<Rightarrow> u64 \<Rightarrow> u64 set \<Rightarrow> bool" where
  "chain_of env room_id s chain \<longleftrightarrow>
     (chain_edges env room_id)\<^sup>+ `` {s} \<subseteq> chain \<and>
     chain \<subseteq> (chain_edges env room_id)\<^sup>+ `` {s} \<union> derived_create env room_id \<and>
     (\<forall>x\<in>insert s chain. auth_known env room_id x)"

text \<open>What the packages promise: \<open>view\<close> is what the memory cache holds.\<close>

definition chain_lib_ok :: "'c chain_lib \<Rightarrow> ('c \<Rightarrow> (u64 \<times> u64) \<rightharpoonup> u64 set) \<Rightarrow> bool" where
  "chain_lib_ok lib view \<longleftrightarrow>
     (\<forall>k c. fst (lru_get lib k c) = view c k \<and> view (snd (lru_get lib k c)) = view c) \<and>
     (\<forall>k v c. view (lru_insert lib k v c) \<subseteq>\<^sub>m (view c)(k \<mapsto> v)) \<and>
     view (lru_empty lib) = Map.empty \<and>
     (\<forall>xs. set (hash_iter lib xs) = set xs) \<and>
     (\<forall>bm. bitmap_deserialize lib (bitmap_serialize lib bm) = Some bm)"

text \<open>
  What the tables promise: the identifiers \<open>ids\<close> of the starting events and of every auth event of
  a stored event have short identifiers that name them; rooms differ in theirs; the create event
  of the room has no auth events.
\<close>

definition chain_env_ok :: "'v chain_env \<Rightarrow> room_id \<Rightarrow> event_id set \<Rightarrow> bool" where
  "chain_env_ok env room_id ids \<longleftrightarrow>
     (\<forall>i\<in>ids. ce_event_id env (ce_short env i) = Some i) \<and>
     (\<forall>i pdu. ce_stored env i = Some pdu \<longrightarrow> set (ev_auth pdu) \<subseteq> ids) \<and>
     (\<forall>i s. ce_get_short env i = Some s \<longrightarrow> ce_event_id env s = Some i) \<and>
     (\<forall>room room' r. ce_shortroomid env room = Some r \<longrightarrow> ce_shortroomid env room' = Some r \<longrightarrow> room = room') \<and>
     (\<forall>s\<in>derived_create env room_id. auth_succ env room_id s = {})"

definition decode_chain :: "'c chain_lib \<Rightarrow> byte list \<Rightarrow> u64 set" where
  "decode_chain lib raw =
     (case bitmap_deserialize lib raw of
        Some bm \<Rightarrow> bm
      | None \<Rightarrow> set (map u64_from_be_bytes (chunks8 raw)))"

text \<open>Both levels of the cache hold, for every room, only complete chains.\<close>

definition chain_cache_ok ::
  "'v chain_env \<Rightarrow> 'c chain_lib \<Rightarrow> ('c \<Rightarrow> (u64 \<times> u64) \<rightharpoonup> u64 set) \<Rightarrow> 'c chain_data \<Rightarrow> bool" where
  "chain_cache_ok env lib view d \<longleftrightarrow>
     (\<forall>room r s. ce_shortroomid env room = Some r \<longrightarrow>
        (\<forall>chain. view (cd_ram d) (r, s) = Some chain \<longrightarrow> chain_of env room s chain) \<and>
        (\<forall>raw. cd_db d (pack_key r s) = Some raw \<longrightarrow> chain_of env room s (decode_chain lib raw)))"

lemma pack_key_inject [simp]: "pack_key r s = pack_key r' s' \<longleftrightarrow> r = r' \<and> s = s'"
  by (simp add: pack_key_def)

lemma chain_libD:
  assumes "chain_lib_ok lib view"
  shows "lru_get lib k c = (x, c') \<Longrightarrow> view c k = x \<and> view c' = view c"
    and "view (lru_insert lib k v c) k' = Some y \<Longrightarrow> (k' = k \<and> y = v) \<or> view c k' = Some y"
    and "set (hash_iter lib xs) = set xs"
    and "decode_chain lib (bitmap_serialize lib bm) = bm"
    and "view (lru_empty lib) k = None"
proof -
  show "view c k = x \<and> view c' = view c" if "lru_get lib k c = (x, c')"
  proof -
    have "fst (lru_get lib k c) = view c k" "view (snd (lru_get lib k c)) = view c"
      using assms unfolding chain_lib_ok_def by blast+
    with that show ?thesis by simp
  qed
  show "(k' = k \<and> y = v) \<or> view c k' = Some y" if "view (lru_insert lib k v c) k' = Some y"
  proof -
    have "view (lru_insert lib k v c) \<subseteq>\<^sub>m (view c)(k \<mapsto> v)" using assms unfolding chain_lib_ok_def by blast
    with that have "((view c)(k \<mapsto> v)) k' = Some y" by (force simp: map_le_def)
    then show ?thesis by (auto split: if_split_asm)
  qed
qed (use assms in \<open>simp_all add: chain_lib_ok_def decode_chain_def\<close>)

lemma chain_cacheD:
  assumes "chain_cache_ok env lib view d" "ce_shortroomid env room = Some r"
  shows "view (cd_ram d) (r, s) = Some chain \<Longrightarrow> chain_of env room s chain"
    and "cd_db d (pack_key r s) = Some raw \<Longrightarrow> chain_of env room s (decode_chain lib raw)"
  using assms unfolding chain_cache_ok_def by blast+

lemma cache_ram_insert:
  assumes "chain_lib_ok lib view" "chain_cache_ok env lib view d"
    and "\<And>room. ce_shortroomid env room = Some r \<Longrightarrow> chain_of env room s chain"
  shows "chain_cache_ok env lib view (d\<lparr>cd_ram := lru_insert lib (r, s) chain (cd_ram d)\<rparr>)"
  unfolding chain_cache_ok_def
proof (intro allI impI conjI)
  fix room r' s' ch
  assume room: "ce_shortroomid env room = Some r'"
    and "view (cd_ram (d\<lparr>cd_ram := lru_insert lib (r, s) chain (cd_ram d)\<rparr>)) (r', s') = Some ch"
  then consider "r' = r" "s' = s" "ch = chain" | "view (cd_ram d) (r', s') = Some ch"
    using chain_libD(2) [OF assms(1)] by fastforce
  then show "chain_of env room s' ch"
    using assms(3) room chain_cacheD(1) [OF assms(2) room] by cases auto
next
  fix room r' s' raw
  assume room: "ce_shortroomid env room = Some r'"
    and "cd_db (d\<lparr>cd_ram := lru_insert lib (r, s) chain (cd_ram d)\<rparr>) (pack_key r' s') = Some raw"
  then show "chain_of env room s' (decode_chain lib raw)" using chain_cacheD(2) [OF assms(2) room] by simp
qed

lemma cache_db_insert:
  assumes "chain_cache_ok env lib view d"
    and "\<And>room. ce_shortroomid env room = Some r \<Longrightarrow> chain_of env room s (decode_chain lib raw)"
  shows "chain_cache_ok env lib view (d\<lparr>cd_db := (cd_db d)(pack_key r s \<mapsto> raw)\<rparr>)"
  using assms unfolding chain_cache_ok_def by simp

lemma cache_same_view:
  assumes "chain_cache_ok env lib view d" "view ram = view (cd_ram d)"
  shows "chain_cache_ok env lib view (d\<lparr>cd_ram := ram\<rparr>)"
  using assms unfolding chain_cache_ok_def by simp

lemma cache_lookup:
  assumes lib: "chain_lib_ok lib view" and ok: "chain_cache_ok env lib view d"
    and room: "ce_shortroomid env room = Some r"
    and only: "\<And>room'. ce_shortroomid env room' = Some r \<Longrightarrow> room' = room"
    and got: "get_cached_eventid_authchain lib r s d = (res, d')"
  shows "chain_cache_ok env lib view d' \<and> (\<forall>chain. res = Some chain \<longrightarrow> chain_of env room s chain)"
proof -
  obtain x ram where get: "lru_get lib (r, s) (cd_ram d) = (x, ram)" by fastforce
  from chain_libD(1) [OF lib get]
  have x: "view (cd_ram d) (r, s) = x" and same: "view ram = view (cd_ram d)" by auto
  note ok_ram = cache_same_view [OF ok same]
  show ?thesis
  proof (cases x)
    case (Some chain)
    then show ?thesis using got get ok_ram x chain_cacheD(1) [OF ok room]
      by (auto simp: get_cached_eventid_authchain_def)
  next
    case None
    show ?thesis
    proof (cases "cd_db d (pack_key r s)")
      case (Some raw)
      have chain: "chain_of env room' s (decode_chain lib raw)" if "ce_shortroomid env room' = Some r" for room'
        using chain_cacheD(2) [OF ok room Some] only [OF that] by simp
      have "res = Some (decode_chain lib raw)"
        "d' = d\<lparr>cd_ram := ram\<rparr>\<lparr>cd_ram := lru_insert lib (r, s) (decode_chain lib raw) (cd_ram (d\<lparr>cd_ram := ram\<rparr>))\<rparr>"
        using got get None Some by (auto simp: get_cached_eventid_authchain_def decode_chain_def Let_def)
      with cache_ram_insert [where r = r, OF lib ok_ram chain] chain [OF room] show ?thesis by simp
    qed (use got get None ok_ram in \<open>auto simp: get_cached_eventid_authchain_def\<close>)
  qed
qed

lemma cache_store:
  assumes lib: "chain_lib_ok lib view" and ok: "chain_cache_ok env lib view d"
    and only: "\<And>room'. ce_shortroomid env room' = Some r \<Longrightarrow> room' = room"
    and chain: "chain_of env room s chain"
  shows "chain_cache_ok env lib view (cache_auth_chain lib r s chain d)"
proof -
  have "chain_of env room' s chain" if "ce_shortroomid env room' = Some r" for room'
    using chain only [OF that] by simp
  note ram = cache_ram_insert [where r = r, OF lib ok this]
  have "chain_of env room' s (decode_chain lib (bitmap_serialize lib chain))"
    if "ce_shortroomid env room' = Some r" for room'
    using chain only [OF that] chain_libD(4) [OF lib] by simp
  note db = cache_db_insert [where r = r, OF ram this]
  then show ?thesis by (cases d) (simp add: cache_auth_chain_def)
qed

section \<open>The walk computes the closure\<close>

text \<open>
  The invariant of the walk from \<open>start\<close>: what was found is reachable, or the derived create
  event; every found event that is not pending has its auth events found; and, while the walk is
  complete, it is known.
\<close>

definition chain_ctx ::
  "'v chain_env \<Rightarrow> 'c chain_lib \<Rightarrow> ('c \<Rightarrow> (u64 \<times> u64) \<rightharpoonup> u64 set) \<Rightarrow> room_id \<Rightarrow> u64 \<Rightarrow> event_id set \<Rightarrow> bool" where
  "chain_ctx env lib view room r ids \<longleftrightarrow>
     chain_lib_ok lib view \<and> chain_env_ok env room ids \<and> ce_shortroomid env room = Some r"

definition walk_inv ::
  "'v chain_env \<Rightarrow> 'c chain_lib \<Rightarrow> ('c \<Rightarrow> (u64 \<times> u64) \<rightharpoonup> u64 set) \<Rightarrow> room_id \<Rightarrow> u64 \<Rightarrow> u64 set \<Rightarrow> bool \<Rightarrow> 'c walk
     \<Rightarrow> bool" where
  "walk_inv env lib view room start pending complete w \<longleftrightarrow>
     wk_found w \<subseteq> (chain_edges env room)\<^sup>+ `` {start} \<union> derived_create env room \<and>
     (\<forall>x\<in>insert start (wk_found w) - pending.
        auth_succ env room x \<subseteq> wk_found w \<and> (complete \<longrightarrow> auth_known env room x)) \<and>
     chain_cache_ok env lib view (wk_data w)"

lemma chain_ctx_lookup:
  assumes "chain_ctx env lib view room r ids" "chain_cache_ok env lib view d"
    and "get_cached_eventid_authchain lib r s d = (res, d')"
  shows "chain_cache_ok env lib view d' \<and> (\<forall>chain. res = Some chain \<longrightarrow> chain_of env room s chain)"
proof -
  have only: "room' = room" if "ce_shortroomid env room' = Some r" for room'
    using assms(1) that unfolding chain_ctx_def chain_env_ok_def by blast
  from assms(1) have "chain_lib_ok lib view" "ce_shortroomid env room = Some r" by (simp_all add: chain_ctx_def)
  from cache_lookup [OF this(1) assms(2) this(2) only assms(3)] show ?thesis .
qed

text \<open>A chain is closed under the edges.\<close>

lemma chain_of_closed:
  assumes "chain_ctx env lib view room r ids" "chain_of env room s chain" "x \<in> insert s chain"
  shows "auth_succ env room x \<subseteq> chain"
proof
  fix t assume t: "t \<in> auth_succ env room x"
  have root: "auth_succ env room c = {}" if "c \<in> derived_create env room" for c
    using assms(1) that unfolding chain_ctx_def chain_env_ok_def by blast
  have edge: "(x, t) \<in> chain_edges env room" using t by (simp add: chain_edges_def)
  have "x = s \<or> x \<in> (chain_edges env room)\<^sup>+ `` {s}"
    using assms(2,3) root t by (auto simp: chain_of_def)
  with edge have "t \<in> (chain_edges env room)\<^sup>+ `` {s}" by (auto intro: trancl_into_trancl)
  with assms(2) show "t \<in> chain" by (auto simp: chain_of_def)
qed

lemma walk_inv_pending_mono:
  "walk_inv env lib view room start P c w \<Longrightarrow> P \<subseteq> Q \<Longrightarrow> walk_inv env lib view room start Q c w"
  unfolding walk_inv_def by blast

text \<open>An event whose auth events are found is no longer pending.\<close>

lemma walk_inv_settle:
  assumes "walk_inv env lib view room start P c w"
    and "\<And>x. x \<in> S \<Longrightarrow> auth_succ env room x \<subseteq> wk_found w"
    and "\<And>x. x \<in> S \<Longrightarrow> c' \<Longrightarrow> auth_known env room x" and "c' \<Longrightarrow> c"
  shows "walk_inv env lib view room start (P - S) c' w"
  using assms unfolding walk_inv_def by blast

lemma visit_short_inv:
  assumes ctx: "chain_ctx env lib view room r ids"
    and inv: "walk_inv env lib view room start P c w"
    and reach: "s \<in> (chain_edges env room)\<^sup>+ `` {start}"
    and visit: "visit_short lib r s w = (q, w')"
  shows "walk_inv env lib view room start (P \<union> (if q then {s} else {})) c w'"
proof (cases "s \<in> wk_found w")
  case True
  with visit inv show ?thesis by (simp add: visit_short_def)
next
  case False
  obtain res d where get: "get_cached_eventid_authchain lib r s (wk_data w) = (res, d)" by fastforce
  have ok: "chain_cache_ok env lib view (wk_data w)" using inv by (simp add: walk_inv_def)
  note looked = chain_ctx_lookup [OF ctx ok get]
  show ?thesis
  proof (cases res)
    case None
    with visit False get have "q" "w' = \<lparr>wk_found = insert s (wk_found w), wk_data = d\<rparr>"
      by (auto simp: visit_short_def)
    with inv reach looked show ?thesis unfolding walk_inv_def by auto
  next
    case (Some chain)
    with visit False get have "\<not> q" and w': "w' = \<lparr>wk_found = insert s (wk_found w) \<union> chain, wk_data = d\<rparr>"
      by (auto simp: visit_short_def)
    from looked Some have chain: "chain_of env room s chain" by blast
    have "(chain_edges env room)\<^sup>+ `` {s} \<subseteq> (chain_edges env room)\<^sup>+ `` {start}"
      using reach by (auto intro: trancl_trans)
    with chain inv reach have "wk_found w' \<subseteq> (chain_edges env room)\<^sup>+ `` {start} \<union> derived_create env room"
      unfolding w' walk_inv_def chain_of_def by auto
    moreover have "auth_succ env room x \<subseteq> wk_found w' \<and> (c \<longrightarrow> auth_known env room x)"
      if "x \<in> insert start (wk_found w') - P" for x
    proof (cases "x \<in> insert s chain")
      case True
      from chain_of_closed [OF ctx chain True] chain True show ?thesis unfolding w' chain_of_def by auto
    next
      case False
      with that have "x \<in> insert start (wk_found w) - P" unfolding w' by auto
      with inv have "auth_succ env room x \<subseteq> wk_found w \<and> (c \<longrightarrow> auth_known env room x)"
        unfolding walk_inv_def by blast
      then show ?thesis unfolding w' by auto
    qed
    ultimately show ?thesis using \<open>\<not> q\<close> looked unfolding walk_inv_def w' by simp
  qed
qed

lemma visit_shorts_inv:
  assumes ctx: "chain_ctx env lib view room r ids"
  shows "walk_inv env lib view room start P c w \<Longrightarrow> set ss \<subseteq> (chain_edges env room)\<^sup>+ `` {start} \<Longrightarrow>
    visit_shorts lib r ss w = (nx, w') \<Longrightarrow> walk_inv env lib view room start (P \<union> set nx) c w'"
proof (induction ss arbitrary: P w nx w')
  case (Cons s ss)
  obtain q w1 where one: "visit_short lib r s w = (q, w1)" by fastforce
  obtain nx1 w2 where two: "visit_shorts lib r ss w1 = (nx1, w2)" by fastforce
  have eqs: "nx = (if q then s # nx1 else nx1)" "w' = w2" using Cons.prems(3) one two by auto
  have "walk_inv env lib view room start (P \<union> (if q then {s} else {})) c w1"
    using visit_short_inv [OF ctx Cons.prems(1) _ one] Cons.prems(2) by simp
  from Cons.IH [OF this _ two] Cons.prems(2) show ?case unfolding eqs by (simp split: if_split_asm)
qed simp

lemma visit_legacy_inv:
  assumes ctx: "chain_ctx env lib view room r ids"
  shows "walk_inv env lib view room start P c w \<Longrightarrow> ce_short env ` set is \<subseteq> (chain_edges env room)\<^sup>+ `` {start} \<Longrightarrow>
    visit_legacy env lib r is w = (todo, w') \<Longrightarrow>
    walk_inv env lib view room start (P \<union> fst ` set todo) c w' \<and> set todo \<subseteq> (\<lambda>i. (ce_short env i, i)) ` set is"
proof (induction "is" arbitrary: P w todo w')
  case (Cons i "is")
  obtain q w1 where one: "visit_short lib r (ce_short env i) w = (q, w1)" by fastforce
  obtain todo1 w2 where two: "visit_legacy env lib r is w1 = (todo1, w2)" by fastforce
  have eqs: "todo = (if q then (ce_short env i, i) # todo1 else todo1)" "w' = w2"
    using Cons.prems(3) one two by auto
  have "walk_inv env lib view room start (P \<union> (if q then {ce_short env i} else {})) c w1"
    using visit_short_inv [OF ctx Cons.prems(1) _ one] Cons.prems(2) by simp
  from Cons.IH [OF this _ two] Cons.prems(2) show ?case unfolding eqs by (auto split: if_split_asm)
qed simp

definition entry_ok :: "'v chain_env \<Rightarrow> room_id \<Rightarrow> u64 \<Rightarrow> u64 \<times> event_id \<Rightarrow> bool" where
  "entry_ok env room start e \<longleftrightarrow>
     ce_event_id env (fst e) = Some (snd e) \<and> (start, fst e) \<in> (chain_edges env room)\<^sup>*"

lemma entry_ok_succ:
  assumes "entry_ok env room start (s, i)"
  shows "auth_succ env room s \<subseteq> (chain_edges env room)\<^sup>+ `` {start}"
  using assms by (auto simp: entry_ok_def chain_edges_def intro: rtrancl_into_trancl1)

lemma walk_batch_inv:
  assumes ctx: "chain_ctx env lib view room r ids"
  shows "walk_inv env lib view room start P c w \<Longrightarrow> list_all (entry_ok env room start) batch \<Longrightarrow>
    walk_batch env lib r batch w = (nx, missing, w') \<Longrightarrow>
    walk_inv env lib view room start
      (P - fst ` set batch \<union> set nx \<union> {s \<in> fst ` set batch. ce_auth_shorts env s = None}) c w' \<and>
    set missing = {i. \<exists>s. (s, i) \<in> set batch \<and> ce_auth_shorts env s = None} \<and>
    set nx \<subseteq> (chain_edges env room)\<^sup>+ `` {start}"
proof (induction batch arbitrary: P w nx missing w')
  case (Cons e batch)
  obtain s i where e: "e = (s, i)" by fastforce
  have rest: "list_all (entry_ok env room start) batch" and ok: "entry_ok env room start (s, i)"
    using Cons.prems(2) by (simp_all add: e)
  show ?case
  proof (cases "ce_auth_shorts env s")
    case None
    obtain nx1 m1 w1 where one: "walk_batch env lib r batch w = (nx1, m1, w1)" by (metis prod_cases3)
    have eqs: "nx = nx1" "missing = i # m1" "w' = w1" using Cons.prems(3) None one by (auto simp: e)
    note IH = Cons.IH [OF Cons.prems(1) rest one]
    have "walk_inv env lib view room start
      (P - fst ` set (e # batch) \<union> set nx \<union> {s \<in> fst ` set (e # batch). ce_auth_shorts env s = None}) c w'"
      unfolding eqs using None by (intro walk_inv_pending_mono [OF conjunct1 [OF IH]]) (auto simp: e)
    with IH None show ?thesis unfolding eqs by (auto simp: e)
  next
    case (Some as)
    have as: "auth_succ env room s = set as" "auth_known env room s"
      using ok Some by (simp_all add: entry_ok_def auth_succ_def auth_known_def)
    obtain nx1 w1 where one: "visit_shorts lib r as w = (nx1, w1)" by fastforce
    obtain nx2 m2 w2 where two: "walk_batch env lib r batch w1 = (nx2, m2, w2)" by (metis prod_cases3)
    have eqs: "nx = nx1 @ nx2" "missing = m2" "w' = w2" using Cons.prems(3) Some one two by (auto simp: e)
    have sub: "set as \<subseteq> (chain_edges env room)\<^sup>+ `` {start}" using entry_ok_succ [OF ok] as by simp
    note grow = visit_shorts_grows [OF one]
    have "walk_inv env lib view room start ((P \<union> set nx1) - {s}) c w1"
      using visit_shorts_inv [OF ctx Cons.prems(1) sub one]
      by (rule walk_inv_settle) (use grow as in auto)
    note IH = Cons.IH [OF this rest two]
    have "walk_inv env lib view room start
      (P - fst ` set (e # batch) \<union> set nx \<union> {s \<in> fst ` set (e # batch). ce_auth_shorts env s = None}) c w'"
      unfolding eqs by (intro walk_inv_pending_mono [OF conjunct1 [OF IH]]) (auto simp: e)
    moreover have "set nx \<subseteq> (chain_edges env room)\<^sup>+ `` {start}"
      using IH grow sub unfolding eqs set_append by blast
    ultimately show ?thesis using IH Some unfolding eqs by (auto simp: e)
  qed
qed simp

text \<open>An event of another room is not found, so the walk never fails.\<close>

lemma get_pdu_in_room_claims:
  assumes "get_pdu_in_room env room i = Some pdu"
  shows "ce_stored env i = Some pdu" and "ev_room_id pdu = Some claimed \<Longrightarrow> claimed = room"
  using assms by (auto simp: get_pdu_in_room_def room_id_or_hash_def split: option.splits if_split_asm)

lemma legacy_auth_events_value:
  "\<exists>ids. legacy_auth_events env room missing =
       Inr (ids, list_all (\<lambda>i. get_pdu_in_room env room i \<noteq> None) missing) \<and>
     set ids = (\<Union>i\<in>set missing. case get_pdu_in_room env room i of None \<Rightarrow> {} | Some pdu \<Rightarrow> set (ev_auth pdu))"
proof (induction missing)
  case (Cons i missing)
  show ?case
  proof (cases "get_pdu_in_room env room i")
    case (Some pdu)
    have "\<not> (case ev_room_id pdu of Some claimed_room_id \<Rightarrow> claimed_room_id \<noteq> room | None \<Rightarrow> False)"
      using get_pdu_in_room_claims(2) [OF Some] by (auto split: option.splits)
    with Cons Some show ?thesis by auto
  qed (use Cons in auto)
qed simp

lemma legacy_succ:
  assumes "entry_ok env room start (s, i)" "ce_auth_shorts env s = None"
  shows "auth_succ env room s =
    ce_short env ` (case get_pdu_in_room env room i of None \<Rightarrow> {} | Some pdu \<Rightarrow> set (ev_auth pdu))"
    and "auth_known env room s \<longleftrightarrow> get_pdu_in_room env room i \<noteq> None"
  using assms by (auto simp: entry_ok_def auth_succ_def auth_known_def split: option.splits)

text \<open>The legacy events of a batch: their auth events are reachable, and once these are found, settled.\<close>

lemma legacy_batch:
  assumes batch: "list_all (entry_ok env room start) batch"
    and missing: "set missing = {i. \<exists>s. (s, i) \<in> set batch \<and> ce_auth_shorts env s = None}"
    and xs: "legacy_auth_events env room missing = Inr (xs, stored)"
  shows "ce_short env ` set xs \<subseteq> (chain_edges env room)\<^sup>+ `` {start}"
    and "s \<in> fst ` set batch \<Longrightarrow> ce_auth_shorts env s = None \<Longrightarrow>
      auth_succ env room s \<subseteq> ce_short env ` set xs \<and> (stored \<longrightarrow> auth_known env room s)"
    and "chain_env_ok env room ids \<Longrightarrow> i \<in> set xs \<Longrightarrow> entry_ok env room start (ce_short env i, i)"
proof -
  have stored: "stored \<longleftrightarrow> (\<forall>i\<in>set missing. get_pdu_in_room env room i \<noteq> None)"
    and set_xs: "set xs = (\<Union>i\<in>set missing. case get_pdu_in_room env room i of None \<Rightarrow> {} | Some pdu \<Rightarrow> set (ev_auth pdu))"
    using legacy_auth_events_value [of env room missing] xs by (auto simp: list_all_iff)
  have ok: "entry_ok env room start (s, i)" if "(s, i) \<in> set batch" for s i
    using batch that by (auto simp: list_all_iff)
  have "ce_short env ` (case get_pdu_in_room env room i of None \<Rightarrow> {} | Some pdu \<Rightarrow> set (ev_auth pdu))
      \<subseteq> (chain_edges env room)\<^sup>+ `` {start}" if i: "i \<in> set missing" for i
  proof -
    from i missing obtain s where s: "(s, i) \<in> set batch" "ce_auth_shorts env s = None" by auto
    from entry_ok_succ [OF ok [OF s(1)]] legacy_succ(1) [OF ok [OF s(1)] s(2)] show ?thesis by simp
  qed
  then show reach: "ce_short env ` set xs \<subseteq> (chain_edges env room)\<^sup>+ `` {start}"
    unfolding set_xs image_UN by blast
  show "auth_succ env room s \<subseteq> ce_short env ` set xs \<and> (stored \<longrightarrow> auth_known env room s)"
    if s: "s \<in> fst ` set batch" "ce_auth_shorts env s = None"
  proof -
    from s obtain i where i: "(s, i) \<in> set batch" by auto
    with s missing have "i \<in> set missing" by auto
    with legacy_succ [OF ok [OF i] s(2)] stored show ?thesis unfolding set_xs by blast
  qed
  show "entry_ok env room start (ce_short env i, i)" if env: "chain_env_ok env room ids" and i: "i \<in> set xs"
  proof -
    have "set (ev_auth pdu) \<subseteq> ids" if "get_pdu_in_room env room j = Some pdu" for j pdu
      using env get_pdu_in_room_claims(1) [OF that] unfolding chain_env_ok_def by blast
    then have "set xs \<subseteq> ids" unfolding set_xs by (fastforce split: option.splits)
    with env i have "ce_event_id env (ce_short env i) = Some i" unfolding chain_env_ok_def by blast
    with reach i show ?thesis by (auto simp: entry_ok_def intro: trancl_into_rtrancl)
  qed
qed

lemma resolve_shorts_fst: "fst ` set (resolve_shorts env ss) = {s \<in> set ss. ce_event_id env s \<noteq> None}"
  by (force simp: resolve_shorts_set)

lemma walk_round_inv:
  assumes ctx: "chain_ctx env lib view room r ids"
    and inv: "walk_inv env lib view room start (fst ` set batch) c w"
    and batch: "list_all (entry_ok env room start) batch"
  shows "\<exists>todo c' w'. walk_round env lib room r batch w = Inr (todo, c', w') \<and>
    walk_inv env lib view room start (fst ` set todo) (c \<and> c') w' \<and> list_all (entry_ok env room start) todo"
proof -
  obtain nx missing w1 where one: "walk_batch env lib r batch w = (nx, missing, w1)" by (metis prod_cases3)
  define M where "M = {s \<in> fst ` set batch. ce_auth_shorts env s = None}"
  from walk_batch_inv [OF ctx inv batch one]
  have inv1: "walk_inv env lib view room start (set nx \<union> M) c w1"
    and missing: "set missing = {i. \<exists>s. (s, i) \<in> set batch \<and> ce_auth_shorts env s = None}"
    and nx: "set nx \<subseteq> (chain_edges env room)\<^sup>+ `` {start}" by (simp_all add: M_def)
  obtain xs stored where xs: "legacy_auth_events env room missing = Inr (xs, stored)"
    using legacy_auth_events_value [of env room missing] by blast
  note legacy = legacy_batch [OF batch missing xs]
  obtain todo w2 where two: "visit_legacy env lib r (hash_iter lib xs) w1 = (todo, w2)" by fastforce
  have env: "chain_env_ok env room ids" and lib: "chain_lib_ok lib view" using ctx by (simp_all add: chain_ctx_def)
  note iter = chain_libD(3) [OF lib, of xs]
  have "ce_short env ` set (hash_iter lib xs) \<subseteq> (chain_edges env room)\<^sup>+ `` {start}" using legacy(1) iter by simp
  from visit_legacy_inv [OF ctx inv1 this two]
  have inv2: "walk_inv env lib view room start (set nx \<union> M \<union> fst ` set todo) c w2"
    and todo: "set todo \<subseteq> (\<lambda>i. (ce_short env i, i)) ` set xs" by (simp_all add: iter)
  have found: "ce_short env ` set xs \<subseteq> wk_found w2" using visit_legacy_grows [OF two] iter by auto
  define resolved where "resolved = list_all (\<lambda>s. ce_event_id env s \<noteq> None) nx"
  define S where "S = M \<union> {s \<in> set nx. ce_event_id env s = None}"
  have "walk_inv env lib view room start (set nx \<union> M \<union> fst ` set todo - S) (c \<and> resolved \<and> stored) w2"
  proof (rule walk_inv_settle [OF inv2])
    fix x assume x: "x \<in> S"
    show "auth_succ env room x \<subseteq> wk_found w2"
      using x legacy(2) [of x] found by (auto simp: S_def M_def auth_succ_def)
    show "auth_known env room x" if "c \<and> resolved \<and> stored"
      using x that legacy(2) [of x] by (auto simp: S_def M_def resolved_def list_all_iff)
  qed simp
  then have "walk_inv env lib view room start (fst ` set (resolve_shorts env nx @ todo)) (c \<and> resolved \<and> stored) w2"
    by (rule walk_inv_pending_mono) (auto simp: S_def image_Un resolve_shorts_fst)
  moreover have "list_all (entry_ok env room start) (resolve_shorts env nx @ todo)"
    using todo legacy(3) [OF env] nx
    by (auto simp: list_all_iff resolve_shorts_set entry_ok_def dest!: subsetD intro: trancl_into_rtrancl)
  moreover have "walk_round env lib room r batch w = Inr (resolve_shorts env nx @ todo, resolved \<and> stored, w2)"
    by (simp add: walk_round_def one xs two resolved_def)
  ultimately show ?thesis by blast
qed

lemma walk_loop_closure:
  "chain_ctx env lib view room r ids \<Longrightarrow> walk_inv env lib view room start (fst ` set todo) c w \<Longrightarrow>
    list_all (entry_ok env room start) todo \<Longrightarrow>
    \<exists>c' w'. walk_loop env lib room r todo c w = Inr (c', w') \<and> walk_inv env lib view room start {} c' w'"
proof (induction env lib room r todo c w rule: walk_loop.induct)
  case (1 env lib room r todo c w)
  show ?case
  proof (cases "todo = []")
    case True
    with "1.prems"(2) show ?thesis by (simp add: walk_loop.simps)
  next
    case False
    obtain todo' c' w' where round: "walk_round env lib room r todo w = Inr (todo', c', w')"
      and "walk_inv env lib view room start (fst ` set todo') (c \<and> c') w'" "list_all (entry_ok env room start) todo'"
      using walk_round_inv [OF "1.prems"] by blast
    from "1.IH" [OF False round refl refl "1.prems"(1) this(2,3)] show ?thesis
      using False round by (simp add: walk_loop.simps [of env lib room r todo])
  qed
qed


text \<open>The chain of one event.\<close>

lemma closed_contains_closure:
  assumes "\<And>x. x \<in> insert s A \<Longrightarrow> auth_succ env room x \<subseteq> A"
  shows "(chain_edges env room)\<^sup>+ `` {s} \<subseteq> A"
proof
  fix t assume "t \<in> (chain_edges env room)\<^sup>+ `` {s}"
  then have "(s, t) \<in> (chain_edges env room)\<^sup>+" by simp
  then show "t \<in> A" by (induction rule: trancl_induct) (use assms in \<open>auto simp: chain_edges_def\<close>)
qed

lemma add_derived_create_event_value:
  "snd (add_derived_create_event env room None chain) = chain \<union> derived_create env room"
  by (auto simp: add_derived_create_event_def derived_create_def split: option.splits)

lemma add_derived_create_event_bounds:
  assumes "add_derived_create_event env room exclude chain = (known, chain')"
  shows "chain \<subseteq> chain'" and "chain' \<subseteq> chain \<union> derived_create env room"
  using assms by (auto simp: add_derived_create_event_def derived_create_def split: option.splits if_split_asm)

lemma derived_create_known:
  assumes "chain_ctx env lib view room r ids" "x \<in> derived_create env room"
  shows "auth_known env room x"
proof -
  from assms(2) obtain c where c: "ce_get_short env c = Some x" "get_pdu_in_room env room c \<noteq> None"
    by (auto simp: derived_create_def split: option.splits if_split_asm)
  with assms(1) have "ce_event_id env x = Some c" unfolding chain_ctx_def chain_env_ok_def by blast
  with c show ?thesis by (simp add: auth_known_def)
qed

lemma get_auth_chain_inner_closure:
  assumes ctx: "chain_ctx env lib view room r ids" and ok: "chain_cache_ok env lib view d"
    and short: "ce_event_id env s = Some i"
  shows "\<exists>chain c d'. get_auth_chain_inner env lib room r i s d = Inr (chain, c, d') \<and>
    (chain_edges env room)\<^sup>+ `` {s} \<subseteq> chain \<and>
    chain \<subseteq> (chain_edges env room)\<^sup>+ `` {s} \<union> derived_create env room \<and>
    (c \<longrightarrow> chain_of env room s chain) \<and> chain_cache_ok env lib view d'"
proof -
  have "walk_inv env lib view room s (fst ` set [(s, i)]) True \<lparr>wk_found = {}, wk_data = d\<rparr>"
    using ok by (simp add: walk_inv_def)
  moreover have "list_all (entry_ok env room s) [(s, i)]" using short by (simp add: entry_ok_def)
  ultimately obtain c w where loop: "walk_loop env lib room r [(s, i)] True \<lparr>wk_found = {}, wk_data = d\<rparr> = Inr (c, w)"
    and inv: "walk_inv env lib view room s {} c w"
    using walk_loop_closure [OF ctx] by blast
  obtain known chain where add: "add_derived_create_event env room (Some i) (wk_found w) = (known, chain)" by fastforce
  note bounds = add_derived_create_event_bounds [OF add]
  have "(chain_edges env room)\<^sup>+ `` {s} \<subseteq> wk_found w"
    using inv by (intro closed_contains_closure) (auto simp: walk_inv_def)
  with bounds have lower: "(chain_edges env room)\<^sup>+ `` {s} \<subseteq> chain" by blast
  have upper: "chain \<subseteq> (chain_edges env room)\<^sup>+ `` {s} \<union> derived_create env room"
    using inv bounds unfolding walk_inv_def by blast
  have "chain_of env room s chain" if c
  proof -
    have "auth_known env room x" if "x \<in> insert s chain" for x
      using that inv bounds \<open>c\<close> derived_create_known [OF ctx] unfolding walk_inv_def by blast
    with lower upper show ?thesis unfolding chain_of_def by blast
  qed
  moreover have "get_auth_chain_inner env lib room r i s d = Inr (chain, c \<and> known, wk_data w)"
    by (simp add: get_auth_chain_inner_def loop add)
  ultimately show ?thesis using lower upper inv unfolding walk_inv_def by blast
qed


text \<open>Several starting events: the cached ones, then the others.\<close>

lemma rtrancl_Image_insert: "r\<^sup>* `` insert s S = insert s (r\<^sup>+ `` {s} \<union> r\<^sup>* `` S)"
  by (auto simp: rtrancl_eq_or_trancl)

lemma two_pass_union:
  "U \<subseteq> S \<Longrightarrow> S \<subseteq> A \<union> U \<Longrightarrow> A \<subseteq> S \<union> D \<Longrightarrow> U \<subseteq> B \<Longrightarrow> B \<subseteq> U \<union> D \<Longrightarrow> A \<union> B \<union> D = S \<union> D"
  by blast

lemma start_bounds_step:
  "R \<subseteq> A \<union> U \<Longrightarrow> A \<subseteq> R \<union> D \<Longrightarrow>
     insert s (T \<union> R) \<subseteq> A \<union> insert s (T \<union> U) \<and> A \<subseteq> insert s (T \<union> R) \<union> D"
  "R \<subseteq> A \<union> U \<Longrightarrow> A \<subseteq> R \<union> D \<Longrightarrow> T \<subseteq> B \<Longrightarrow> B \<subseteq> T \<union> D \<Longrightarrow>
     insert s (T \<union> R) \<subseteq> insert s (B \<union> A) \<union> U \<and> insert s (B \<union> A) \<subseteq> insert s (T \<union> R) \<union> D"
  by blast+

lemma cached_starts_bounds:
  assumes ctx: "chain_ctx env lib view room r ids"
  shows "chain_cache_ok env lib view d \<Longrightarrow> cached_starts lib r starts d = (chain, uncached, d') \<Longrightarrow>
    chain_cache_ok env lib view d' \<and> set uncached \<subseteq> set starts \<and>
    (chain_edges env room)\<^sup>* `` (fst ` set starts) \<subseteq> chain \<union> (chain_edges env room)\<^sup>* `` (fst ` set uncached) \<and>
    chain \<subseteq> (chain_edges env room)\<^sup>* `` (fst ` set starts) \<union> derived_create env room"
proof (induction starts arbitrary: d chain uncached d')
  case (Cons e starts)
  obtain s i where e: "e = (s, i)" by fastforce
  let ?C = "\<lambda>S. (chain_edges env room)\<^sup>* `` S" and ?T = "(chain_edges env room)\<^sup>+ `` {s}"
  obtain res d1 where get: "get_cached_eventid_authchain lib r s d = (res, d1)" by fastforce
  obtain ch un d2 where rest: "cached_starts lib r starts d1 = (ch, un, d2)" by (metis prod_cases3)
  note looked = chain_ctx_lookup [OF ctx Cons.prems(1) get]
  note IH = Cons.IH [OF conjunct1 [OF looked] rest]
  show ?case
  proof (cases res)
    case None
    then have "chain = ch" "uncached = (s, i) # un" "d' = d2" using Cons.prems(2) get rest by (auto simp: e)
    with IH start_bounds_step(1) [where R = "?C (fst ` set starts)" and A = ch and U = "?C (fst ` set un)"
        and D = "derived_create env room" and s = s and T = ?T] show ?thesis by (simp add: e rtrancl_Image_insert subset_insertI2)
  next
    case (Some cached)
    then have "chain = insert s (cached \<union> ch)" "uncached = un" "d' = d2"
      using Cons.prems(2) get rest by (auto simp: e)
    moreover have "chain_of env room s cached" using looked Some by blast
    ultimately show ?thesis
      using IH start_bounds_step(2) [where R = "?C (fst ` set starts)" and A = ch and U = "?C (fst ` set un)"
        and D = "derived_create env room" and s = s and T = ?T and B = cached] by (simp add: e rtrancl_Image_insert chain_of_def subset_insertI2)
  qed
qed simp

lemma walk_starts_bounds:
  assumes ctx: "chain_ctx env lib view room r ids"
  shows "chain_cache_ok env lib view d \<Longrightarrow> (\<And>s i. (s, i) \<in> set starts \<Longrightarrow> ce_event_id env s = Some i) \<Longrightarrow>
    \<exists>chain d'. walk_starts env lib room r starts d = Inr (chain, d') \<and> chain_cache_ok env lib view d' \<and>
    (chain_edges env room)\<^sup>* `` (fst ` set starts) \<subseteq> chain \<and>
    chain \<subseteq> (chain_edges env room)\<^sup>* `` (fst ` set starts) \<union> derived_create env room"
proof (induction starts arbitrary: d)
  case (Cons e starts)
  obtain s i where e: "e = (s, i)" by fastforce
  let ?C = "\<lambda>S. (chain_edges env room)\<^sup>* `` S" and ?T = "(chain_edges env room)\<^sup>+ `` {s}"
  obtain res d1 where get: "get_cached_eventid_authchain lib r s d = (res, d1)" by fastforce
  note looked = chain_ctx_lookup [OF ctx Cons.prems(1) get]
  show ?case
  proof (cases res)
    case (Some cached)
    obtain ch d2 where "walk_starts env lib room r starts d1 = Inr (ch, d2)" "chain_cache_ok env lib view d2"
      "(chain_edges env room)\<^sup>* `` (fst ` set starts) \<subseteq> ch"
      "ch \<subseteq> (chain_edges env room)\<^sup>* `` (fst ` set starts) \<union> derived_create env room"
      using Cons.IH [of d1] looked Cons.prems(2) by auto
    moreover have "chain_of env room s cached" using looked Some by blast
    ultimately show ?thesis
      using start_bounds_step(2) [where R = "?C (fst ` set starts)" and U = "{}"
        and D = "derived_create env room" and s = s and T = ?T and A = ch and B = cached]
      by (simp add: e rtrancl_Image_insert chain_of_def get Some)
  next
    case None
    obtain one c d2 where inner: "get_auth_chain_inner env lib room r i s d1 = Inr (one, c, d2)"
      and one: "(chain_edges env room)\<^sup>+ `` {s} \<subseteq> one"
        "one \<subseteq> (chain_edges env room)\<^sup>+ `` {s} \<union> derived_create env room"
      and complete: "c \<longrightarrow> chain_of env room s one" and ok: "chain_cache_ok env lib view d2"
      using get_auth_chain_inner_closure [OF ctx conjunct1 [OF looked], of s i] Cons.prems(2) by (auto simp: e)
    define d3 where "d3 = (if c then cache_auth_chain lib r s one d2 else d2)"
    have only: "room' = room" if "ce_shortroomid env room' = Some r" for room'
      using ctx that unfolding chain_ctx_def chain_env_ok_def by blast
    have "chain_cache_ok env lib view d3"
      using ok complete cache_store [OF _ ok only] ctx by (simp add: d3_def chain_ctx_def)
    then obtain ch d4 where "walk_starts env lib room r starts d3 = Inr (ch, d4)" "chain_cache_ok env lib view d4"
      "(chain_edges env room)\<^sup>* `` (fst ` set starts) \<subseteq> ch"
      "ch \<subseteq> (chain_edges env room)\<^sup>* `` (fst ` set starts) \<union> derived_create env room"
      using Cons.IH [of d3] Cons.prems(2) by auto
    moreover from this(1) have "walk_starts env lib room r (e # starts) d = Inr (insert s (one \<union> ch), d4)"
      by (simp add: e get None inner d3_def [symmetric])
    ultimately show ?thesis
      using one start_bounds_step(2) [where R = "?C (fst ` set starts)" and U = "{}"
        and D = "derived_create env room" and s = s and T = ?T and A = ch and B = one] by (simp add: e rtrancl_Image_insert)
  qed
qed simp

text \<open>Caches that are emptied hold only chains.\<close>

lemma cleared_cache_ok:
  assumes "chain_lib_ok lib view" "chain_cache_ok env lib view d"
  shows "chain_cache_ok env lib view (clear_cache lib d)" and "chain_cache_ok env lib view (clear_db_cache lib d)"
  using assms chain_libD(5) [OF assms(1)] by (simp_all add: chain_cache_ok_def clear_cache_def clear_db_cache_def)

text \<open>
  A chain stays a chain when the tables grow: events that were known keep their auth events.
\<close>

lemma chain_of_grows:
  assumes chain: "chain_of env room s chain"
    and keep: "\<And>x. auth_known env room x \<Longrightarrow> auth_known env' room x \<and> auth_succ env' room x = auth_succ env room x"
    and create: "derived_create env room \<subseteq> derived_create env' room"
  shows "chain_of env' room s chain"
proof -
  have known: "auth_known env room x" if "x \<in> insert s chain" for x using chain that unfolding chain_of_def by blast
  have low: "(chain_edges env room)\<^sup>+ `` {s} \<subseteq> chain" using chain by (simp add: chain_of_def)
  have "(s, t) \<in> (chain_edges env' room)\<^sup>+ \<longleftrightarrow> (s, t) \<in> (chain_edges env room)\<^sup>+" for t
  proof
    assume "(s, t) \<in> (chain_edges env' room)\<^sup>+"
    then show "(s, t) \<in> (chain_edges env room)\<^sup>+"
    proof (induction rule: trancl_induct)
      case (step y z)
      with low have "y \<in> chain" by blast
      with known keep step(2) have "(y, z) \<in> chain_edges env room" by (auto simp: chain_edges_def)
      with step(3) show ?case by (rule trancl_into_trancl)
    qed (use known keep in \<open>auto simp: chain_edges_def\<close>)
  next
    assume "(s, t) \<in> (chain_edges env room)\<^sup>+"
    then show "(s, t) \<in> (chain_edges env' room)\<^sup>+"
    proof (induction rule: trancl_induct)
      case (step y z)
      with low have "y \<in> chain" by blast
      with known keep step(2) have "(y, z) \<in> chain_edges env' room" by (auto simp: chain_edges_def)
      with step(3) show ?case by (rule trancl_into_trancl)
    qed (use known keep in \<open>auto simp: chain_edges_def\<close>)
  qed
  then have "(chain_edges env' room)\<^sup>+ `` {s} = (chain_edges env room)\<^sup>+ `` {s}" by blast
  with chain known keep create show ?thesis unfolding chain_of_def by blast
qed

text \<open>
  C15: The auth chain of events is the reflexive transitive closure of the auth edges the tables
  hold, with the create event that the room identifier names: the walk always returns, it never
  reports an event of another room, and its result does not depend on what either level of the
  cache holds or has forgotten, provided what it holds are chains; the chains it adds to the cache
  are.
\<close>

theorem auth_chain_is_closure:
  assumes "chain_lib_ok lib view" "chain_env_ok env room ids" "ce_shortroomid env room = Some r"
    and "set starting_events \<subseteq> ids" and ok: "chain_cache_ok env lib view d"
  shows "\<exists>d'. get_auth_chain_bitmap env lib room starting_events d =
      Inr ((chain_edges env room)\<^sup>* `` (ce_short env ` set starting_events) \<union> derived_create env room, d') \<and>
    chain_cache_ok env lib view d'"
proof -
  have ctx: "chain_ctx env lib view room r ids" using assms by (simp add: chain_ctx_def)
  define starts where "starts = map (\<lambda>i. (ce_short env i, i)) starting_events"
  have fst: "fst ` set starts = ce_short env ` set starting_events" by (force simp: starts_def)
  have names: "ce_event_id env s = Some i" if "(s, i) \<in> set starts" for s i
    using that assms(2,4) unfolding chain_env_ok_def starts_def by auto
  obtain ch un d1 where one: "cached_starts lib r starts d = (ch, un, d1)" by (metis prod_cases3)
  note first = cached_starts_bounds [OF ctx ok one]
  have "\<And>s i. (s, i) \<in> set un \<Longrightarrow> ce_event_id env s = Some i" using first names by blast
  from walk_starts_bounds [where starts = un, OF ctx conjunct1 [OF first] this] obtain ch2 d2
    where two: "walk_starts env lib room r un d1 = Inr (ch2, d2)" and ok2: "chain_cache_ok env lib view d2"
      and low: "(chain_edges env room)\<^sup>* `` (fst ` set un) \<subseteq> ch2"
      and up: "ch2 \<subseteq> (chain_edges env room)\<^sup>* `` (fst ` set un) \<union> derived_create env room" by auto
  let ?C = "\<lambda>S. (chain_edges env room)\<^sup>* `` S"
  have "?C (fst ` set un) \<subseteq> ?C (fst ` set starts)" using first by (intro Image_mono image_mono) auto
  moreover from first have "?C (fst ` set starts) \<subseteq> ch \<union> ?C (fst ` set un)"
    "ch \<subseteq> ?C (fst ` set starts) \<union> derived_create env room" by simp_all
  ultimately have "ch \<union> ch2 \<union> derived_create env room = ?C (fst ` set starts) \<union> derived_create env room"
    using low up by (intro two_pass_union [where U = "?C (fst ` set un)"])
  then have "get_auth_chain_bitmap env lib room starting_events d =
      Inr ((chain_edges env room)\<^sup>* `` (ce_short env ` set starting_events) \<union> derived_create env room, d2)"
    using assms(3) one two fst
    by (simp add: get_auth_chain_bitmap_def add_derived_create_event_value starts_def [symmetric])
  with ok2 show ?thesis by blast
qed

text \<open>
  A concrete setting for the witness: a cache that never evicts, the packed legacy format as the
  serialisation, and a room named by its create event \<open>$r\<close> with a stored edge list for \<open>$m\<close> and
  none for \<open>$n\<close>, whose auth event is \<open>$m\<close>.
\<close>

definition sample_chain_lib :: "((u64 \<times> u64) \<Rightarrow> u64 set option) chain_lib" where
  "sample_chain_lib =
     \<lparr>lru_get = (\<lambda>k c. (c k, c)), lru_insert = (\<lambda>k v c. c(k \<mapsto> v)), lru_empty = Map.empty, hash_iter = remdups,
      bitmap_serialize = (\<lambda>bm. concat (map u64_to_be_bytes (sorted_list_of_set bm))),
      bitmap_deserialize = (\<lambda>raw. Some (set (map u64_from_be_bytes (chunks8 raw))))\<rparr>"

definition sample_chain_event :: "event_id \<Rightarrow> event_type \<Rightarrow> event_id list \<Rightarrow> event" where
  "sample_chain_event i k auth =
     (sample_event i ''@a:x'' k (Some '''') ''create'' auth)
       \<lparr>ev_room_id := if k = RoomCreate then None else Some ''!r''\<rparr>"

definition sample_chain_env :: "json chain_env" where
  "sample_chain_env =
     \<lparr>ce_codec = sample_codec, ce_shortroomid = [''!r'' \<mapsto> 7],
      ce_short = (\<lambda>i. if i = ''$r'' then 1 else if i = ''$m'' then 2 else 3),
      ce_get_short = [''$r'' \<mapsto> 1, ''$m'' \<mapsto> 2, ''$n'' \<mapsto> 3],
      ce_event_id = [1 \<mapsto> ''$r'', 2 \<mapsto> ''$m'', 3 \<mapsto> ''$n''], ce_auth_shorts = [2 \<mapsto> []],
      ce_stored = [''$r'' \<mapsto> sample_chain_event ''$r'' RoomCreate [],
        ''$m'' \<mapsto> sample_chain_event ''$m'' RoomMember [],
        ''$n'' \<mapsto> sample_chain_event ''$n'' RoomJoinRules [''$m'']]\<rparr>"

lemma chunks8_packed: "chunks8 (concat (map u64_to_be_bytes xs)) = map u64_to_be_bytes xs"
proof (induction xs)
  case Nil
  show ?case by (simp add: chunks8.simps)
next
  case (Cons x xs)
  then show ?case by (simp add: chunks8.simps [of "u64_to_be_bytes x @ concat (map u64_to_be_bytes xs)"])
qed

lemma sample_chain_lib_ok: "chain_lib_ok sample_chain_lib id"
  by (simp add: chain_lib_ok_def sample_chain_lib_def chunks8_packed image_image)

lemma sample_chain_pdu:
  "get_pdu_in_room sample_chain_env ''!r'' i = ce_stored sample_chain_env i"
  by (simp add: get_pdu_in_room_def sample_chain_env_def sample_chain_event_def sample_event_def
    room_id_or_hash_def sample_codec_def split: option.splits)

lemma sample_chain_succ:
  "auth_succ sample_chain_env ''!r'' s = (if s = 3 then {2} else {})"
  unfolding auth_succ_def sample_chain_pdu
  by (simp add: sample_chain_env_def sample_chain_event_def sample_event_def)

lemma sample_chain_derived: "derived_create sample_chain_env ''!r'' = {1}"
proof -
  have "derived_create_id sample_chain_env ''!r'' = Some ''$r''"
    by (simp add: derived_create_id_def sample_chain_env_def sample_codec_def)
  then show ?thesis by (simp add: derived_create_def sample_chain_pdu) (simp add: sample_chain_env_def)
qed

lemma sample_chain_env_ok: "chain_env_ok sample_chain_env ''!r'' {''$r'', ''$m'', ''$n''}"
  by (simp add: chain_env_ok_def sample_chain_succ sample_chain_derived)
    (auto simp: sample_chain_env_def sample_chain_event_def sample_event_def split: if_split_asm)

lemma sample_chain_closure: "(chain_edges sample_chain_env ''!r'')\<^sup>* `` {3} = {2, 3}"
proof -
  have edges: "chain_edges sample_chain_env ''!r'' = {(3, 2)}"
    by (auto simp: chain_edges_def sample_chain_succ split: if_split_asm)
  have "(3, t) \<in> {(3, 2)}\<^sup>* \<Longrightarrow> t \<in> {2, 3}" for t :: u64 by (induction rule: rtrancl_induct) auto
  then show ?thesis unfolding edges by auto
qed

theorem auth_chain_is_closure_witness:
  "\<exists>d'. get_auth_chain_bitmap sample_chain_env sample_chain_lib ''!r'' [''$n''] \<lparr>cd_ram = Map.empty, cd_db = Map.empty\<rparr> =
      Inr ({1, 2, 3}, d')"
proof -
  have "chain_cache_ok sample_chain_env sample_chain_lib id \<lparr>cd_ram = Map.empty, cd_db = Map.empty\<rparr>"
    by (simp add: chain_cache_ok_def)
  moreover have "ce_shortroomid sample_chain_env ''!r'' = Some 7" "ce_short sample_chain_env ''$n'' = 3"
    by (simp_all add: sample_chain_env_def)
  ultimately show ?thesis
    using auth_chain_is_closure [OF sample_chain_lib_ok sample_chain_env_ok, of 7 "[''$n'']"]
    by (auto simp: sample_chain_closure sample_chain_derived insert_commute)
qed

end
