(* ===== verification/Reconcile_Queue.thy ===== *)
theory Reconcile_Queue
  imports Prelude
begin

text \<open>
  The reconciliation worker's queue (\<^verbatim>\<open>service/rooms/reconcile/queue.rs\<close>) and the parts of the
  worker that drive it (\<^verbatim>\<open>reconcile/mod.rs\<close>): admission of triggers, the rate budget, the start of
  exchanges and the verdicts that end them. Times are nanoseconds; the hash map of entries is an
  association list in its iteration order, which a step of the worker may change at will.
\<close>

section \<open>Durations and instants\<close>

type_synonym duration = nat
type_synonym instant = nat

definition secs :: "nat \<Rightarrow> duration" where "secs n = n * 1000000000"

definition duration_max :: duration where "duration_max = secs (2 ^ 64 - 1) + 999999999"

definition instant_max :: instant where "instant_max = secs (2 ^ 63 - 1) + 999999999"

definition u32_max :: nat where "u32_max = 2 ^ 32 - 1"

definition u32_saturating_add :: "nat \<Rightarrow> nat \<Rightarrow> nat" where
  "u32_saturating_add a b = min (a + b) u32_max"

text \<open>\<^verbatim>\<open>1_u32.checked_shl(shift).unwrap_or(u32::MAX)\<close>.\<close>

definition u32_one_shl :: "nat \<Rightarrow> nat" where
  "u32_one_shl shift = (if shift < 32 then 2 ^ shift else u32_max)"

definition duration_saturating_mul :: "duration \<Rightarrow> nat \<Rightarrow> duration" where
  "duration_saturating_mul d n = min (d * n) duration_max"

definition instant_checked_add :: "instant \<Rightarrow> duration \<Rightarrow> instant option" where
  "instant_checked_add now d = (if now + d \<le> instant_max then Some (now + d) else None)"

section \<open>The queue\<close>

datatype reason = Explicit | Periodic | Activity | IncomingGap | ReasonContinuation | Reconnect

datatype refusal = Disabled | OurServer | NotInRoom | PeerNotInRoom | Denied | QueueFull | BackingOff | Recent

datatype enqueued = Queued | Coalesced | Refused refusal

record rq_key =
  rk_room :: string
  rk_peer :: string

record rq_entry =
  queued :: bool
  in_flight :: bool
  trigger :: reason
  dirty :: bool
  failures :: nat
  not_before :: "instant option"
  retry_pending :: bool
  identical_digests :: nat
  synchronized_until :: "instant option"

record rqueue =
  rq_entries :: "(rq_key \<times> rq_entry) list"
  rq_ready :: "rq_key list"
  rq_max_tracked :: nat
  rq_backoff :: duration
  rq_backoff_max :: duration

definition backoff_base :: duration where "backoff_base = secs 5"
definition backoff_cap :: duration where "backoff_cap = secs (15 * 60)"
definition unsupported_backoff :: duration where "unsupported_backoff = secs (6 * 60 * 60)"
definition identical_digests_before_backoff :: nat where "identical_digests_before_backoff = 3"
definition identical_digest_backoff_base :: duration where "identical_digest_backoff_base = secs 60"
definition identical_digest_backoff_max :: duration where "identical_digest_backoff_max = secs (24 * 60 * 60)"

datatype verdict = VDone | VContinuation | VSynchronized | VFailed | VUnsupported | VDropped

definition backoff :: "duration \<Rightarrow> duration \<Rightarrow> nat \<Rightarrow> duration" where
  "backoff base cap n = min (duration_saturating_mul base (u32_one_shl (n - 1))) (max cap base)"

definition entry_default :: rq_entry where
  "entry_default =
     \<lparr>queued = False, in_flight = False, trigger = Periodic, dirty = False, failures = 0, not_before = None,
      retry_pending = False, identical_digests = 0, synchronized_until = None\<rparr>"

text \<open>\<^verbatim>\<open>is_some_and(|t| t > now)\<close>: a delay that has not been served.\<close>

fun pending_until :: "instant option \<Rightarrow> instant \<Rightarrow> bool" where
  "pending_until None now = False"
| "pending_until (Some t) now = (t > now)"

definition backing_off :: "rq_entry \<Rightarrow> instant \<Rightarrow> bool" where
  "backing_off e now = (pending_until (not_before e) now \<or> pending_until (synchronized_until e) now)"

definition rq_get :: "rqueue \<Rightarrow> rq_key \<Rightarrow> rq_entry option" where
  "rq_get q k = map_of (rq_entries q) k"

definition rq_put :: "rq_key \<Rightarrow> rq_entry \<Rightarrow> rqueue \<Rightarrow> rqueue" where
  "rq_put k e q = q\<lparr>rq_entries := AList.update k e (rq_entries q)\<rparr>"

definition rq_push :: "rq_key \<Rightarrow> rqueue \<Rightarrow> rqueue" where
  "rq_push k q = q\<lparr>rq_ready := rq_ready q @ [k]\<rparr>"

definition rq_remove :: "rq_key \<Rightarrow> rqueue \<Rightarrow> rqueue" where
  "rq_remove k q = q\<lparr>rq_entries := AList.delete k (rq_entries q)\<rparr>"

definition cooling_down :: "rqueue \<Rightarrow> rq_key \<Rightarrow> instant \<Rightarrow> bool" where
  "cooling_down q k now =
     (case rq_get q k of None \<Rightarrow> False | Some e \<Rightarrow> backing_off e now)"

definition reset_synchronized_for_room :: "string \<Rightarrow> rqueue \<Rightarrow> rqueue" where
  "reset_synchronized_for_room room q =
     q\<lparr>rq_entries := map (\<lambda>(k, e).
        (k, if rk_room k = room then e\<lparr>identical_digests := 0, synchronized_until := None\<rparr> else e)) (rq_entries q)\<rparr>"

definition peer_reachable :: "rq_key \<Rightarrow> rqueue \<Rightarrow> rqueue" where
  "peer_reachable k q =
     (case rq_get q k of
        None \<Rightarrow> q
      | Some e \<Rightarrow> rq_put k (e\<lparr>failures := 0, not_before := None\<rparr>) q)"

definition rq_new :: "nat \<Rightarrow> rqueue" where
  "rq_new max_tracked =
     \<lparr>rq_entries = [], rq_ready = [], rq_max_tracked = max_tracked, rq_backoff = backoff_base,
      rq_backoff_max = backoff_cap\<rparr>"

definition with_failure_backoff :: "duration \<Rightarrow> duration \<Rightarrow> rqueue \<Rightarrow> rqueue" where
  "with_failure_backoff base cap q = q\<lparr>rq_backoff := base, rq_backoff_max := cap\<rparr>"

text \<open>\<^verbatim>\<open>min_by_key\<close> over \<^verbatim>\<open>not_before\<close>, where \<^verbatim>\<open>None\<close> comes first: the first of the minima.\<close>

fun not_before_rank :: "rq_entry \<Rightarrow> nat" where
  "not_before_rank e = (case not_before e of None \<Rightarrow> 0 | Some t \<Rightarrow> Suc t)"

fun min_not_before :: "(rq_key \<times> rq_entry) list \<Rightarrow> (rq_key \<times> rq_entry) option" where
  "min_not_before [] = None"
| "min_not_before (x # xs) =
     (case min_not_before xs of
        None \<Rightarrow> Some x
      | Some y \<Rightarrow> if not_before_rank (snd x) \<le> not_before_rank (snd y) then Some x else Some y)"

definition evict_idle :: "rqueue \<Rightarrow> instant \<Rightarrow> bool \<times> rqueue" where
  "evict_idle q now =
     (let served = filter (\<lambda>(_, e). \<not> queued e \<and> \<not> in_flight e \<and> \<not> retry_pending e \<and> \<not> backing_off e now) (rq_entries q);
          failed = filter (\<lambda>(_, e). \<not> queued e \<and> \<not> in_flight e \<and> retry_pending e) (rq_entries q);
          victim = (case min_not_before served of Some x \<Rightarrow> Some x | None \<Rightarrow> min_not_before failed)
      in case victim of
           None \<Rightarrow> (False, q)
         | Some (k, _) \<Rightarrow> (True, rq_remove k q))"

definition enqueue :: "rqueue \<Rightarrow> rq_key \<Rightarrow> reason \<Rightarrow> instant \<Rightarrow> enqueued \<times> rqueue" where
  "enqueue q k r now =
     (case rq_get q k of
        Some e0 \<Rightarrow>
          (let e = (if r \<noteq> Periodic then e0\<lparr>identical_digests := 0, synchronized_until := None\<rparr> else e0)
           in if in_flight e then
                (Coalesced, rq_put k (if r \<noteq> Periodic then e\<lparr>dirty := True, trigger := r\<rparr> else e) q)
              else if queued e then
                (Coalesced, rq_put k (if r \<noteq> Periodic then e\<lparr>trigger := r\<rparr> else e) q)
              else if r = Explicit then
                (Queued, rq_push k (rq_put k
                  (e\<lparr>not_before := None, synchronized_until := None, queued := True, trigger := r\<rparr>) q))
              else if backing_off e now then (Refused BackingOff, rq_put k e q)
              else (Queued, rq_push k (rq_put k (e\<lparr>queued := True, trigger := r\<rparr>) q)))
      | None \<Rightarrow>
          (let (room, q') = (if length (rq_entries q) \<ge> rq_max_tracked q then evict_idle q now else (True, q))
           in if room then (Queued, rq_push k (rq_put k (entry_default\<lparr>queued := True, trigger := r\<rparr>) q'))
              else (Refused QueueFull, q')))"

definition retry_due :: "rq_entry \<Rightarrow> instant \<Rightarrow> bool" where
  "retry_due e now =
     (retry_pending e \<and> \<not> queued e \<and> \<not> in_flight e \<and> \<not> pending_until (not_before e) now)"

definition requeue_due_retries :: "rqueue \<Rightarrow> instant \<Rightarrow> bool \<times> rqueue" where
  "requeue_due_retries q now =
     (let due = map fst (filter (\<lambda>(_, e). retry_due e now) (rq_entries q));
          entries = map (\<lambda>(k, e).
            (k, if retry_due e now then e\<lparr>retry_pending := False, queued := True, trigger := Periodic\<rparr> else e)) (rq_entries q)
      in (due \<noteq> [], q\<lparr>rq_entries := entries, rq_ready := rq_ready q @ due\<rparr>))"

text \<open>The scan of the ready list for the first pair that may run.\<close>

definition may_run :: "rqueue \<Rightarrow> instant \<Rightarrow> nat \<Rightarrow> bool \<Rightarrow> bool \<Rightarrow> rq_key \<Rightarrow> bool" where
  "may_run q now max_per_peer periodic_allowed priority k =
     (case rq_get q k of
        None \<Rightarrow> False
      | Some e \<Rightarrow>
          (trigger e \<noteq> Periodic) = priority \<and> (priority \<or> periodic_allowed) \<and>
          length (filter (\<lambda>(k', e'). in_flight e' \<and> rk_peer k' = rk_peer k) (rq_entries q)) < max_per_peer \<and>
          \<not> backing_off e now)"

fun first_index :: "('a \<Rightarrow> bool) \<Rightarrow> 'a list \<Rightarrow> nat option" where
  "first_index P [] = None"
| "first_index P (x # xs) = (if P x then Some 0 else map_option Suc (first_index P xs))"

definition take_ready :: "rqueue \<Rightarrow> nat \<Rightarrow> (rq_key \<times> reason) option \<times> rqueue" where
  "take_ready q i =
     (let k = rq_ready q ! i; q' = q\<lparr>rq_ready := take i (rq_ready q) @ drop (Suc i) (rq_ready q)\<rparr>
      in case rq_get q k of
           None \<Rightarrow> (None, q')
         | Some e \<Rightarrow>
             (Some (k, trigger e),
              rq_put k (e\<lparr>queued := False, retry_pending := False, in_flight := True, dirty := False, trigger := Periodic\<rparr>) q'))"

definition next_ready ::
  "rqueue \<Rightarrow> instant \<Rightarrow> nat \<Rightarrow> nat \<Rightarrow> bool \<Rightarrow> (rq_key \<times> reason) option \<times> rqueue" where
  "next_ready q now max_concurrent max_per_peer periodic_allowed =
     (let running = length (filter (\<lambda>(_, e). in_flight e) (rq_entries q))
      in if running \<ge> max_concurrent then (None, q)
         else case first_index (may_run q now max_per_peer periodic_allowed True) (rq_ready q) of
                Some i \<Rightarrow> take_ready q i
              | None \<Rightarrow>
                  (case first_index (may_run q now max_per_peer periodic_allowed False) (rq_ready q) of
                     Some i \<Rightarrow> take_ready q i
                   | None \<Rightarrow> (None, q)))"

text \<open>How a verdict changes the cooldowns of an entry.\<close>

definition settle :: "rqueue \<Rightarrow> verdict \<Rightarrow> instant \<Rightarrow> rq_entry \<Rightarrow> rq_entry" where
  "settle q v now e =
     (case v of
        VSynchronized \<Rightarrow>
          (let e = e\<lparr>failures := 0, not_before := None\<rparr>
           in if dirty e then e\<lparr>identical_digests := 0, synchronized_until := None\<rparr>
              else
                let n = u32_saturating_add (identical_digests e) 1; e = e\<lparr>identical_digests := n\<rparr>
                in if n \<ge> identical_digests_before_backoff
                   then e\<lparr>synchronized_until := instant_checked_add now
                     (min (duration_saturating_mul identical_digest_backoff_base
                        (u32_one_shl (n - identical_digests_before_backoff))) identical_digest_backoff_max)\<rparr>
                   else e)
      | VFailed \<Rightarrow>
          (let n = u32_saturating_add (failures e) 1
           in e\<lparr>retry_pending := True, failures := n,
                not_before := instant_checked_add now (backoff (rq_backoff q) (rq_backoff_max q) n),
                identical_digests := 0, synchronized_until := None\<rparr>)
      | VUnsupported \<Rightarrow>
          e\<lparr>failures := u32_saturating_add (failures e) 1,
            not_before := instant_checked_add now unsupported_backoff,
            identical_digests := 0, synchronized_until := None\<rparr>
      | _ \<Rightarrow> e\<lparr>failures := 0, not_before := None, identical_digests := 0, synchronized_until := None\<rparr>)"

definition finish :: "rqueue \<Rightarrow> rq_key \<Rightarrow> verdict \<Rightarrow> instant \<Rightarrow> bool \<times> rqueue" where
  "finish q k v now =
     (if v = VDropped then (False, rq_remove k q)
      else case rq_get q k of
             None \<Rightarrow> (False, q)
           | Some e0 \<Rightarrow>
               (let e = settle q v now (e0\<lparr>in_flight := False\<rparr>)
                in if v = VContinuation then
                     (True, rq_push k (rq_put k (e\<lparr>dirty := False, queued := True, trigger := ReasonContinuation\<rparr>) q))
                   else if dirty e then
                     (let e = e\<lparr>dirty := False, queued := True\<rparr>
                      in (True, rq_push k (rq_put k
                           (if trigger e = Explicit then e\<lparr>not_before := None, synchronized_until := None\<rparr> else e) q)))
                   else if failures e = 0 \<and> identical_digests e = 0 then (False, rq_remove k q)
                   else (False, rq_put k e q)))"


section \<open>The worker\<close>

definition max_concurrent :: nat where "max_concurrent = 4"
definition max_per_peer :: nat where "max_per_peer = 2"
definition max_tracked :: nat where "max_tracked = 4096"
definition max_exchanges_per_second :: nat where "max_exchanges_per_second = 4"

record rate_budget =
  window_start :: instant
  started :: nat

definition rate_available :: "rate_budget \<Rightarrow> instant \<Rightarrow> bool \<times> rate_budget" where
  "rate_available rate now =
     (let rate' = (if now - window_start rate \<ge> secs 1 then \<lparr>window_start = now, started = 0\<rparr> else rate)
      in (started rate' < max_exchanges_per_second, rate'))"

definition rate_wait :: "rate_budget \<Rightarrow> instant \<Rightarrow> duration" where
  "rate_wait rate now =
     (if started rate < max_exchanges_per_second then secs 1 else secs 1 - (now - window_start rate))"

text \<open>
  The worker's state: the queue, the rate budget, the pairs remembered by the activity debounce,
  and the spawned tasks that have not reported their verdict.
\<close>

record worker =
  wk_queue :: rqueue
  wk_rate :: rate_budget
  wk_recent :: "rq_key set"
  wk_tasks :: "rq_key list"

text \<open>What the admission of a trigger asks the other services.\<close>

record admission =
  ad_enabled :: bool
  ad_window :: nat
  ad_ours :: string
  ad_aborted :: "string \<Rightarrow> bool"
  ad_server_in_room :: "string \<Rightarrow> string \<Rightarrow> bool"
  ad_acl_ok :: "string \<Rightarrow> string \<Rightarrow> bool"

definition refused_at :: "admission \<Rightarrow> worker \<Rightarrow> rq_key \<Rightarrow> reason \<Rightarrow> refusal option" where
  "refused_at ad w k r =
     (let room = rk_room k; peer = rk_peer k
      in if \<not> ad_enabled ad then Some Disabled
         else if ad_aborted ad peer then Some Denied
         else if r = Activity \<and> ad_window ad = 0 then Some Disabled
         else if r = Activity \<and> k \<in> wk_recent w then Some Recent
         else if peer = ad_ours ad then Some OurServer
         else if \<not> ad_server_in_room ad (ad_ours ad) room then Some NotInRoom
         else if \<not> ad_server_in_room ad peer room then Some PeerNotInRoom
         else if \<not> ad_acl_ok ad peer room then Some Denied
         else None)"

definition reconcile_enqueue :: "admission \<Rightarrow> worker \<Rightarrow> rq_key \<Rightarrow> reason \<Rightarrow> instant \<Rightarrow> enqueued \<times> worker" where
  "reconcile_enqueue ad w k r now =
     (case refused_at ad w k r of
        Some why \<Rightarrow> (Refused why, w)
      | None \<Rightarrow>
          (let (outcome, q) = enqueue (wk_queue w) k r now; w' = w\<lparr>wk_queue := q\<rparr>
           in (outcome, if outcome = Queued \<and> r = Activity then w'\<lparr>wk_recent := insert k (wk_recent w)\<rparr> else w')))"

text \<open>One turn of the loop of \<^verbatim>\<open>start_ready\<close>.\<close>

definition start_one :: "worker \<Rightarrow> instant \<Rightarrow> (rq_key \<times> reason) option \<times> worker" where
  "start_one w now =
     (let (periodic_allowed, rate) = rate_available (wk_rate w) now
      in case next_ready (wk_queue w) now max_concurrent max_per_peer periodic_allowed of
           (None, q) \<Rightarrow> (None, w\<lparr>wk_queue := q, wk_rate := rate\<rparr>)
         | (Some (k, r), q) \<Rightarrow>
             (Some (k, r),
              w\<lparr>wk_queue := q, wk_tasks := wk_tasks w @ [k],
                wk_rate := if r = Periodic then rate\<lparr>started := u32_saturating_add (started rate) 1\<rparr> else rate\<rparr>))"

datatype outcome =
    OSynchronized
  | ODiffers string
  | OReconciled nat nat nat nat bool
  | OAbandoned string
  | ODropped string
  | OUnsupported
  | OFailed string

fun verdict_of :: "outcome \<Rightarrow> verdict" where
  "verdict_of (OFailed _) = VFailed"
| "verdict_of (OAbandoned _) = VFailed"
| "verdict_of OUnsupported = VUnsupported"
| "verdict_of OSynchronized = VSynchronized"
| "verdict_of (OReconciled offered applied unusable failed truncated) =
     (if failed > 0 then VFailed else if truncated then VContinuation else VDone)"
| "verdict_of (ODiffers _) = VDone"
| "verdict_of (ODropped _) = VDropped"

text \<open>A task reports the outcome of its exchange.\<close>

definition task_done :: "worker \<Rightarrow> rq_key \<Rightarrow> outcome \<Rightarrow> instant \<Rightarrow> bool \<times> worker" where
  "task_done w k out now =
     (let (requeue, q) = finish (wk_queue w) k (verdict_of out) now
      in (requeue, w\<lparr>wk_queue := q, wk_tasks := remove1 k (wk_tasks w)\<rparr>))"

definition worker_new :: "duration \<Rightarrow> duration \<Rightarrow> instant \<Rightarrow> worker" where
  "worker_new base cap now =
     \<lparr>wk_queue = with_failure_backoff (secs (max base 1)) (secs cap) (rq_new max_tracked),
      wk_rate = \<lparr>window_start = now, started = 0\<rparr>, wk_recent = {}, wk_tasks = []\<rparr>"

text \<open>
  The steps of the worker, in any order and at any times: every call that takes the lock of the
  queue, the report of a spawned task, the expiry of the debounce, and a new iteration order of
  the hash map.
\<close>

datatype worker_event =
    Trigger admission rq_key reason instant
  | Retries instant
  | Start instant
  | Report rq_key outcome instant
  | Reachable rq_key
  | RoomActivity string
  | Expire "rq_key set"
  | Rehash "(rq_key \<times> rq_entry) list"

inductive worker_step :: "worker \<Rightarrow> worker_event \<Rightarrow> worker \<Rightarrow> bool" where
  step_trigger: "worker_step w (Trigger ad k r now) (snd (reconcile_enqueue ad w k r now))"
| step_retries: "worker_step w (Retries now) (w\<lparr>wk_queue := snd (requeue_due_retries (wk_queue w) now)\<rparr>)"
| step_start: "worker_step w (Start now) (snd (start_one w now))"
| step_report: "k \<in> set (wk_tasks w) \<Longrightarrow> worker_step w (Report k out now) (snd (task_done w k out now))"
| step_reachable: "worker_step w (Reachable k) (w\<lparr>wk_queue := peer_reachable k (wk_queue w)\<rparr>)"
| step_activity: "worker_step w (RoomActivity room) (w\<lparr>wk_queue := reset_synchronized_for_room room (wk_queue w)\<rparr>)"
| step_expire: "worker_step w (Expire gone) (w\<lparr>wk_recent := wk_recent w - gone\<rparr>)"
| step_rehash:
    "distinct (map fst es) \<Longrightarrow> set es = set (rq_entries (wk_queue w)) \<Longrightarrow>
     worker_step w (Rehash es) (w\<lparr>wk_queue := wk_queue w\<lparr>rq_entries := es\<rparr>\<rparr>)"

inductive worker_run :: "worker \<Rightarrow> worker_event list \<Rightarrow> worker \<Rightarrow> bool" where
  run_nil: "worker_run w [] w"
| run_step: "worker_step w ev w' \<Longrightarrow> worker_run w' evs w'' \<Longrightarrow> worker_run w (ev # evs) w''"

inductive_cases worker_stepE: "worker_step w ev w'"

end
