(* ===== verification/Reconcile_Worker.thy ===== *)
theory Reconcile_Worker
  imports Reconcile_Queue
begin

text \<open>
  Properties of the reconciliation worker over all its runs: the limits it keeps, that no accepted
  trigger is lost, which pair it starts, how long it waits after failures, and a state in which an
  explicit request has to wait.
\<close>

section \<open>The invariant\<close>

definition queue_inv :: "rqueue \<Rightarrow> rq_key list \<Rightarrow> bool" where
  "queue_inv q tasks \<longleftrightarrow>
     distinct (map fst (rq_entries q)) \<and> length (rq_entries q) \<le> rq_max_tracked q \<and>
     distinct (rq_ready q) \<and> distinct tasks \<and>
     (\<forall>k. k \<in> set (rq_ready q) \<longleftrightarrow> (\<exists>e. rq_get q k = Some e \<and> queued e)) \<and>
     (\<forall>k. k \<in> set tasks \<longleftrightarrow> (\<exists>e. rq_get q k = Some e \<and> in_flight e)) \<and>
     (\<forall>k e. rq_get q k = Some e \<longrightarrow> \<not> (queued e \<and> in_flight e) \<and> (dirty e \<longrightarrow> in_flight e))"

definition task_limits :: "rq_key list \<Rightarrow> bool" where
  "task_limits tasks \<longleftrightarrow> length tasks \<le> max_concurrent \<and>
     (\<forall>peer. length (filter (\<lambda>k. rk_peer k = peer) tasks) \<le> max_per_peer)"

lemma length_alist_update:
  "length (AList.update k v al) = (if k \<in> fst ` set al then length al else Suc (length al))"
  by (induction al) auto

lemma length_alist_delete: "k \<in> fst ` set al \<Longrightarrow> length (AList.delete k al) < length al"
  by (auto simp: AList.delete_eq intro: length_filter_less)

lemma rq_fields [simp]:
  "rq_entries (rq_put k e q) = AList.update k e (rq_entries q)" "rq_ready (rq_put k e q) = rq_ready q"
  "rq_max_tracked (rq_put k e q) = rq_max_tracked q"
  "rq_entries (rq_push k q) = rq_entries q" "rq_ready (rq_push k q) = rq_ready q @ [k]"
  "rq_max_tracked (rq_push k q) = rq_max_tracked q"
  "rq_entries (rq_remove k q) = AList.delete k (rq_entries q)" "rq_ready (rq_remove k q) = rq_ready q"
  "rq_max_tracked (rq_remove k q) = rq_max_tracked q"
  by (simp_all add: rq_put_def rq_push_def rq_remove_def)

lemma rq_get_simps [simp]:
  "rq_get (rq_put k e q) k' = (if k' = k then Some e else rq_get q k')"
  "rq_get (rq_push k q) k' = rq_get q k'"
  "rq_get (rq_remove k q) k' = (if k' = k then None else rq_get q k')"
  by (simp_all add: rq_get_def AList.update_conv' AList.delete_conv')

lemma rq_get_in: "rq_get q k = Some e \<Longrightarrow> k \<in> fst ` set (rq_entries q)"
  by (force simp: rq_get_def dest: map_of_SomeD)

lemma rq_get_None: "rq_get q k = None \<longleftrightarrow> k \<notin> fst ` set (rq_entries q)"
  by (simp add: rq_get_def map_of_eq_None_iff)

text \<open>An update that keeps the flags keeps the invariant.\<close>

lemma queue_inv_put:
  assumes inv: "queue_inv q tasks" and e0: "rq_get q k = Some e0"
    and e: "queued e = queued e0" "in_flight e = in_flight e0" "dirty e \<longrightarrow> in_flight e"
  shows "queue_inv (rq_put k e q) tasks"
  using inv e0 e rq_get_in [OF e0] unfolding queue_inv_def
  by (simp add: AList.distinct_update length_alist_update)

text \<open>A pair that is neither queued nor running is queued.\<close>

lemma queue_inv_push:
  assumes inv: "queue_inv q tasks"
    and idle: "case rq_get q k of Some e0 \<Rightarrow> \<not> queued e0 \<and> \<not> in_flight e0
      | None \<Rightarrow> length (rq_entries q) < rq_max_tracked q"
    and e: "queued e" "\<not> in_flight e" "\<not> dirty e"
  shows "queue_inv (rq_push k (rq_put k e q)) tasks"
proof -
  have "k \<notin> set (rq_ready q)" "k \<notin> set tasks"
    using inv idle unfolding queue_inv_def by (auto split: option.splits)
  moreover have "length (AList.update k e (rq_entries q)) \<le> rq_max_tracked q"
    using inv idle rq_get_in [of q k] unfolding queue_inv_def
    by (auto simp: length_alist_update rq_get_None split: option.splits)
  ultimately show ?thesis
    using inv e unfolding queue_inv_def by (auto simp: AList.distinct_update)
qed

lemma queue_inv_remove:
  assumes inv: "queue_inv q tasks" and e0: "rq_get q k = Some e0" "\<not> queued e0" "\<not> in_flight e0"
  shows "queue_inv (rq_remove k q) tasks" and "length (rq_entries (rq_remove k q)) < length (rq_entries q)"
proof -
  from rq_get_in [OF e0(1)] show less: "length (rq_entries (rq_remove k q)) < length (rq_entries q)"
    by (simp add: length_alist_delete)
  show "queue_inv (rq_remove k q) tasks"
    using inv e0 less unfolding queue_inv_def by (auto simp: AList.distinct_delete)
qed

text \<open>A running pair stops running.\<close>

lemma queue_inv_stop:
  assumes inv: "queue_inv q tasks" and e0: "rq_get q k = Some e0" "in_flight e0"
    and e: "\<not> queued e" "\<not> in_flight e" "\<not> dirty e"
  shows "queue_inv (rq_put k e q) (remove1 k tasks)"
  using inv e0 e rq_get_in [OF e0(1)] unfolding queue_inv_def
  by (auto simp: AList.distinct_update length_alist_update)

lemma rq_put_put [simp]: "rq_put k e (rq_put k e' q) = rq_put k e q"
  by (simp add: rq_put_def)

lemma min_not_before_member: "min_not_before xs = Some x \<Longrightarrow> x \<in> set xs"
  by (induction xs arbitrary: x) (auto split: option.splits if_split_asm)

lemma evict_idle_inv:
  assumes inv: "queue_inv q tasks" and ev: "evict_idle q now = (ok, q')"
  shows "queue_inv q' tasks" and "ok \<Longrightarrow> length (rq_entries q') < length (rq_entries q)"
    and "rq_max_tracked q' = rq_max_tracked q" and "rq_get q k = None \<Longrightarrow> rq_get q' k = None"
proof -
  have "q' = q \<and> \<not> ok \<or> (\<exists>k e. ok \<and> q' = rq_remove k q \<and> rq_get q k = Some e \<and> \<not> queued e \<and> \<not> in_flight e)"
  proof (cases ok)
    case True
    with ev obtain k e where q': "q' = rq_remove k q" and "(k, e) \<in> set (rq_entries q)" "\<not> queued e" "\<not> in_flight e"
      by (auto simp: evict_idle_def Let_def dest!: min_not_before_member split: option.splits prod.splits)
    moreover from this have "rq_get q k = Some e" using inv by (simp add: rq_get_def queue_inv_def)
    ultimately show ?thesis using True by blast
  next
    case False
    with ev show ?thesis by (auto simp: evict_idle_def Let_def split: option.splits prod.splits)
  qed
  then show "queue_inv q' tasks" "ok \<Longrightarrow> length (rq_entries q') < length (rq_entries q)"
    "rq_max_tracked q' = rq_max_tracked q" "rq_get q k = None \<Longrightarrow> rq_get q' k = None"
    using inv queue_inv_remove [OF inv] by auto
qed

lemma enqueue_inv:
  assumes inv: "queue_inv q tasks"
  shows "queue_inv (snd (enqueue q k r now)) tasks"
proof (cases "rq_get q k")
  case (Some e)
  have flags: "\<not> (queued e \<and> in_flight e)" "dirty e \<longrightarrow> in_flight e"
    using inv Some unfolding queue_inv_def by blast+
  show ?thesis
    using flags Some
    by (auto simp: enqueue_def Let_def intro!: queue_inv_put [OF inv Some] queue_inv_push [OF inv])
next
  case None
  obtain room q' where ev: "(if length (rq_entries q) \<ge> rq_max_tracked q then evict_idle q now else (True, q)) = (room, q')"
    by fastforce
  have "queue_inv q' tasks" "rq_get q' k = None" "room \<Longrightarrow> length (rq_entries q') < rq_max_tracked q'"
    using ev evict_idle_inv [OF inv] inv None by (auto simp: queue_inv_def split: if_split_asm) 
  with None ev show ?thesis
    by (auto simp: enqueue_def entry_default_def intro!: queue_inv_push)
qed

lemma map_of_map_entries: "map_of (map (\<lambda>(k, e). (k, f k e)) xs) k = map_option (f k) (map_of xs k)"
  by (induction xs) auto

lemma map_fst_entries: "map fst (map (\<lambda>(k, e). (k, f k e)) xs) = map fst xs"
  by (induction xs) auto

lemma requeue_due_retries_inv:
  assumes inv: "queue_inv q tasks"
  shows "queue_inv (snd (requeue_due_retries q now)) tasks"
proof -
  define g where "g k e = (if retry_due e now then e\<lparr>retry_pending := False, queued := True, trigger := Periodic\<rparr> else e)"
    for k :: rq_key and e
  define due where "due = map fst (filter (\<lambda>(_, e). retry_due e now) (rq_entries q))"
  define q' where "q' = snd (requeue_due_retries q now)"
  have q': "rq_entries q' = map (\<lambda>(k, e). (k, g k e)) (rq_entries q)" "rq_ready q' = rq_ready q @ due"
    "rq_max_tracked q' = rq_max_tracked q"
    by (simp_all add: q'_def requeue_due_retries_def Let_def g_def due_def)
  have keys: "distinct (map fst (rq_entries q))" using inv by (simp add: queue_inv_def)
  have get: "rq_get q' k = map_option (g k) (rq_get q k)" for k
    by (simp add: rq_get_def q' map_of_map_entries)
  have due: "k \<in> set due \<longleftrightarrow> (\<exists>e. rq_get q k = Some e \<and> retry_due e now)" for k
    using keys by (force simp: due_def rq_get_def)
  have "distinct due" using keys by (auto simp: due_def distinct_map intro: inj_on_subset)
  moreover have "set (rq_ready q) \<inter> set due = {}"
    using inv due unfolding queue_inv_def retry_due_def by fastforce
  ultimately show ?thesis
    using inv due unfolding queue_inv_def q'_def [symmetric] get q' map_fst_entries
    by (auto simp: g_def retry_due_def split: if_split_asm)
qed

lemma reset_synchronized_inv:
  assumes inv: "queue_inv q tasks"
  shows "queue_inv (reset_synchronized_for_room room q) tasks"
proof -
  define g where "g k e = (if rk_room k = room then e\<lparr>identical_digests := 0, synchronized_until := None\<rparr> else e)"
    for k :: rq_key and e :: rq_entry
  define q' where "q' = reset_synchronized_for_room room q"
  have q': "rq_entries q' = map (\<lambda>(k, e). (k, g k e)) (rq_entries q)" "rq_ready q' = rq_ready q"
    "rq_max_tracked q' = rq_max_tracked q"
    by (simp_all add: q'_def reset_synchronized_for_room_def g_def)
  have get: "rq_get q' k = map_option (g k) (rq_get q k)" for k
    by (simp add: rq_get_def q' map_of_map_entries)
  have "queued (g k e) = queued e" "in_flight (g k e) = in_flight e" "dirty (g k e) = dirty e" for k e
    by (simp_all add: g_def)
  then show ?thesis using inv unfolding queue_inv_def q'_def [symmetric] get q' map_fst_entries by auto
qed

lemma peer_reachable_inv:
  assumes inv: "queue_inv q tasks"
  shows "queue_inv (peer_reachable k q) tasks"
proof (cases "rq_get q k")
  case (Some e)
  then have "dirty e \<longrightarrow> in_flight e" using inv unfolding queue_inv_def by blast
  with Some show ?thesis by (auto simp: peer_reachable_def intro: queue_inv_put [OF inv Some])
qed (simp add: peer_reachable_def inv)

lemma first_index_Some: "first_index P xs = Some i \<Longrightarrow> i < length xs \<and> P (xs ! i) \<and> (\<forall>j<i. \<not> P (xs ! j))"
  by (induction xs arbitrary: i) (auto simp: nth_Cons split: if_split_asm nat.splits)

lemma first_index_None: "first_index P xs = None \<longleftrightarrow> (\<forall>x\<in>set xs. \<not> P x)"
  by (induction xs) auto

lemma drop_index:
  assumes "distinct xs" "i < length xs"
  shows "distinct (take i xs @ drop (Suc i) xs)" and "set (take i xs @ drop (Suc i) xs) = set xs - {xs ! i}"
proof -
  have split: "xs = take i xs @ xs ! i # drop (Suc i) xs" using assms(2) by (rule id_take_nth_drop)
  with assms(1) have "distinct (take i xs @ xs ! i # drop (Suc i) xs)" by simp
  moreover have "set xs = set (take i xs) \<union> insert (xs ! i) (set (drop (Suc i) xs))" by (subst split) simp
  ultimately show "distinct (take i xs @ drop (Suc i) xs)" "set (take i xs @ drop (Suc i) xs) = set xs - {xs ! i}"
    by auto
qed

text \<open>A queued pair starts to run.\<close>

lemma take_ready_inv:
  assumes inv: "queue_inv q tasks" and i: "i < length (rq_ready q)"
  shows "\<exists>e. rq_get q (rq_ready q ! i) = Some e \<and> queued e \<and>
    fst (take_ready q i) = Some (rq_ready q ! i, trigger e) \<and>
    queue_inv (snd (take_ready q i)) (tasks @ [rq_ready q ! i])"
proof -
  define k where "k = rq_ready q ! i"
  have "k \<in> set (rq_ready q)" using i by (simp add: k_def)
  then obtain e where e: "rq_get q k = Some e" "queued e" using inv unfolding queue_inv_def by blast
  define q' where "q' = q\<lparr>rq_ready := take i (rq_ready q) @ drop (Suc i) (rq_ready q)\<rparr>"
  have q': "rq_entries q' = rq_entries q" "rq_max_tracked q' = rq_max_tracked q"
    and ready': "rq_ready q' = take i (rq_ready q) @ drop (Suc i) (rq_ready q)" by (simp_all add: q'_def)
  have get: "rq_get q' = rq_get q" by (rule ext) (simp add: rq_get_def q')
  have "distinct (rq_ready q)" using inv by (simp add: queue_inv_def)
  note ready = drop_index [OF this i, folded k_def ready']
  have "k \<notin> set tasks" using inv e unfolding queue_inv_def by auto
  then have "queue_inv (rq_put k (e\<lparr>queued := False, retry_pending := False, in_flight := True, dirty := False,
      trigger := Periodic\<rparr>) q') (tasks @ [k])"
    using inv e ready rq_get_in [OF e(1)] unfolding queue_inv_def
    by (auto simp: get q' AList.distinct_update length_alist_update)
  with e show ?thesis by (simp add: take_ready_def Let_def k_def q'_def)
qed

text \<open>The counts the code makes over the entries are the counts of tasks.\<close>

lemma running_count:
  assumes inv: "queue_inv q tasks"
  shows "length (filter (\<lambda>(k, e). in_flight e \<and> P k) (rq_entries q)) = length (filter P tasks)"
proof -
  let ?ks = "map fst (filter (\<lambda>(k, e). in_flight e \<and> P k) (rq_entries q))"
  have keys: "distinct (map fst (rq_entries q))" and "distinct tasks" using inv by (simp_all add: queue_inv_def)
  have "distinct ?ks" using keys by (auto simp: distinct_map intro: inj_on_subset)
  moreover have "set ?ks = set (filter P tasks)"
  proof -
    have "set ?ks = {k. P k \<and> (\<exists>e. rq_get q k = Some e \<and> in_flight e)}"
      using keys by (force simp: rq_get_def)
    also have "\<dots> = set (filter P tasks)" using inv unfolding queue_inv_def by auto
    finally show ?thesis .
  qed
  moreover have "distinct (filter P tasks)" using \<open>distinct tasks\<close> by simp
  ultimately show ?thesis by (metis distinct_card length_map)
qed

lemma running_total: "queue_inv q tasks \<Longrightarrow> length (filter (\<lambda>(_, e). in_flight e) (rq_entries q)) = length tasks"
  using running_count [of q tasks "\<lambda>_. True"] by simp

text \<open>What the scan of the ready list finds.\<close>

lemma next_ready_cases:
  assumes inv: "queue_inv q tasks"
    and nr: "next_ready q now mc mp pa = (res, q')"
  obtains (none) "res = None" "q' = q"
      "mc \<le> length tasks \<or> (\<forall>k\<in>set (rq_ready q). \<not> may_run q now mp pa True k \<and> \<not> may_run q now mp pa False k)"
    | (some) i priority e where "i < length (rq_ready q)" "rq_get q (rq_ready q ! i) = Some e" "queued e"
      "res = Some (rq_ready q ! i, trigger e)" "length tasks < mc" "may_run q now mp pa priority (rq_ready q ! i)"
      "\<forall>j<i. \<not> may_run q now mp pa priority (rq_ready q ! j)"
      "priority \<or> (\<forall>k\<in>set (rq_ready q). \<not> may_run q now mp pa True k)"
      "q' = snd (take_ready q i)" "queue_inv q' (tasks @ [rq_ready q ! i])"
proof (cases "mc \<le> length tasks")
  case True
  with nr have "res = None" "q' = q" by (simp_all add: next_ready_def running_total [OF inv])
  with True show ?thesis using none by blast
next
  case False
  have found: ?thesis
    if "first_index (may_run q now mp pa priority) (rq_ready q) = Some i" "(res, q') = take_ready q i"
      "priority \<or> (\<forall>k\<in>set (rq_ready q). \<not> may_run q now mp pa True k)" for priority i
  proof -
    note fi = first_index_Some [OF that(1)]
    then obtain e where "rq_get q (rq_ready q ! i) = Some e" "queued e"
      "fst (take_ready q i) = Some (rq_ready q ! i, trigger e)"
      "queue_inv (snd (take_ready q i)) (tasks @ [rq_ready q ! i])"
      using take_ready_inv [OF inv] by blast
    with fi that(2,3) False show ?thesis
      using some [of i e priority] by (metis fst_conv not_le snd_conv)
  qed
  show ?thesis
  proof (cases "first_index (may_run q now mp pa True) (rq_ready q)")
    case (Some i)
    with nr False found [of True i] show ?thesis by (simp add: next_ready_def running_total [OF inv])
  next
    case None
    note no_priority = this [unfolded first_index_None]
    show ?thesis
    proof (cases "first_index (may_run q now mp pa False) (rq_ready q)")
      case (Some i)
      with nr False None found [of False i] no_priority show ?thesis
        by (simp add: next_ready_def running_total [OF inv])
    next
      case no_periodic: None
      with nr False None have "res = None" "q' = q" by (simp_all add: next_ready_def running_total [OF inv])
      with no_priority no_periodic show ?thesis using none by (simp add: first_index_None)
    qed
  qed
qed

lemma may_run_peer:
  assumes "queue_inv q tasks" "may_run q now mp pa priority k"
  shows "length (filter (\<lambda>k'. rk_peer k' = rk_peer k) tasks) < mp"
  using assms running_count [OF assms(1), of "\<lambda>k'. rk_peer k' = rk_peer k"]
  by (auto simp: may_run_def split: option.splits)

lemma finish_inv:
  assumes inv: "queue_inv q tasks" and k: "k \<in> set tasks"
  shows "queue_inv (snd (finish q k v now)) (remove1 k tasks)"
proof -
  obtain e0 where e0: "rq_get q k = Some e0" "in_flight e0" using inv k unfolding queue_inv_def by blast
  then have "\<not> queued e0" using inv unfolding queue_inv_def by blast
  define e where "e = settle q v now (e0\<lparr>in_flight := False\<rparr>)"
  have flags: "queued e = queued e0" "in_flight e = False" "dirty e = dirty e0"
    by (auto simp: e_def settle_def Let_def split: verdict.splits)
  define e1 where "e1 = e\<lparr>dirty := False\<rparr>"
  define q1 where "q1 = rq_put k e1 q"
  have inv1: "queue_inv q1 (remove1 k tasks)"
    using flags \<open>\<not> queued e0\<close> unfolding q1_def e1_def by (intro queue_inv_stop [OF inv e0]) auto
  have get1: "rq_get q1 k = Some e1" "\<not> queued e1" "\<not> in_flight e1"
    using flags \<open>\<not> queued e0\<close> by (simp_all add: q1_def e1_def)
  have push: "queue_inv (rq_push k (rq_put k e' q)) (remove1 k tasks)"
    if "queued e'" "\<not> in_flight e'" "\<not> dirty e'" for e'
    using queue_inv_push [OF inv1, of k e'] get1 that by (simp add: q1_def)
  have removed: "rq_remove k q = rq_remove k q1"
    by (simp add: rq_remove_def q1_def rq_put_def AList.delete_update_same)
  have "q1 = rq_put k e q" if "\<not> dirty e" using that by (cases e) (simp add: q1_def e1_def)
  with inv1 push queue_inv_remove(1) [OF inv1 get1] flags removed e0 show ?thesis
    by (auto simp: finish_def Let_def e_def [symmetric] simp del: rq_fields)
qed

section \<open>Reachable states of the worker\<close>

definition worker_inv :: "worker \<Rightarrow> bool" where
  "worker_inv w \<longleftrightarrow>
     queue_inv (wk_queue w) (wk_tasks w) \<and> task_limits (wk_tasks w) \<and>
     started (wk_rate w) \<le> max_exchanges_per_second \<and> rq_max_tracked (wk_queue w) = max_tracked"

lemma rq_max_tracked_ops [simp]:
  "rq_max_tracked (snd (enqueue q k r now)) = rq_max_tracked q"
  "rq_max_tracked (snd (requeue_due_retries q now)) = rq_max_tracked q"
  "rq_max_tracked (snd (next_ready q now mc mp pa)) = rq_max_tracked q"
  "rq_max_tracked (snd (finish q k v now)) = rq_max_tracked q"
  "rq_max_tracked (peer_reachable k q) = rq_max_tracked q"
  "rq_max_tracked (reset_synchronized_for_room room q) = rq_max_tracked q"
proof -
  have "rq_max_tracked (snd (evict_idle q now)) = rq_max_tracked q"
    by (auto simp: evict_idle_def Let_def split: option.splits prod.splits)
  then show "rq_max_tracked (snd (enqueue q k r now)) = rq_max_tracked q"
    by (auto simp: enqueue_def Let_def split: option.splits prod.splits)
qed (auto simp: requeue_due_retries_def next_ready_def take_ready_def finish_def peer_reachable_def
  reset_synchronized_for_room_def Let_def split: option.splits)

lemma start_one_inv:
  assumes inv: "worker_inv w"
  shows "worker_inv (snd (start_one w now))"
proof -
  obtain pa rate where rate: "rate_available (wk_rate w) now = (pa, rate)" by fastforce
  have budget: "started rate \<le> max_exchanges_per_second" "pa \<Longrightarrow> started rate < max_exchanges_per_second"
    using rate inv by (auto simp: rate_available_def Let_def worker_inv_def split: if_split_asm)
  obtain res q where nr: "next_ready (wk_queue w) now max_concurrent max_per_peer pa = (res, q)" by fastforce
  have q: "rq_max_tracked q = max_tracked"
    using rq_max_tracked_ops(3) [of "wk_queue w" now max_concurrent max_per_peer pa] nr inv by (simp add: worker_inv_def)
  have qinv: "queue_inv (wk_queue w) (wk_tasks w)" using inv by (simp add: worker_inv_def)
  show ?thesis
  proof (cases rule: next_ready_cases [OF qinv nr, case_names none some])
    case none
    with inv rate nr budget q show ?thesis by (simp add: start_one_def worker_inv_def)
  next
    case (some i priority e)
    let ?k = "rq_ready (wk_queue w) ! i"
    have limits: "task_limits (wk_tasks w @ [?k])"
      using inv some(5) may_run_peer [OF qinv some(6)] by (auto simp: worker_inv_def task_limits_def less_eq_Suc_le)
    have "pa" if "trigger e = Periodic"
      using some(2,6) that by (auto simp: may_run_def)
    with budget have "started (if trigger e = Periodic then rate\<lparr>started := u32_saturating_add (started rate) 1\<rparr> else rate)
        \<le> max_exchanges_per_second"
      by (auto simp: u32_saturating_add_def)
    with some limits rate nr q show ?thesis by (simp add: start_one_def worker_inv_def)
  qed
qed

lemma task_done_inv:
  assumes inv: "worker_inv w" and k: "k \<in> set (wk_tasks w)"
  shows "worker_inv (snd (task_done w k out now))"
proof -
  have fewer: "length (filter P (remove1 k (wk_tasks w))) \<le> length (filter P (wk_tasks w))" for P
    by (simp add: filter_remove1 length_remove1)
  have "task_limits (remove1 k (wk_tasks w))"
    using inv unfolding worker_inv_def task_limits_def
    by (auto simp: length_remove1 intro: order_trans [OF fewer])
  then show ?thesis
    using finish_inv [of "wk_queue w" "wk_tasks w" k "verdict_of out" now] inv k
    by (simp add: task_done_def worker_inv_def split: prod.splits)
      (metis rq_max_tracked_ops(4) snd_conv)
qed

lemma rehash_inv:
  assumes inv: "queue_inv q tasks" and es: "distinct (map fst es)" "set es = set (rq_entries q)"
  shows "queue_inv (q\<lparr>rq_entries := es\<rparr>) tasks"
proof -
  have keys: "distinct (map fst (rq_entries q))" using inv by (simp add: queue_inv_def)
  then have "map_of es = map_of (rq_entries q)" using es by (simp add: map_of_inject_set)
  then have "rq_get (q\<lparr>rq_entries := es\<rparr>) k = rq_get q k" for k by (simp add: rq_get_def)
  moreover have "length es = length (rq_entries q)"
    using es keys by (metis distinct_card distinct_map)
  ultimately show ?thesis using inv es unfolding queue_inv_def by simp
qed

lemma worker_step_inv: "worker_step w ev w' \<Longrightarrow> worker_inv w \<Longrightarrow> worker_inv w'"
proof (induction rule: worker_step.induct)
  case (step_trigger w ad k r now)
  obtain out q where "enqueue (wk_queue w) k r now = (out, q)" by fastforce
  moreover from this have "queue_inv q (wk_tasks w)" "rq_max_tracked q = max_tracked"
    using step_trigger enqueue_inv [of "wk_queue w" "wk_tasks w" k r now] rq_max_tracked_ops(1) [of "wk_queue w" k r now]
    by (simp_all add: worker_inv_def)
  ultimately show ?case
    using step_trigger by (simp add: reconcile_enqueue_def worker_inv_def Let_def split: option.splits)
next
  case (step_start w now)
  then show ?case by (rule start_one_inv)
next
  case (step_report k w out now)
  then show ?case by (intro task_done_inv)
qed (auto simp: worker_inv_def requeue_due_retries_inv peer_reachable_inv reset_synchronized_inv rehash_inv)

lemma worker_run_inv: "worker_run w evs w' \<Longrightarrow> worker_inv w \<Longrightarrow> worker_inv w'"
  by (induction rule: worker_run.induct) (auto dest: worker_step_inv)

lemma worker_new_inv: "worker_inv (worker_new base cap now)"
  by (simp add: worker_inv_def worker_new_def queue_inv_def task_limits_def with_failure_backoff_def rq_new_def rq_get_def)

text \<open>
  C16: In every run of the worker, whatever the order of triggers, retries, starts, reports,
  activity and rehashing, and whatever the clock says: at most four exchanges run at once and at
  most two with one peer, no two for the same room and peer; the hash map tracks at most 4096
  pairs; the ready list holds each queued pair once and no running one; the flags of the entries
  say exactly which pairs are queued and which run; and the rate budget of a window is not
  exceeded.
\<close>

theorem reconcile_worker_bounded:
  assumes "worker_run (worker_new base cap t) evs w"
  shows "length (wk_tasks w) \<le> 4 \<and> (\<forall>peer. length (filter (\<lambda>k. rk_peer k = peer) (wk_tasks w)) \<le> 2) \<and>
    distinct (wk_tasks w) \<and> length (rq_entries (wk_queue w)) \<le> 4096 \<and>
    distinct (rq_ready (wk_queue w)) \<and> set (rq_ready (wk_queue w)) \<inter> set (wk_tasks w) = {} \<and>
    (\<forall>k. k \<in> set (rq_ready (wk_queue w)) \<longleftrightarrow> (\<exists>e. rq_get (wk_queue w) k = Some e \<and> queued e)) \<and>
    (\<forall>k. k \<in> set (wk_tasks w) \<longleftrightarrow> (\<exists>e. rq_get (wk_queue w) k = Some e \<and> in_flight e)) \<and>
    started (wk_rate w) \<le> 4"
proof -
  have inv: "worker_inv w" using worker_run_inv [OF assms worker_new_inv] .
  then have q: "queue_inv (wk_queue w) (wk_tasks w)" by (simp add: worker_inv_def)
  have "set (rq_ready (wk_queue w)) \<inter> set (wk_tasks w) = {}" using q unfolding queue_inv_def by fastforce
  moreover have "length (wk_tasks w) \<le> 4" "\<forall>peer. length (filter (\<lambda>k. rk_peer k = peer) (wk_tasks w)) \<le> 2"
    "started (wk_rate w) \<le> 4" "length (rq_entries (wk_queue w)) \<le> 4096"
    using inv q unfolding worker_inv_def task_limits_def queue_inv_def max_concurrent_def max_per_peer_def
      max_exchanges_per_second_def max_tracked_def by simp_all
  ultimately show ?thesis using q unfolding queue_inv_def by simp
qed

section \<open>No trigger is lost\<close>

text \<open>
  A trigger other than the periodic sweep is awaited while the pair is queued for it, or running
  and marked to run again.
\<close>

definition awaited :: "rqueue \<Rightarrow> rq_key \<Rightarrow> bool" where
  "awaited q k \<longleftrightarrow>
     (\<exists>e. rq_get q k = Some e \<and> trigger e \<noteq> Periodic \<and> (queued e \<or> in_flight e \<and> dirty e))"

lemma awaited_enqueued:
  assumes "enqueue q k r now = (out, q')" "out = Queued \<or> out = Coalesced" "r \<noteq> Periodic"
  shows "awaited q' k"
  using assms by (auto simp: enqueue_def awaited_def Let_def split: option.splits prod.splits if_split_asm)

lemma evict_keeps:
  assumes "queue_inv q tasks" "rq_get q k = Some e" "queued e \<or> in_flight e"
  shows "rq_get (snd (evict_idle q now)) k = Some e"
proof -
  obtain ok q' where ev: "evict_idle q now = (ok, q')" by fastforce
  show ?thesis
  proof (cases ok)
    case True
    with ev obtain v e' where q': "q' = rq_remove v q" and e': "(v, e') \<in> set (rq_entries q)" "\<not> queued e'" "\<not> in_flight e'"
      by (auto simp: evict_idle_def Let_def dest!: min_not_before_member split: option.splits prod.splits)
    have "rq_get q v = Some e'" using e' assms(1) by (simp add: rq_get_def queue_inv_def)
    with assms e' have "v \<noteq> k" by auto
    with assms q' ev show ?thesis by simp
  next
    case False
    with ev assms show ?thesis by (auto simp: evict_idle_def Let_def split: option.splits prod.splits)
  qed
qed

lemma enqueue_keeps_awaited:
  assumes inv: "queue_inv q tasks" and aw: "awaited q k"
  shows "awaited (snd (enqueue q k' r now)) k"
proof (cases "rq_get q k'")
  case (Some e)
  with aw show ?thesis by (auto simp: enqueue_def awaited_def Let_def)
next
  case None
  with aw have "k' \<noteq> k" by (auto simp: awaited_def)
  obtain room q' where ev: "(if length (rq_entries q) \<ge> rq_max_tracked q then evict_idle q now else (True, q)) = (room, q')"
    by fastforce
  have "rq_get q' k = Some e" if "rq_get q k = Some e" "queued e \<or> in_flight e" for e
    using ev evict_keeps [OF inv that, of now] that by (auto split: if_split_asm)
  with aw have "awaited q' k" by (auto simp: awaited_def)
  with \<open>k' \<noteq> k\<close> None ev show ?thesis by (auto simp: enqueue_def awaited_def)
qed

lemma requeue_keeps_awaited:
  assumes "awaited q k"
  shows "awaited (snd (requeue_due_retries q now)) k"
  using assms by (auto simp: awaited_def requeue_due_retries_def Let_def rq_get_def map_of_map_entries retry_due_def)

lemma finish_keeps_awaited:
  assumes inv: "queue_inv q tasks" and aw: "awaited q k" and k': "k' \<in> set tasks" and "k' = k \<longrightarrow> v \<noteq> VDropped"
  shows "awaited (snd (finish q k' v now)) k"
proof (cases "k' = k")
  case False
  with aw show ?thesis by (auto simp: finish_def awaited_def Let_def split: option.splits)
next
  case True
  with inv k' obtain e0 where e0: "rq_get q k = Some e0" "in_flight e0" unfolding queue_inv_def by blast
  with inv have "\<not> queued e0" unfolding queue_inv_def by blast
  define e where "e = settle q v now (e0\<lparr>in_flight := False\<rparr>)"
  have "dirty e = dirty e0" "trigger e = trigger e0"
    by (auto simp: e_def settle_def Let_def split: verdict.splits)
  with aw e0 \<open>\<not> queued e0\<close> have "dirty e" "trigger e \<noteq> Periodic" by (auto simp: awaited_def)
  with True assms(4) e0 show ?thesis
    by (auto simp: finish_def awaited_def Let_def e_def [symmetric])
qed

lemma start_keeps_awaited:
  assumes inv: "worker_inv w" and aw: "awaited (wk_queue w) k"
  shows "awaited (wk_queue (snd (start_one w now))) k \<or> (\<exists>r. r \<noteq> Periodic \<and> fst (start_one w now) = Some (k, r))"
proof -
  obtain pa rate where rate: "rate_available (wk_rate w) now = (pa, rate)" by fastforce
  obtain res q where nr: "next_ready (wk_queue w) now max_concurrent max_per_peer pa = (res, q)" by fastforce
  have qinv: "queue_inv (wk_queue w) (wk_tasks w)" using inv by (simp add: worker_inv_def)
  show ?thesis
  proof (cases rule: next_ready_cases [OF qinv nr, case_names none some])
    case none
    with aw rate nr show ?thesis by (simp add: start_one_def)
  next
    case (some i priority e)
    show ?thesis
    proof (cases "rq_ready (wk_queue w) ! i = k")
      case True
      with some(2,4) aw rate nr show ?thesis by (auto simp: start_one_def awaited_def)
    next
      case False
      with some(2,9) have "rq_get q k = rq_get (wk_queue w) k"
        by (simp add: take_ready_def Let_def) (simp add: rq_get_def)
      with aw some(4) rate nr show ?thesis by (simp add: start_one_def awaited_def)
    qed
  qed
qed

lemma step_keeps_awaited:
  assumes "worker_step w ev w'" and inv: "worker_inv w" and aw: "awaited (wk_queue w) k"
  shows "awaited (wk_queue w') k \<or>
    (\<exists>now r. ev = Start now \<and> r \<noteq> Periodic \<and> fst (start_one w now) = Some (k, r)) \<or>
    (\<exists>out now. ev = Report k out now \<and> verdict_of out = VDropped)"
  using assms(1)
proof (cases rule: worker_step.cases)
  case (step_trigger ad k' r now)
  obtain out q where en: "enqueue (wk_queue w) k' r now = (out, q)" by fastforce
  have "queue_inv (wk_queue w) (wk_tasks w)" using inv by (simp add: worker_inv_def)
  from enqueue_keeps_awaited [OF this aw, of k' r now] en have "awaited q k" by simp
  with step_trigger aw en show ?thesis by (simp add: reconcile_enqueue_def Let_def split: option.splits)
next
  case (step_start now)
  with start_keeps_awaited [OF inv aw, of now] show ?thesis by auto
next
  case (step_report k' out now)
  have "queue_inv (wk_queue w) (wk_tasks w)" using inv by (simp add: worker_inv_def)
  note kept = finish_keeps_awaited [OF this aw step_report(3), of "verdict_of out" now]
  show ?thesis
  proof (cases "k' = k \<and> verdict_of out = VDropped")
    case False
    with kept step_report show ?thesis by (auto simp: task_done_def split: prod.splits)
  qed (use step_report in auto)
next
  case (step_reachable k')
  with aw show ?thesis by (auto simp: awaited_def peer_reachable_def split: option.splits)
next
  case (step_activity room)
  from aw obtain e where e: "map_of (rq_entries (wk_queue w)) k = Some e" "trigger e \<noteq> Periodic"
    "queued e \<or> in_flight e \<and> dirty e" by (auto simp: awaited_def rq_get_def)
  with step_activity show ?thesis
    by (simp add: awaited_def reset_synchronized_for_room_def rq_get_def map_of_map_entries)
next
  case (step_rehash es)
  have "map_of es = map_of (rq_entries (wk_queue w))"
    using inv step_rehash by (simp add: map_of_inject_set worker_inv_def queue_inv_def)
  with aw step_rehash show ?thesis by (simp add: awaited_def rq_get_def)
qed (use aw in \<open>auto simp: requeue_keeps_awaited\<close>)

lemma run_keeps_awaited:
  "worker_run w1 evs w2 \<Longrightarrow> worker_inv w1 \<Longrightarrow> awaited (wk_queue w1) k \<Longrightarrow>
    awaited (wk_queue w2) k \<or>
    (\<exists>evs1 ev evs2 u. evs = evs1 @ ev # evs2 \<and> worker_run w1 evs1 u \<and> awaited (wk_queue u) k \<and>
       ((\<exists>now' r'. ev = Start now' \<and> r' \<noteq> Periodic \<and> fst (start_one u now') = Some (k, r')) \<or>
        (\<exists>out' now'. ev = Report k out' now' \<and> verdict_of out' = VDropped)))"
proof (induction rule: worker_run.induct)
  case (run_step w ev w' evs w'')
  note inv' = worker_step_inv [OF run_step(1) run_step.prems(1)]
  from step_keeps_awaited [OF run_step(1) run_step.prems]
  consider "awaited (wk_queue w') k"
    | "(\<exists>now r. ev = Start now \<and> r \<noteq> Periodic \<and> fst (start_one w now) = Some (k, r)) \<or>
       (\<exists>out now. ev = Report k out now \<and> verdict_of out = VDropped)" by blast
  then show ?case
  proof cases
    case 1
    show ?thesis
    proof (cases "awaited (wk_queue w'') k")
      case False
      with run_step.IH [OF inv' 1] obtain evs1 ev' evs2 u where evs: "evs = evs1 @ ev' # evs2"
        and run: "worker_run w' evs1 u" and served: "awaited (wk_queue u) k \<and>
          ((\<exists>now' r'. ev' = Start now' \<and> r' \<noteq> Periodic \<and> fst (start_one u now') = Some (k, r')) \<or>
           (\<exists>out' now'. ev' = Report k out' now' \<and> verdict_of out' = VDropped))" by blast
      from evs have "ev # evs = (ev # evs1) @ ev' # evs2" by simp
      moreover have "worker_run w (ev # evs1) u" using run_step(1) run by (rule worker_run.run_step)
      ultimately show ?thesis using served by blast
    qed simp
  next
    case 2
    have "ev # evs = [] @ ev # evs" "worker_run w [] w" by (simp_all add: run_nil)
    with 2 run_step.prems(2) show ?thesis by blast
  qed
qed blast

text \<open>
  C17: No trigger is lost. Once a trigger other than the periodic sweep has been accepted, as a new
  request or merged into an existing one, the pair stays queued or marked to run again through
  every further step, evictions of a full queue included, until an exchange that was started after
  the trigger takes it, or a running exchange finds that the pair is no longer eligible.
\<close>

theorem accepted_trigger_is_served:
  assumes "worker_run (worker_new base cap t) pre w"
    and "reconcile_enqueue ad w k r now = (out, w1)" "out = Queued \<or> out = Coalesced" "r \<noteq> Periodic"
    and "worker_run w1 evs w2"
  shows "awaited (wk_queue w2) k \<or>
    (\<exists>evs1 ev evs2 u. evs = evs1 @ ev # evs2 \<and> worker_run w1 evs1 u \<and> awaited (wk_queue u) k \<and>
       ((\<exists>now' r'. ev = Start now' \<and> r' \<noteq> Periodic \<and> fst (start_one u now') = Some (k, r')) \<or>
        (\<exists>out' now'. ev = Report k out' now' \<and> verdict_of out' = VDropped)))"
proof -
  have inv: "worker_inv w" using worker_run_inv [OF assms(1) worker_new_inv] .
  have "worker_step w (Trigger ad k r now) w1" using step_trigger [of w ad k r now] assms(2) by simp
  then have inv1: "worker_inv w1" using inv by (rule worker_step_inv)
  have "awaited (wk_queue w1) k"
    using assms(2-4) awaited_enqueued
    by (fastforce simp: reconcile_enqueue_def Let_def split: option.splits prod.splits if_split_asm)
  from run_keeps_awaited [OF assms(5) inv1 this] show ?thesis .
qed

section \<open>Which pair is started\<close>

text \<open>Why a queued pair cannot be started now.\<close>

definition blocked :: "worker \<Rightarrow> instant \<Rightarrow> bool \<Rightarrow> rq_key \<Rightarrow> bool" where
  "blocked w now periodic_allowed k \<longleftrightarrow>
     cooling_down (wk_queue w) k now \<or>
     length (filter (\<lambda>k'. rk_peer k' = rk_peer k) (wk_tasks w)) \<ge> max_per_peer \<or>
     (\<exists>e. rq_get (wk_queue w) k = Some e \<and> trigger e = Periodic \<and> \<not> periodic_allowed)"

lemma may_run_blocked:
  assumes inv: "queue_inv (wk_queue w) (wk_tasks w)" and e: "rq_get (wk_queue w) k = Some e"
  shows "may_run (wk_queue w) now max_per_peer pa priority k \<longleftrightarrow>
    (trigger e \<noteq> Periodic) = priority \<and> \<not> blocked w now pa k"
  using e running_count [OF inv, of "\<lambda>k'. rk_peer k' = rk_peer k"]
  by (auto simp: may_run_def blocked_def cooling_down_def)

text \<open>
  A turn of the worker starts nothing only when four exchanges run already or every queued pair
  is held back, by a delay, by the limit of its peer or by the budget for periodic exchanges. What it
  starts is not held back, and it is the first such pair in the order of the triggers, those of the
  periodic sweep coming after all others.
\<close>

lemma start_one_is_fair:
  assumes "worker_run (worker_new base cap t) evs w"
    and pa: "pa = fst (rate_available (wk_rate w) now)"
  shows "case fst (start_one w now) of
      None \<Rightarrow> length (wk_tasks w) = 4 \<or> (\<forall>k\<in>set (rq_ready (wk_queue w)). blocked w now pa k)
    | Some (k, r) \<Rightarrow>
        (\<exists>i<length (rq_ready (wk_queue w)). rq_ready (wk_queue w) ! i = k \<and> \<not> blocked w now pa k \<and>
           (\<forall>j<length (rq_ready (wk_queue w)).
              \<forall>e. rq_get (wk_queue w) (rq_ready (wk_queue w) ! j) = Some e \<longrightarrow>
                \<not> blocked w now pa (rq_ready (wk_queue w) ! j) \<longrightarrow>
                (if r = Periodic then trigger e = Periodic \<and> i \<le> j else trigger e = Periodic \<or> i \<le> j)))"
proof -
  have inv: "worker_inv w" using worker_run_inv [OF assms(1) worker_new_inv] .
  then have qinv: "queue_inv (wk_queue w) (wk_tasks w)" and lim: "length (wk_tasks w) \<le> 4"
    by (simp_all add: worker_inv_def task_limits_def max_concurrent_def)
  define rate where "rate = snd (rate_available (wk_rate w) now)"
  then have rate: "rate_available (wk_rate w) now = (pa, rate)" using pa by simp
  obtain res q where nr: "next_ready (wk_queue w) now max_concurrent max_per_peer pa = (res, q)" by fastforce
  have res: "fst (start_one w now) = res" using rate nr by (auto simp: start_one_def split: option.splits)
  have queued_get: "\<exists>e. rq_get (wk_queue w) k = Some e" if "k \<in> set (rq_ready (wk_queue w))" for k
    using qinv that unfolding queue_inv_def by blast
  note run = may_run_blocked [OF qinv]
  show ?thesis
  proof (cases rule: next_ready_cases [OF qinv nr, case_names none some])
    case none
    have "blocked w now pa k" if "k \<in> set (rq_ready (wk_queue w))" "\<not> max_concurrent \<le> length (wk_tasks w)" for k
      using none(3) that queued_get [OF that(1)] run by metis
    with none(1) res lim show ?thesis by (auto simp: max_concurrent_def)
  next
    case (some i priority e)
    let ?ready = "rq_ready (wk_queue w)"
    have k: "(trigger e \<noteq> Periodic) = priority" "\<not> blocked w now pa (?ready ! i)" using run [OF some(2)] some(6) by blast+
    have "if trigger e = Periodic then trigger e' = Periodic \<and> i \<le> j else trigger e' = Periodic \<or> i \<le> j"
      if j: "j < length ?ready" and e': "rq_get (wk_queue w) (?ready ! j) = Some e'" and "\<not> blocked w now pa (?ready ! j)" for j e'
    proof -
      have "may_run (wk_queue w) now max_per_peer pa (trigger e' \<noteq> Periodic) (?ready ! j)"
        using run [OF e'] that(3) by blast
      moreover have "?ready ! j \<in> set ?ready" using j by simp
      ultimately show ?thesis using some(7,8) k(1) by (metis linorder_not_le)
    qed
    with some(1) k(2) show ?thesis unfolding res some(4) option.case prod.case by blast
  qed
qed

section \<open>Delays\<close>

text \<open>
  The delay after failures starts at the base, doubles with every failure, and stops at the cap, or
  at the base when that is larger.
\<close>

lemma backoff_bounds:
  assumes "base \<le> duration_max"
  shows "base \<le> backoff base cap n" and "backoff base cap n \<le> max cap base"
    and "n \<le> m \<Longrightarrow> backoff base cap n \<le> backoff base cap m"
    and "0 < n \<Longrightarrow> n \<le> 32 \<Longrightarrow> base * 2 ^ (n - 1) \<le> min duration_max (max cap base) \<Longrightarrow>
      backoff base cap n = base * 2 ^ (n - 1)"
proof -
  have pos: "1 \<le> u32_one_shl i" for i by (simp add: u32_one_shl_def u32_max_def)
  have mono: "u32_one_shl i \<le> u32_one_shl j" if "i \<le> j" for i j
  proof -
    have "(2::nat) ^ i \<le> 2 ^ 31" if "i < 32" using that by (intro power_increasing) auto
    then show ?thesis using \<open>i \<le> j\<close> by (auto simp: u32_one_shl_def u32_max_def intro: power_increasing)
  qed
  show "base \<le> backoff base cap n"
    using assms pos [of "n - 1"] by (simp add: backoff_def duration_saturating_mul_def)
  show "backoff base cap n \<le> max cap base" by (simp add: backoff_def)
  show "backoff base cap n \<le> backoff base cap m" if "n \<le> m"
  proof -
    have "base * u32_one_shl (n - 1) \<le> base * u32_one_shl (m - 1)" using that by (intro mult_left_mono mono) auto
    then show ?thesis unfolding backoff_def duration_saturating_mul_def by (intro min.mono) auto
  qed
  show "backoff base cap n = base * 2 ^ (n - 1)"
    if "0 < n" "n \<le> 32" "base * 2 ^ (n - 1) \<le> min duration_max (max cap base)"
  proof -
    have "n - 1 < 32" using that by arith
    with that(3) show ?thesis by (simp add: backoff_def duration_saturating_mul_def u32_one_shl_def)
  qed
qed

section \<open>Runs of the worker\<close>

text \<open>A pair and a setting in which every trigger is admitted.\<close>

definition sample_pair :: rq_key where
  "sample_pair = \<lparr>rk_room = ''!r:x'', rk_peer = ''y''\<rparr>"

definition sample_admission :: admission where
  "sample_admission =
     \<lparr>ad_enabled = True, ad_window = 30, ad_ours = ''x'', ad_aborted = (\<lambda>_. False),
      ad_server_in_room = (\<lambda>_ _. True), ad_acl_ok = (\<lambda>_ _. True)\<rparr>"

text \<open>The steps as a function, for runs of which the steps are known.\<close>

fun apply_event :: "worker \<Rightarrow> worker_event \<Rightarrow> worker" where
  "apply_event w (Trigger ad k r now) = snd (reconcile_enqueue ad w k r now)"
| "apply_event w (Retries now) = w\<lparr>wk_queue := snd (requeue_due_retries (wk_queue w) now)\<rparr>"
| "apply_event w (Start now) = snd (start_one w now)"
| "apply_event w (Report k out now) = snd (task_done w k out now)"
| "apply_event w (Reachable k) = w\<lparr>wk_queue := peer_reachable k (wk_queue w)\<rparr>"
| "apply_event w (RoomActivity room) = w\<lparr>wk_queue := reset_synchronized_for_room room (wk_queue w)\<rparr>"
| "apply_event w (Expire gone) = w\<lparr>wk_recent := wk_recent w - gone\<rparr>"
| "apply_event w (Rehash es) = w\<lparr>wk_queue := wk_queue w\<lparr>rq_entries := es\<rparr>\<rparr>"

fun possible :: "worker \<Rightarrow> worker_event \<Rightarrow> bool" where
  "possible w (Report k out now) = (k \<in> set (wk_tasks w))"
| "possible w (Rehash es) = (distinct (map fst es) \<and> set es = set (rq_entries (wk_queue w)))"
| "possible w _ = True"

fun possible_run :: "worker \<Rightarrow> worker_event list \<Rightarrow> bool" where
  "possible_run w [] = True"
| "possible_run w (ev # evs) = (possible w ev \<and> possible_run (apply_event w ev) evs)"

lemma possible_step: "possible w ev \<Longrightarrow> worker_step w ev (apply_event w ev)"
  by (cases ev) (auto intro: worker_step.intros)

lemma possible_run_foldl: "possible_run w evs \<Longrightarrow> worker_run w evs (foldl apply_event w evs)"
  by (induction evs arbitrary: w) (auto intro: worker_run.intros possible_step)

text \<open>
  A periodic exchange runs, room activity marks it to run again, and the peer turns out not to
  serve the endpoints; then an administrator asks for a reconciliation.
\<close>

definition sample_events :: "worker_event list" where
  "sample_events =
     [Trigger sample_admission sample_pair Periodic 0, Start 0, Trigger sample_admission sample_pair Activity 0,
      Report sample_pair OUnsupported 0]"

definition sample_worker :: worker where
  "sample_worker =
     \<lparr>wk_queue = \<lparr>rq_entries = [(sample_pair, entry_default\<lparr>queued := True, trigger := Activity, failures := 1,
          not_before := Some unsupported_backoff\<rparr>)],
        rq_ready = [sample_pair], rq_max_tracked = max_tracked, rq_backoff = secs 5, rq_backoff_max = secs 900\<rparr>,
      wk_rate = \<lparr>window_start = 0, started = 1\<rparr>, wk_recent = {}, wk_tasks = []\<rparr>"

lemmas worker_eval = reconcile_enqueue_def refused_at_def enqueue_def start_one_def task_done_def finish_def settle_def
  next_ready_def may_run_def take_ready_def rate_available_def evict_idle_def worker_new_def with_failure_backoff_def
  rq_new_def rq_put_def rq_push_def rq_remove_def rq_get_def entry_default_def sample_pair_def sample_admission_def
  max_tracked_def max_concurrent_def max_per_peer_def max_exchanges_per_second_def backing_off_def secs_def
  u32_saturating_add_def u32_max_def instant_checked_add_def instant_max_def unsupported_backoff_def

lemma sample_events_run:
  "possible_run (worker_new 5 900 0) sample_events" "foldl apply_event (worker_new 5 900 0) sample_events = sample_worker"
  by (simp_all add: sample_events_def sample_worker_def worker_eval Let_def)

text \<open>
  An explicit request does not always override the backoff. In a run in which room activity
  arrived during an exchange that ended with an unsupported peer, the pair is queued again while it
  backs off; an explicit request is then merged into the queued entry, which keeps its delay, and for
  six hours no turn of the worker starts the exchange.
\<close>

lemma explicit_request_waits:
  "\<exists>evs w w'. worker_run (worker_new 5 900 0) evs w \<and>
     reconcile_enqueue sample_admission w sample_pair Explicit 0 = (Coalesced, w') \<and>
     (\<forall>now < 6 * 60 * 60 * 1000000000. fst (start_one w' now) = None)"
proof -
  have "worker_run (worker_new 5 900 0) sample_events sample_worker"
    using possible_run_foldl [OF sample_events_run(1)] by (simp add: sample_events_run(2))
  moreover have "fst (reconcile_enqueue sample_admission sample_worker sample_pair Explicit 0) = Coalesced"
    by (simp add: sample_worker_def worker_eval)
  moreover have "fst (start_one (snd (reconcile_enqueue sample_admission sample_worker sample_pair Explicit 0)) now) = None"
    if "now < 6 * 60 * 60 * 1000000000" for now
    using that by (simp add: sample_worker_def worker_eval Let_def)
  ultimately show ?thesis by (metis prod.collapse)
qed

theorem explicit_request_waits_witness:
  "\<exists>evs w w'. worker_run (worker_new 5 900 0) evs w \<and>
     reconcile_enqueue sample_admission w sample_pair Explicit 0 = (Coalesced, w') \<and>
     fst (start_one w' (secs 3600)) = None"
proof -
  have "secs 3600 < 6 * 60 * 60 * 1000000000" by (simp add: secs_def)
  with explicit_request_waits show ?thesis by blast
qed

theorem reconcile_worker_bounded_witness:
  "length (wk_tasks sample_worker) \<le> 4 \<and> rq_ready (wk_queue sample_worker) = [sample_pair] \<and>
     (\<exists>e. rq_get (wk_queue sample_worker) sample_pair = Some e \<and> queued e)"
proof -
  have "worker_run (worker_new 5 900 0) sample_events sample_worker"
    using possible_run_foldl [OF sample_events_run(1)] by (simp add: sample_events_run(2))
  note bounded = reconcile_worker_bounded [OF this]
  have ready: "rq_ready (wk_queue sample_worker) = [sample_pair]" by (simp add: sample_worker_def)
  then have "sample_pair \<in> set (rq_ready (wk_queue sample_worker))" by simp
  with bounded ready show ?thesis by blast
qed

theorem accepted_trigger_is_served_witness:
  "awaited (wk_queue (snd (reconcile_enqueue sample_admission sample_worker sample_pair Explicit 0))) sample_pair"
proof -
  let ?w1 = "snd (reconcile_enqueue sample_admission sample_worker sample_pair Explicit 0)"
  have "worker_run (worker_new 5 900 0) sample_events sample_worker"
    using possible_run_foldl [OF sample_events_run(1)] by (simp add: sample_events_run(2))
  moreover have "reconcile_enqueue sample_admission sample_worker sample_pair Explicit 0 = (Coalesced, ?w1)"
    by (simp add: sample_worker_def worker_eval)
  ultimately have "awaited (wk_queue ?w1) sample_pair \<or> (\<exists>evs1 ev evs2. [] = evs1 @ (ev :: worker_event) # evs2)"
    using accepted_trigger_is_served [of 5 900 0 sample_events sample_worker sample_admission sample_pair Explicit 0
        Coalesced ?w1 "[]" ?w1] run_nil [of ?w1] by blast
  then show ?thesis by simp
qed

theorem start_one_is_fair_witness:
  "fst (start_one sample_worker 0) = None \<and> blocked sample_worker 0 True sample_pair"
proof -
  have run: "worker_run (worker_new 5 900 0) sample_events sample_worker"
    using possible_run_foldl [OF sample_events_run(1)] by (simp add: sample_events_run(2))
  have "True = fst (rate_available (wk_rate sample_worker) 0)" "fst (start_one sample_worker 0) = None"
    "length (wk_tasks sample_worker) = 0" "sample_pair \<in> set (rq_ready (wk_queue sample_worker))"
    by (simp_all add: sample_worker_def worker_eval Let_def)
  with start_one_is_fair [OF run, of True 0] show ?thesis by simp
qed

end
