(* ===== verification/Reachability.thy ===== *)
theory Reachability
  imports Sample_Codec Byte_Order
begin

text \<open>
  The live reachability overlay (\<^verbatim>\<open>service/rooms/timeline/reachability.rs\<close>), which answers whether
  one event of a room is an ancestor of another: ordinals that rule paths out, and a search with an
  explicit stack. A stack is a list whose head is the element popped next.
\<close>

section \<open>The live overlay\<close>

datatype reach = ReachYes | ReachNo | ReachUnknown

function exact_search ::
  "event_id \<Rightarrow> (event_id \<times> event_id list) list \<Rightarrow> event_id list \<Rightarrow> event_id set \<Rightarrow> reach" where
  "exact_search src parents [] seen = ReachNo"
| "exact_search src parents (current # stack) seen =
     (if current \<in> seen then exact_search src parents stack seen
      else case map_of parents current of
             None \<Rightarrow> exact_search src parents stack (insert current seen)
           | Some prevs \<Rightarrow>
               if src \<in> set prevs then ReachYes
               else exact_search src parents (rev prevs @ stack) (insert current seen))"
  by pat_completeness auto
termination
proof (relation "measures [\<lambda>(_, parents, _, seen). card (fst ` set parents - seen), \<lambda>(_, _, stack, _). length stack]")
  fix src current stack seen prevs and parents :: "(event_id \<times> event_id list) list"
  assume "current \<notin> seen" and "map_of parents current = Some prevs"
  then have "fst ` set parents - insert current seen \<subset> fst ` set parents - seen"
    by (force dest: map_of_SomeD)
  then have "card (fst ` set parents - insert current seen) < card (fst ` set parents - seen)"
    by (intro psubset_card_mono) auto
  then show "((src, parents, rev prevs @ stack, insert current seen), src, parents, current # stack, seen) \<in>
    measures [\<lambda>(_, parents, _, seen). card (fst ` set parents - seen), \<lambda>(_, _, stack, _). length stack]" by simp
next
  fix src current stack seen and parents :: "(event_id \<times> event_id list) list"
  have "card (fst ` set parents - insert current seen) \<le> card (fst ` set parents - seen)"
    by (intro card_mono) auto
  then show "((src, parents, stack, insert current seen), src, parents, current # stack, seen) \<in>
    measures [\<lambda>(_, parents, _, seen). card (fst ` set parents - seen), \<lambda>(_, _, stack, _). length stack]" by auto
qed simp_all

definition exact_reachability :: "event_id \<Rightarrow> event_id \<Rightarrow> (event_id \<times> event_id list) list \<Rightarrow> reach" where
  "exact_reachability src dst parents = (if src = dst then ReachYes else exact_search src parents [dst] {})"

record live_reachability =
  lr_topo :: "(event_id \<times> u64) list"
  lr_parents :: "(event_id \<times> event_id list) list"

text \<open>
  The snapshot: ordinals in the order of the stored timeline, and the parents of every event. An
  item of the stream that cannot be read (\<open>None\<close>) fails the build.
\<close>

fun lr_snapshot :: "event option list \<Rightarrow> u64 \<Rightarrow> live_reachability \<Rightarrow> live_reachability option" where
  "lr_snapshot [] ordinal lr = Some lr"
| "lr_snapshot (None # items) ordinal lr = None"
| "lr_snapshot (Some pdu # items) ordinal lr =
     (let ordinal' = (if ordinal = - 1 then ordinal else ordinal + 1)
      in lr_snapshot items ordinal'
           \<lparr>lr_topo = AList.update (ev_id pdu) ordinal' (lr_topo lr),
            lr_parents = AList.update (ev_id pdu) (ev_prev pdu) (lr_parents lr)\<rparr>)"

definition lr_build :: "event option list \<Rightarrow> live_reachability option" where
  "lr_build items = lr_snapshot items 0 \<lparr>lr_topo = [], lr_parents = []\<rparr>"

definition reaches :: "live_reachability \<Rightarrow> event_id \<Rightarrow> event_id \<Rightarrow> reach" where
  "reaches lr src dst =
     (if src = dst then ReachYes
      else case map_of (lr_topo lr) src of
             None \<Rightarrow> ReachUnknown
           | Some from_topo \<Rightarrow>
               (case map_of (lr_topo lr) dst of
                  None \<Rightarrow> ReachUnknown
                | Some to_topo \<Rightarrow>
                    if from_topo \<ge> to_topo then ReachNo else exact_reachability src dst (lr_parents lr)))"

section \<open>The search is exact\<close>

definition parent_edges :: "(event_id \<times> event_id list) list \<Rightarrow> (event_id \<times> event_id) set" where
  "parent_edges parents = {(c, p). \<exists>prevs. map_of parents c = Some prevs \<and> p \<in> set prevs}"

lemma exact_search_sound:
  "exact_search src parents stack seen = ReachYes \<Longrightarrow> \<exists>x\<in>set stack. (x, src) \<in> (parent_edges parents)\<^sup>+"
proof (induction src parents stack seen rule: exact_search.induct)
  case (2 src parents current stack seen)
  show ?case
  proof (cases "current \<in> seen")
    case True
    with 2 show ?thesis by auto
  next
    case False
    show ?thesis
    proof (cases "map_of parents current")
      case None
      with 2(2) [OF False None] "2.prems" False show ?thesis by auto
    next
      case (Some prevs)
      then have edge: "(current, p) \<in> parent_edges parents" if "p \<in> set prevs" for p
        using that by (simp add: parent_edges_def)
      show ?thesis
      proof (cases "src \<in> set prevs")
        case True
        with edge show ?thesis by auto
      next
        case no: False
        with 2(3) [OF False Some no] "2.prems" False Some obtain x where
          x: "x \<in> set prevs \<union> set stack" "(x, src) \<in> (parent_edges parents)\<^sup>+" by auto
        then show ?thesis using edge by (auto intro: trancl_into_trancl2)
      qed
    qed
  qed
qed simp

lemma exact_search_complete:
  "exact_search src parents stack seen \<noteq> ReachYes \<Longrightarrow>
   (\<And>x p. x \<in> seen \<Longrightarrow> (x, p) \<in> parent_edges parents \<Longrightarrow> p \<noteq> src \<and> p \<in> seen \<union> set stack) \<Longrightarrow>
   y \<in> seen \<union> set stack \<Longrightarrow> (y, src) \<notin> (parent_edges parents)\<^sup>+"
proof (induction src parents stack seen rule: exact_search.induct)
  case (1 src parents seen)
  have "z \<in> seen \<and> z \<noteq> src" if "(y, z) \<in> (parent_edges parents)\<^sup>+" for z
    using that by (induction rule: trancl_induct) (use 1 in auto)
  then show ?case by blast
next
  case (2 src parents current stack seen)
  show ?case
  proof (cases "current \<in> seen")
    case True
    show ?thesis by (rule 2(1) [OF True]) (use 2 True in auto)
  next
    case False
    show ?thesis
    proof (cases "map_of parents current")
      case None
      show ?thesis by (rule 2(2) [OF False None]) (use 2 False None in \<open>auto simp: parent_edges_def\<close>)
    next
      case (Some prevs)
      have no: "src \<notin> set prevs" using "2.prems"(1) False Some by auto
      show ?thesis by (rule 2(3) [OF False Some no]) (use 2 False Some no in \<open>auto simp: parent_edges_def\<close>)
    qed
  qed
qed

lemma exact_reachability_value:
  "exact_reachability src dst parents =
     (if src = dst \<or> (dst, src) \<in> (parent_edges parents)\<^sup>+ then ReachYes else ReachNo)"
proof -
  have two: "exact_search src parents stack seen \<in> {ReachYes, ReachNo}" for stack seen
    by (induction src parents stack seen rule: exact_search.induct) (auto split: option.splits)
  show ?thesis
    using exact_search_sound [of src parents "[dst]" "{}"] exact_search_complete [of src parents "[dst]" "{}" dst]
      two [of "[dst]" "{}"]
    by (auto simp: exact_reachability_def)
qed

section \<open>The overlay is exact\<close>

lemma lr_snapshot_value:
  assumes "distinct (map ev_id pdus)" "n + length pdus < 2 ^ 64"
  shows "\<exists>lr'. lr_snapshot (map Some pdus) (of_nat n) lr = Some lr' \<and>
    (\<forall>i<length pdus. map_of (lr_topo lr') (ev_id (pdus ! i)) = Some (of_nat (Suc (n + i))) \<and>
       map_of (lr_parents lr') (ev_id (pdus ! i)) = Some (ev_prev (pdus ! i))) \<and>
    (\<forall>x. x \<notin> ev_id ` set pdus \<longrightarrow> map_of (lr_topo lr') x = map_of (lr_topo lr) x \<and>
       map_of (lr_parents lr') x = map_of (lr_parents lr) x)"
  using assms
proof (induction pdus arbitrary: n lr)
  case (Cons pdu pdus)
  have "(of_nat n :: u64) \<noteq> - 1"
  proof
    assume "(of_nat n :: u64) = - 1"
    then have "(of_nat (Suc n) :: u64) = 0" by simp
    then have "2 ^ 64 dvd Suc n" by (simp add: word_of_nat_eq_0_iff del: of_nat_Suc)
    then have "2 ^ 64 \<le> Suc n" by (rule dvd_imp_le) simp
    with Cons.prems(2) show False by simp
  qed
  then have ord: "(if (of_nat n :: u64) = - 1 then of_nat n else of_nat n + 1) = of_nat (Suc n)" by (simp add: add.commute)
  define lr1 where "lr1 = \<lparr>lr_topo = AList.update (ev_id pdu) (of_nat (Suc n)) (lr_topo lr),
    lr_parents = AList.update (ev_id pdu) (ev_prev pdu) (lr_parents lr)\<rparr>"
  obtain lr' where lr': "lr_snapshot (map Some pdus) (of_nat (Suc n)) lr1 = Some lr'"
    and labels: "\<And>i. i < length pdus \<Longrightarrow> map_of (lr_topo lr') (ev_id (pdus ! i)) = Some (of_nat (Suc (Suc n + i))) \<and>
       map_of (lr_parents lr') (ev_id (pdus ! i)) = Some (ev_prev (pdus ! i))"
    and rest: "\<And>x. x \<notin> ev_id ` set pdus \<Longrightarrow> map_of (lr_topo lr') x = map_of (lr_topo lr1) x \<and>
       map_of (lr_parents lr') x = map_of (lr_parents lr1) x"
    using Cons.IH [of "Suc n" lr1] Cons.prems by auto
  have "lr_snapshot (map Some (pdu # pdus)) (of_nat n) lr = Some lr'"
    unfolding list.map lr_snapshot.simps ord Let_def lr1_def [symmetric] by (rule lr')
  moreover have "map_of (lr_topo lr') (ev_id ((pdu # pdus) ! i)) = Some (of_nat (Suc (n + i))) \<and>
      map_of (lr_parents lr') (ev_id ((pdu # pdus) ! i)) = Some (ev_prev ((pdu # pdus) ! i))"
    if "i < length (pdu # pdus)" for i
  proof (cases i)
    case 0
    with rest [of "ev_id pdu"] Cons.prems(1) show ?thesis by (simp add: lr1_def AList.update_conv')
  next
    case (Suc j)
    with labels [of j] that show ?thesis by simp
  qed
  moreover have "map_of (lr_topo lr') x = map_of (lr_topo lr) x \<and> map_of (lr_parents lr') x = map_of (lr_parents lr) x"
    if "x \<notin> ev_id ` set (pdu # pdus)" for x
    using rest [of x] that by (auto simp: lr1_def AList.update_conv')
  ultimately show ?case by blast
qed simp

text \<open>The prev-event edges of a timeline, and timelines in which parents come first.\<close>

definition prev_edges :: "event list \<Rightarrow> (event_id \<times> event_id) set" where
  "prev_edges pdus = {(ev_id pdu, p) |pdu p. pdu \<in> set pdus \<and> p \<in> set (ev_prev pdu)}"

definition parents_first :: "event list \<Rightarrow> bool" where
  "parents_first pdus \<longleftrightarrow>
     (\<forall>i<length pdus. \<forall>j<length pdus. ev_id (pdus ! j) \<in> set (ev_prev (pdus ! i)) \<longrightarrow> j < i)"

lemma prev_edgesI: "i < length pdus \<Longrightarrow> p \<in> set (ev_prev (pdus ! i)) \<Longrightarrow> (ev_id (pdus ! i), p) \<in> prev_edges pdus"
  using nth_mem [of i pdus] unfolding prev_edges_def by blast

lemma edge_first:
  assumes "distinct (map ev_id pdus)" "parents_first pdus" "i < length pdus" "j < length pdus"
    and "(ev_id (pdus ! i), ev_id (pdus ! j)) \<in> prev_edges pdus"
  shows "j < i"
proof -
  from assms(5) obtain pdu where "pdu \<in> set pdus" "ev_id pdu = ev_id (pdus ! i)" "ev_id (pdus ! j) \<in> set (ev_prev pdu)"
    by (auto simp: prev_edges_def)
  moreover from this have "pdu = pdus ! i" using assms(1,3) by (metis distinct_map inj_onD nth_mem)
  ultimately show ?thesis using assms(2-4) by (auto simp: parents_first_def)
qed

lemma path_first:
  assumes "distinct (map ev_id pdus)" "parents_first pdus" "i < length pdus"
  shows "(ev_id (pdus ! i), z) \<in> (prev_edges pdus)\<^sup>+ \<Longrightarrow> j < length pdus \<Longrightarrow> z = ev_id (pdus ! j) \<Longrightarrow> j < i"
proof (induction arbitrary: j rule: trancl_induct)
  case (base z)
  with edge_first [OF assms] show ?case by simp
next
  case (step y z)
  from step(2) have "y \<in> ev_id ` set pdus" by (auto simp: prev_edges_def)
  then obtain m where m: "m < length pdus" "y = ev_id (pdus ! m)" by (auto simp: in_set_conv_nth)
  with step(2,4,5) edge_first [OF assms(1,2) m(1)] have "j < m" by simp
  also have "m < i" by (rule step(3) [OF m])
  finally show ?case .
qed

lemma snapshot_edges:
  assumes "distinct (map ev_id pdus)"
    and parents: "\<And>i. i < length pdus \<Longrightarrow> map_of parents (ev_id (pdus ! i)) = Some (ev_prev (pdus ! i))"
    and other: "\<And>x. x \<notin> ev_id ` set pdus \<Longrightarrow> map_of parents x = None"
  shows "parent_edges parents = prev_edges pdus"
proof -
  have "(c, p) \<in> parent_edges parents \<longleftrightarrow> (c, p) \<in> prev_edges pdus" for c p
  proof (cases "c \<in> ev_id ` set pdus")
    case True
    then obtain i where i: "i < length pdus" "c = ev_id (pdus ! i)" by (auto simp: in_set_conv_nth)
    have "pdu = pdus ! i" if "pdu \<in> set pdus" "ev_id pdu = c" for pdu
      using assms(1) that i by (metis distinct_map inj_onD nth_mem)
    with i parents [OF i(1)] show ?thesis by (auto simp: parent_edges_def prev_edges_def)
  next
    case False
    with other [OF False] show ?thesis by (auto simp: parent_edges_def prev_edges_def)
  qed
  then show ?thesis by auto
qed

text \<open>
  C19: The live reachability overlay is exact. Built from a timeline of distinct events in which
  parents come before their children, it answers for two known events whether the first is the
  second or an ancestor of it: the shortcut over the ordinals never hides a path, and the search
  finds every path and no other. For an event it does not know it answers that it does not know.
\<close>

theorem live_reachability_exact:
  assumes "distinct (map ev_id pdus)" "length pdus < 2 ^ 64" "parents_first pdus"
  shows "\<exists>lr. lr_build (map Some pdus) = Some lr \<and>
    reaches lr src dst =
      (if src = dst then ReachYes
       else if src \<notin> ev_id ` set pdus \<or> dst \<notin> ev_id ` set pdus then ReachUnknown
       else if (dst, src) \<in> (prev_edges pdus)\<^sup>+ then ReachYes else ReachNo)"
proof -
  obtain lr where lr: "lr_build (map Some pdus) = Some lr"
    and label: "\<And>i. i < length pdus \<Longrightarrow> map_of (lr_topo lr) (ev_id (pdus ! i)) = Some (of_nat (Suc i))"
    and parents: "\<And>i. i < length pdus \<Longrightarrow> map_of (lr_parents lr) (ev_id (pdus ! i)) = Some (ev_prev (pdus ! i))"
    and other: "\<And>x. x \<notin> ev_id ` set pdus \<Longrightarrow> map_of (lr_topo lr) x = None \<and> map_of (lr_parents lr) x = None"
    using lr_snapshot_value [of pdus 0 "\<lparr>lr_topo = [], lr_parents = []\<rparr>"] assms(1,2)
    unfolding lr_build_def by fastforce
  note edges = snapshot_edges [OF assms(1) parents conjunct2 [OF other]]
  have index: "\<exists>i<length pdus. x = ev_id (pdus ! i)" if "x \<in> ev_id ` set pdus" for x
    using that by (auto simp: in_set_conv_nth)
  have less: "(of_nat (Suc i) :: u64) < of_nat (Suc j) \<longleftrightarrow> i < j" if "i < length pdus" "j < length pdus" for i j
    using that assms(2) by (simp add: word_less_nat_alt unat_of_nat del: of_nat_Suc)
  have "reaches lr src dst =
      (if src = dst then ReachYes
       else if src \<notin> ev_id ` set pdus \<or> dst \<notin> ev_id ` set pdus then ReachUnknown
       else if (dst, src) \<in> (prev_edges pdus)\<^sup>+ then ReachYes else ReachNo)"
  proof (cases "src = dst \<or> src \<notin> ev_id ` set pdus \<or> dst \<notin> ev_id ` set pdus")
    case True
    then show ?thesis using other [of src] other [of dst] by (auto simp: reaches_def split: option.splits)
  next
    case False
    then obtain i j where i: "i < length pdus" "src = ev_id (pdus ! i)" and j: "j < length pdus" "dst = ev_id (pdus ! j)"
      using index by metis
    have "i < j" if "(dst, src) \<in> (prev_edges pdus)\<^sup>+"
      using path_first [OF assms(1,3) j(1)] that i j by blast
    with False label [OF i(1)] label [OF j(1)] less [OF i(1) j(1)] i(2) j(2) show ?thesis
      by (auto simp: reaches_def exact_reachability_value edges not_le simp del: of_nat_Suc)
  qed
  with lr show ?thesis by blast
qed

text \<open>A timeline of three events, the last with a parent that is not stored.\<close>

definition sample_timeline :: "event list" where
  "sample_timeline =
     [(sample_event ''$a'' ''@a:x'' RoomMember None '''' [])\<lparr>ev_prev := []\<rparr>,
      (sample_event ''$b'' ''@a:x'' RoomMember None '''' [])\<lparr>ev_prev := [''$a'']\<rparr>,
      (sample_event ''$c'' ''@a:x'' RoomMember None '''' [])\<lparr>ev_prev := [''$b'', ''$z'']\<rparr>]"

theorem live_reachability_exact_witness:
  "\<exists>lr. lr_build (map Some sample_timeline) = Some lr \<and> reaches lr ''$a'' ''$c'' = ReachYes"
proof -
  have ids: "map ev_id sample_timeline = [''$a'', ''$b'', ''$c'']" by (simp add: sample_timeline_def sample_event_def)
  have first: "parents_first sample_timeline"
    by (simp add: parents_first_def sample_timeline_def sample_event_def nth_Cons split: nat.splits)
  have edges: "(''$c'', ''$b'') \<in> prev_edges sample_timeline" "(''$b'', ''$a'') \<in> prev_edges sample_timeline"
    using prev_edgesI [of 2 sample_timeline "''$b''"] prev_edgesI [of 1 sample_timeline "''$a''"]
    by (simp_all add: sample_timeline_def sample_event_def)
  then have "(''$c'', ''$a'') \<in> (prev_edges sample_timeline)\<^sup>+" by (meson r_into_trancl trancl_into_trancl)
  moreover have "''$a'' \<in> ev_id ` set sample_timeline" "''$c'' \<in> ev_id ` set sample_timeline"
    by (simp_all add: sample_timeline_def sample_event_def)
  moreover have "length sample_timeline < 2 ^ 64" by (simp add: sample_timeline_def)
  ultimately show ?thesis
    using live_reachability_exact [of sample_timeline "''$a''" "''$c''"] first ids by auto
qed

end
