(* ===== verification/Extremities.thy ===== *)
theory Extremities
  imports Sample_Codec Byte_Order "HOL-Library.List_Lexorder" "HOL-Library.Char_ord"
begin

text \<open>
  Forward extremities of a room (\<^verbatim>\<open>service/rooms/timeline/extremities.rs\<close>): the detection of stored
  tips that have children, the true tips of a window of the graph, in both variants of the source,
  and the recalculation over the whole history, which looks through rejected events.
\<close>

section \<open>The window of the graph\<close>

text \<open>A graph maps an event to the set of its parents; iteration order is that of the list.\<close>

definition detect_phantom_extremities ::
  "(event_id \<times> event_id set) list \<Rightarrow> event_id list \<Rightarrow> event_id list" where
  "detect_phantom_extremities graph stored_extremities =
     (let has_children = \<Union>(snd ` set graph)
      in filter (\<lambda>eid. eid \<in> has_children) stored_extremities)"

definition calculate_true_extremities ::
  "(event_id \<times> event_id set) list \<Rightarrow> event_id list \<Rightarrow> event_id list" where
  "calculate_true_extremities graph sorted_ids =
     (let has_children = fold (\<lambda>(_, parents) acc. acc \<union> parents) graph {};
          true_extremities = filter (\<lambda>eid. eid \<notin> has_children) sorted_ids
      in if true_extremities = [] \<and> sorted_ids \<noteq> [] then [last sorted_ids] else true_extremities)"

definition merge_true_extremities :: "event_id list \<Rightarrow> event_id list \<Rightarrow> event_id list \<Rightarrow> event_id set" where
  "merge_true_extremities true_extremities current_set phantom_tips =
     fold (\<lambda>eid acc. if eid \<in> set phantom_tips then acc else insert eid acc) current_set (set true_extremities)"

text \<open>The variants over bitmaps of 32-bit numbers.\<close>

type_synonym u32 = "32 word"

definition detect_phantom_extremities_roaring :: "u32 set list \<Rightarrow> u32 set \<Rightarrow> u32 set" where
  "detect_phantom_extremities_roaring graph stored_extremities =
     (let has_children = fold (\<lambda>parents acc. acc \<union> parents) graph {}
      in stored_extremities \<inter> has_children)"

definition calculate_true_extremities_roaring :: "u32 set list \<Rightarrow> u32 list \<Rightarrow> u32 set" where
  "calculate_true_extremities_roaring graph sorted_ids =
     (let has_children = fold (\<lambda>parents acc. acc \<union> parents) graph {};
          true_extremities = fold (\<lambda>i acc. if i \<in> has_children then acc else insert i acc) sorted_ids {}
      in if true_extremities = {} \<and> sorted_ids \<noteq> [] then {last sorted_ids} else true_extremities)"

definition merge_true_extremities_roaring :: "u32 set \<Rightarrow> u32 set \<Rightarrow> u32 set \<Rightarrow> u32 set" where
  "merge_true_extremities_roaring true_extremities current_set phantom_tips =
     true_extremities \<union> (current_set - phantom_tips)"

section \<open>The whole history\<close>

definition merge_recalculated_extremities ::
  "event_id set \<Rightarrow> u64 set \<Rightarrow> (event_id \<times> u64 option) list \<Rightarrow> event_id set" where
  "merge_recalculated_extremities true_extremities graph_event_ids current_extremities =
     fold (\<lambda>(event_id, short) acc.
             if (case short of None \<Rightarrow> True | Some s \<Rightarrow> s \<notin> graph_event_ids) then insert event_id acc else acc)
       current_extremities true_extremities"

text \<open>The parents of an accepted event, through the rejected ones: a search with a stack.\<close>

function bridge_search ::
  "(u64 \<times> u64 list) list \<Rightarrow> u64 set \<Rightarrow> u64 list \<Rightarrow> u64 set \<Rightarrow> u64 list \<Rightarrow> u64 list" where
  "bridge_search raw_edges bridge_events [] seen parents = parents"
| "bridge_search raw_edges bridge_events (prev # stack) seen parents =
     (if prev \<in> seen then bridge_search raw_edges bridge_events stack seen parents
      else if prev \<in> bridge_events then
        (case map_of raw_edges prev of
           None \<Rightarrow> bridge_search raw_edges bridge_events stack (insert prev seen) parents
         | Some prevs \<Rightarrow> bridge_search raw_edges bridge_events (rev prevs @ stack) (insert prev seen) parents)
      else bridge_search raw_edges bridge_events stack (insert prev seen) (parents @ [prev]))"
  by pat_completeness auto
termination
proof (relation "measures [\<lambda>(_, _, _, seen, _). card (- seen), \<lambda>(_, _, stack, _, _). length stack]")
  fix seen :: "u64 set" and prev
  assume "prev \<notin> seen"
  then have less: "card (- insert prev seen) < card (- seen)" by (intro psubset_card_mono) auto
  fix raw_edges :: "(u64 \<times> u64 list) list" and bridge_events stack parents prevs
  show "((raw_edges, bridge_events, stack, insert prev seen, parents), raw_edges, bridge_events, prev # stack, seen, parents)
      \<in> measures [\<lambda>(_, _, _, seen, _). card (- seen), \<lambda>(_, _, stack, _, _). length stack]"
    "((raw_edges, bridge_events, rev prevs @ stack, insert prev seen, parents), raw_edges, bridge_events, prev # stack, seen, parents)
      \<in> measures [\<lambda>(_, _, _, seen, _). card (- seen), \<lambda>(_, _, stack, _, _). length stack]"
    "((raw_edges, bridge_events, stack, insert prev seen, parents @ [prev]), raw_edges, bridge_events, prev # stack, seen, parents)
      \<in> measures [\<lambda>(_, _, _, seen, _). card (- seen), \<lambda>(_, _, stack, _, _). length stack]"
    using less by simp_all
qed simp_all

definition accepted_extremity_graph ::
  "(u64 \<times> u64 list) list \<Rightarrow> u64 list \<Rightarrow> u64 set \<Rightarrow> (u64 \<times> u64 list) list" where
  "accepted_extremity_graph raw_edges accepted_events bridge_events =
     map (\<lambda>short_id.
       let stack = rev (case map_of raw_edges short_id of None \<Rightarrow> [] | Some prevs \<Rightarrow> prevs)
       in (short_id, bridge_search raw_edges bridge_events stack {} [])) accepted_events"

text \<open>
  What the recalculation reads: the stored short identifiers of the room (\<open>None\<close> is an item that
  cannot be read), their previous events, event identifiers, the outlier flag of their metadata, the batched verdicts (rejected or
  soft-failed events; \<open>None\<close> is an error), the tips of a graph (computed by another package), the
  stored extremities, timestamps, whether the extremities can be stored, and the order in which hash sets are iterated.
\<close>

record xt_env =
  xe_items :: "u64 option list"
  xe_prevs :: "u64 \<Rightarrow> u64 list option"
  xe_event_id :: "u64 \<Rightarrow> event_id option"
  xe_outlier :: "event_id \<Rightarrow> bool option"
  xe_flagged :: "event_id list \<Rightarrow> event_id set option"
  xe_tips :: "(u64 \<times> u64 list) list \<Rightarrow> u64 set"
  xe_current :: "event_id set"
  xe_short :: "event_id \<Rightarrow> u64 option"
  xe_ts :: "event_id \<Rightarrow> nat option"
  xe_stores :: "event_id list \<Rightarrow> bool"
  xe_iter_shorts :: "u64 set \<Rightarrow> u64 list"
  xe_iter_ids :: "event_id set \<Rightarrow> event_id list"

definition xe_shortids :: "xt_env \<Rightarrow> u64 list" where
  "xe_shortids env = List.map_filter id (xe_items env)"

record xt_scan =
  xs_raw_edges :: "(u64 \<times> u64 list) list"
  xs_accepted :: "u64 set"
  xs_bridge :: "u64 set"
  xs_outlier :: "u64 set"

definition scan_event :: "xt_env \<Rightarrow> u64 \<Rightarrow> xt_scan \<times> (u64 \<times> event_id) list \<Rightarrow> xt_scan \<times> (u64 \<times> event_id) list" where
  "scan_event env s = (\<lambda>(acc, non_outlier_pairs).
     let prevs = (case xe_prevs env s of Some prevs \<Rightarrow> prevs | None \<Rightarrow> []);
         acc = acc\<lparr>xs_raw_edges := AList.update s prevs (xs_raw_edges acc)\<rparr>
     in case xe_event_id env s of
          None \<Rightarrow> (acc, non_outlier_pairs)
        | Some event_id \<Rightarrow>
            (case xe_outlier env event_id of
               None \<Rightarrow> (acc\<lparr>xs_accepted := insert s (xs_accepted acc)\<rparr>, non_outlier_pairs)
             | Some is_outlier \<Rightarrow>
                 if is_outlier then (acc\<lparr>xs_outlier := insert s (xs_outlier acc)\<rparr>, non_outlier_pairs)
                 else (acc, non_outlier_pairs @ [(s, event_id)])))"

definition scan_chunk :: "xt_env \<Rightarrow> u64 list \<Rightarrow> xt_scan \<Rightarrow> xt_scan option" where
  "scan_chunk env short_ids acc =
     (let (acc, pairs) = fold (scan_event env) short_ids (acc, [])
      in case xe_flagged env (map snd pairs) of
           None \<Rightarrow> None
         | Some flagged \<Rightarrow>
             Some (fold (\<lambda>(s, i) acc.
               if i \<in> flagged then acc\<lparr>xs_bridge := insert s (xs_bridge acc)\<rparr>
               else acc\<lparr>xs_accepted := insert s (xs_accepted acc)\<rparr>) pairs acc))"

function scan_chunks :: "xt_env \<Rightarrow> u64 option list \<Rightarrow> xt_scan \<Rightarrow> xt_scan option" where
  "scan_chunks env items acc =
     (if items = [] then Some acc
      else Option.bind (scan_chunk env (List.map_filter id (take 1024 items)) acc) (scan_chunks env (drop 1024 items)))"
  by pat_completeness auto
termination by (relation "measure (\<lambda>(_, items, _). length items)") auto

declare scan_chunks.simps [simp del]

definition recalculate_extremities :: "xt_env \<Rightarrow> bool \<Rightarrow> (bool \<times> nat \<times> event_id list option) option" where
  "recalculate_extremities env update_db =
     (case scan_chunks env (xe_items env) \<lparr>xs_raw_edges = [], xs_accepted = {}, xs_bridge = {}, xs_outlier = {}\<rparr> of
        None \<Rightarrow> None
      | Some scan \<Rightarrow>
          let graph_edges = accepted_extremity_graph (xs_raw_edges scan) (xe_iter_shorts env (xs_accepted scan)) (xs_bridge scan);
              true_tips_short = xe_tips env graph_edges;
              true_set = (\<Union>s\<in>true_tips_short. set_option (xe_event_id env s));
              current = map (\<lambda>i. (i, xe_short env i)) (xe_iter_ids env (xe_current env));
              true_set = merge_recalculated_extremities true_set (xs_accepted scan) current;
              ts = (\<lambda>i. case xe_ts env i of Some t \<Rightarrow> t | None \<Rightarrow> 0);
              final_extremities = sort_key ts (xe_iter_ids env true_set)
          in if set final_extremities = xe_current env then Some (False, length final_extremities, None)
             else if update_db \<and> \<not> xe_stores env final_extremities then None
             else Some (True, length final_extremities, if update_db then Some final_extremities else None))"

section \<open>The search finds the parents across rejected events\<close>

definition raw_relation :: "(u64 \<times> u64 list) list \<Rightarrow> (u64 \<times> u64) set" where
  "raw_relation raw_edges = {(s, p). \<exists>prevs. map_of raw_edges s = Some prevs \<and> p \<in> set prevs}"

definition bridged_parents :: "(u64 \<times> u64) set \<Rightarrow> u64 set \<Rightarrow> u64 \<Rightarrow> u64 set" where
  "bridged_parents edges bridge s = ({(x, y) \<in> edges. x \<in> bridge}\<^sup>* `` (edges `` {s})) - bridge"

lemma bridge_search_set:
  "(\<And>x y. x \<in> seen \<inter> bridge \<Longrightarrow> (x, y) \<in> raw_relation raw \<Longrightarrow> y \<in> seen \<union> set stack) \<Longrightarrow>
   set parents = seen - bridge \<Longrightarrow>
   set (bridge_search raw bridge stack seen parents) =
     ({(x, y) \<in> raw_relation raw. x \<in> bridge}\<^sup>* `` (seen \<union> set stack)) - bridge"
proof (induction raw bridge stack seen parents rule: bridge_search.induct)
  case (1 raw bridge seen parents)
  let ?R = "{(x, y) \<in> raw_relation raw. x \<in> bridge}"
  have "?R `` seen \<subseteq> seen" using 1 by auto
  then have "?R\<^sup>* `` seen = seen" by (rule Image_closed_trancl)
  with 1 show ?case by simp
next
  case (2 raw bridge prev stack seen parents)
  let ?R = "{(x, y) \<in> raw_relation raw. x \<in> bridge}"
  show ?case
  proof (cases "prev \<in> seen")
    case True
    then have "seen \<union> set (prev # stack) = seen \<union> set stack" by auto
    moreover have "set (bridge_search raw bridge stack seen parents) = ?R\<^sup>* `` (seen \<union> set stack) - bridge"
      by (rule 2(1) [OF True]) (use 2(5,6) True in auto)
    ultimately show ?thesis using True by simp
  next
    case new: False
    show ?thesis
    proof (cases "prev \<in> bridge")
      case False
      have "set (bridge_search raw bridge stack (insert prev seen) (parents @ [prev])) =
          ?R\<^sup>* `` (insert prev seen \<union> set stack) - bridge"
        by (rule 2(4) [OF new False]) (use 2(5,6) False in auto)
      with new False show ?thesis by simp
    next
      case bridge: True
      show ?thesis
      proof (cases "map_of raw prev")
        case None
        have "set (bridge_search raw bridge stack (insert prev seen) parents) =
            ?R\<^sup>* `` (insert prev seen \<union> set stack) - bridge"
          by (rule 2(2) [OF new bridge None]) (use 2(5,6) bridge None in \<open>auto simp: raw_relation_def\<close>)
        with new bridge None show ?thesis by simp
      next
        case (Some prevs)
        have "set (bridge_search raw bridge (rev prevs @ stack) (insert prev seen) parents) =
            ?R\<^sup>* `` (insert prev seen \<union> set (rev prevs @ stack)) - bridge"
          by (rule 2(3) [OF new bridge Some]) (use 2(5,6) bridge Some in \<open>auto simp: raw_relation_def\<close>)
        moreover have "?R\<^sup>* `` (insert prev seen \<union> set (rev prevs @ stack)) = ?R\<^sup>* `` (seen \<union> set (prev # stack))"
        proof -
          have "set prevs \<subseteq> ?R\<^sup>* `` {prev}" using bridge Some by (auto simp: raw_relation_def)
          then have "?R\<^sup>* `` set prevs \<subseteq> ?R\<^sup>* `` {prev}" by (force intro: rtrancl_trans)
          then show ?thesis by auto
        qed
        ultimately show ?thesis using new bridge Some by simp
      qed
    qed
  qed
qed

lemma accepted_extremity_graph_set:
  "set (map fst (accepted_extremity_graph raw accepted bridge)) = set accepted"
  "(s, parents) \<in> set (accepted_extremity_graph raw accepted bridge) \<Longrightarrow>
     set parents = bridged_parents (raw_relation raw) bridge s"
proof -
  show "set (map fst (accepted_extremity_graph raw accepted bridge)) = set accepted"
    by (force simp: accepted_extremity_graph_def Let_def)
  assume "(s, parents) \<in> set (accepted_extremity_graph raw accepted bridge)"
  then have parents: "parents = bridge_search raw bridge (rev (case map_of raw s of None \<Rightarrow> [] | Some prevs \<Rightarrow> prevs)) {} []"
    by (auto simp: accepted_extremity_graph_def Let_def)
  have "raw_relation raw `` {s} = set (case map_of raw s of None \<Rightarrow> [] | Some prevs \<Rightarrow> prevs)"
    by (cases "map_of raw s") (auto simp: raw_relation_def)
  then show "set parents = bridged_parents (raw_relation raw) bridge s"
    unfolding parents bridged_parents_def by (subst bridge_search_set) (simp_all)
qed

section \<open>The classification of the stored events\<close>

text \<open>
  With verdicts \<open>bad\<close>: an accepted event is one that is not an outlier and not bad, or whose metadata
  is missing; a bridge is a bad event that is not an outlier.
\<close>

definition accepted_event :: "xt_env \<Rightarrow> (event_id \<Rightarrow> bool) \<Rightarrow> u64 \<Rightarrow> bool" where
  "accepted_event env bad s \<longleftrightarrow>
     (\<exists>i. xe_event_id env s = Some i \<and> (xe_outlier env i = None \<or> xe_outlier env i = Some False \<and> \<not> bad i))"

definition bridge_event :: "xt_env \<Rightarrow> (event_id \<Rightarrow> bool) \<Rightarrow> u64 \<Rightarrow> bool" where
  "bridge_event env bad s \<longleftrightarrow> (\<exists>i. xe_event_id env s = Some i \<and> xe_outlier env i = Some False \<and> bad i)"

definition scanned :: "xt_env \<Rightarrow> (event_id \<Rightarrow> bool) \<Rightarrow> u64 set \<Rightarrow> xt_scan \<Rightarrow> bool" where
  "scanned env bad ids acc \<longleftrightarrow>
     (\<forall>s. map_of (xs_raw_edges acc) s = (if s \<in> ids then Some (case xe_prevs env s of Some prevs \<Rightarrow> prevs | None \<Rightarrow> []) else None)) \<and>
     xs_accepted acc = {s \<in> ids. accepted_event env bad s} \<and> xs_bridge acc = {s \<in> ids. bridge_event env bad s}"

text \<open>Halfway through a chunk, the pairs are the events whose verdict is still to be read.\<close>

lemma scan_event_pairs:
  assumes "fold (scan_event env) ids (acc, pairs) = (acc', pairs')"
  shows "set pairs' = set pairs \<union> {(s, i). s \<in> set ids \<and> xe_event_id env s = Some i \<and> xe_outlier env i = Some False}"
    and "map_of (xs_raw_edges acc') s =
      (if s \<in> set ids then Some (case xe_prevs env s of Some prevs \<Rightarrow> prevs | None \<Rightarrow> []) else map_of (xs_raw_edges acc) s)"
    and "xs_accepted acc' = xs_accepted acc \<union> {s \<in> set ids. \<exists>i. xe_event_id env s = Some i \<and> xe_outlier env i = None}"
    and "xs_bridge acc' = xs_bridge acc"
proof -
  have "set pairs' = set pairs \<union> {(s, i). s \<in> set ids \<and> xe_event_id env s = Some i \<and> xe_outlier env i = Some False} \<and>
    (\<forall>s. map_of (xs_raw_edges acc') s =
      (if s \<in> set ids then Some (case xe_prevs env s of Some prevs \<Rightarrow> prevs | None \<Rightarrow> []) else map_of (xs_raw_edges acc) s)) \<and>
    xs_accepted acc' = xs_accepted acc \<union> {s \<in> set ids. \<exists>i. xe_event_id env s = Some i \<and> xe_outlier env i = None} \<and>
    xs_bridge acc' = xs_bridge acc"
    using assms
  proof (induction ids arbitrary: acc pairs)
    case (Cons s ids)
    obtain acc1 pairs1 where one: "scan_event env s (acc, pairs) = (acc1, pairs1)" by fastforce
    have step: "set pairs1 = set pairs \<union> {(s', i). s' = s \<and> xe_event_id env s = Some i \<and> xe_outlier env i = Some False}"
      "map_of (xs_raw_edges acc1) s' = (if s' = s then Some (case xe_prevs env s of Some prevs \<Rightarrow> prevs | None \<Rightarrow> [])
         else map_of (xs_raw_edges acc) s')"
      "xs_accepted acc1 = xs_accepted acc \<union> {s'. s' = s \<and> (\<exists>i. xe_event_id env s = Some i \<and> xe_outlier env i = None)}"
      "xs_bridge acc1 = xs_bridge acc" for s'
      using one by (auto simp: scan_event_def Let_def AList.update_conv' split: option.splits if_split_asm)
    have "fold (scan_event env) ids (acc1, pairs1) = (acc', pairs')" using Cons.prems one by simp
    note IH = Cons.IH [OF this]
    show ?case using IH unfolding step by (auto split: if_split_asm)
  qed simp
  then show "set pairs' = set pairs \<union> {(s, i). s \<in> set ids \<and> xe_event_id env s = Some i \<and> xe_outlier env i = Some False}"
    "map_of (xs_raw_edges acc') s =
      (if s \<in> set ids then Some (case xe_prevs env s of Some prevs \<Rightarrow> prevs | None \<Rightarrow> []) else map_of (xs_raw_edges acc) s)"
    "xs_accepted acc' = xs_accepted acc \<union> {s \<in> set ids. \<exists>i. xe_event_id env s = Some i \<and> xe_outlier env i = None}"
    "xs_bridge acc' = xs_bridge acc" by blast+
qed

lemma fold_verdicts:
  fixes flagged :: "event_id set"
  defines "f \<equiv> \<lambda>(s, i) acc. if i \<in> flagged then acc\<lparr>xs_bridge := insert s (xs_bridge acc)\<rparr>
    else acc\<lparr>xs_accepted := insert s (xs_accepted acc)\<rparr>"
  shows "xs_raw_edges (fold f pairs acc) = xs_raw_edges acc"
    "xs_bridge (fold f pairs acc) = xs_bridge acc \<union> {s. \<exists>i. (s, i) \<in> set pairs \<and> i \<in> flagged}"
    "xs_accepted (fold f pairs acc) = xs_accepted acc \<union> {s. \<exists>i. (s, i) \<in> set pairs \<and> i \<notin> flagged}"
proof -
  have "xs_raw_edges (fold f pairs acc) = xs_raw_edges acc \<and>
    xs_bridge (fold f pairs acc) = xs_bridge acc \<union> {s. \<exists>i. (s, i) \<in> set pairs \<and> i \<in> flagged} \<and>
    xs_accepted (fold f pairs acc) = xs_accepted acc \<union> {s. \<exists>i. (s, i) \<in> set pairs \<and> i \<notin> flagged}"
  proof (induction pairs arbitrary: acc)
    case (Cons p pairs)
    obtain s i where p: "p = (s, i)" by fastforce
    show ?case
    proof (cases "i \<in> flagged")
      case True
      then have "f p acc = acc\<lparr>xs_bridge := insert s (xs_bridge acc)\<rparr>" by (simp add: f_def p)
      with Cons [of "f p acc"] True show ?thesis by (auto simp: p)
    next
      case False
      then have "f p acc = acc\<lparr>xs_accepted := insert s (xs_accepted acc)\<rparr>" by (simp add: f_def p)
      with Cons [of "f p acc"] False show ?thesis by (auto simp: p)
    qed
  qed simp
  then show "xs_raw_edges (fold f pairs acc) = xs_raw_edges acc"
    "xs_bridge (fold f pairs acc) = xs_bridge acc \<union> {s. \<exists>i. (s, i) \<in> set pairs \<and> i \<in> flagged}"
    "xs_accepted (fold f pairs acc) = xs_accepted acc \<union> {s. \<exists>i. (s, i) \<in> set pairs \<and> i \<notin> flagged}" by blast+
qed

lemma scan_chunk_scanned:
  assumes flagged: "\<And>ids. xe_flagged env ids = Some {i \<in> set ids. bad i}" and acc: "scanned env bad prior acc"
  shows "\<exists>acc'. scan_chunk env ids acc = Some acc' \<and> scanned env bad (prior \<union> set ids) acc'"
proof -
  obtain acc1 pairs where one: "fold (scan_event env) ids (acc, []) = (acc1, pairs)" by fastforce
  note facts = scan_event_pairs [OF one]
  define acc' where "acc' = fold (\<lambda>(s, i) acc.
    if i \<in> {i \<in> set (map snd pairs). bad i} then acc\<lparr>xs_bridge := insert s (xs_bridge acc)\<rparr>
    else acc\<lparr>xs_accepted := insert s (xs_accepted acc)\<rparr>) pairs acc1"
  have raw: "xs_raw_edges acc' = xs_raw_edges acc1" unfolding acc'_def by (rule fold_verdicts)
  have bridge: "xs_bridge acc' = xs_bridge acc1 \<union> {s. \<exists>i. (s, i) \<in> set pairs \<and> bad i}"
    unfolding acc'_def fold_verdicts(2) by force
  have accepted: "xs_accepted acc' = xs_accepted acc1 \<union> {s. \<exists>i. (s, i) \<in> set pairs \<and> \<not> bad i}"
    unfolding acc'_def fold_verdicts(3) by force
  have "xs_accepted acc' = {s \<in> prior \<union> set ids. accepted_event env bad s}"
    using acc unfolding accepted facts(1,3) scanned_def accepted_event_def by auto
  moreover have "xs_bridge acc' = {s \<in> prior \<union> set ids. bridge_event env bad s}"
    using acc unfolding bridge facts(1,4) scanned_def bridge_event_def by auto
  ultimately have "scanned env bad (prior \<union> set ids) acc'"
    using acc unfolding scanned_def raw facts(2) by auto
  moreover have "scan_chunk env ids acc = Some acc'" by (simp add: scan_chunk_def one flagged acc'_def)
  ultimately show ?thesis by blast
qed

lemma set_map_filter_id: "set (List.map_filter id xs) = {x. Some x \<in> set xs}"
  by (induction xs) (auto simp: List.map_filter_simps split: option.splits)

lemma scan_chunks_scanned:
  assumes flagged: "\<And>ids. xe_flagged env ids = Some {i \<in> set ids. bad i}"
  shows "scanned env bad prior acc \<Longrightarrow>
    \<exists>acc'. scan_chunks env items acc = Some acc' \<and> scanned env bad (prior \<union> set (List.map_filter id items)) acc'"
proof (induction items arbitrary: prior acc rule: length_induct)
  case (1 items)
  show ?case
  proof (cases "items = []")
    case False
    let ?ids = "List.map_filter id (take 1024 items)"
    obtain acc1 where one: "scan_chunk env ?ids acc = Some acc1" "scanned env bad (prior \<union> set ?ids) acc1"
      using scan_chunk_scanned [OF flagged "1.prems"] by blast
    have "length (drop 1024 items) < length items" using False by simp
    then obtain acc' where rest: "scan_chunks env (drop 1024 items) acc1 = Some acc'" and
      "scanned env bad (prior \<union> set ?ids \<union> set (List.map_filter id (drop 1024 items))) acc'"
      using "1.IH" one(2) by blast
    moreover have "set ?ids \<union> set (List.map_filter id (drop 1024 items)) = set (List.map_filter id items)"
      unfolding set_map_filter_id using set_append [of "take 1024 items" "drop 1024 items"] by auto
    ultimately have "scanned env bad (prior \<union> set (List.map_filter id items)) acc'" by (simp only: Un_assoc)
    moreover have "scan_chunks env items acc = Some acc'"
      unfolding scan_chunks.simps [of env items] one(1) using rest False by simp
    ultimately show ?thesis by blast
  qed (use "1.prems" in \<open>simp add: scan_chunks.simps List.map_filter_simps\<close>)
qed

lemma fold_insert_if: "fold (\<lambda>x acc. if P x then insert (f x) acc else acc) xs A = A \<union> f ` {x \<in> set xs. P x}"
  by (induction xs arbitrary: A) (auto split: if_split_asm)

lemma merge_recalculated_value:
  "merge_recalculated_extremities tips accepted current =
     tips \<union> {i. \<exists>short. (i, short) \<in> set current \<and> (\<forall>s. short = Some s \<longrightarrow> s \<notin> accepted)}"
proof -
  have "merge_recalculated_extremities tips accepted current =
      fold (\<lambda>x acc. if (case snd x of None \<Rightarrow> True | Some s \<Rightarrow> s \<notin> accepted) then insert (fst x) acc else acc) current tips"
    unfolding merge_recalculated_extremities_def case_prod_beta' by (rule refl)
  moreover have "(case short of None \<Rightarrow> True | Some s \<Rightarrow> s \<notin> accepted) \<longleftrightarrow> (\<forall>s. short = Some s \<longrightarrow> s \<notin> accepted)" for short
    by (cases short) auto
  ultimately show ?thesis unfolding fold_insert_if by (auto intro: rev_image_eqI)
qed

section \<open>Properties\<close>

definition xt_env_ok :: "xt_env \<Rightarrow> (event_id \<Rightarrow> bool) \<Rightarrow> bool" where
  "xt_env_ok env bad \<longleftrightarrow>
     (\<forall>ids. xe_flagged env ids = Some {i \<in> set ids. bad i}) \<and>
     (\<forall>edges. xe_tips env edges = {s \<in> fst ` set edges. \<forall>(_, parents) \<in> set edges. s \<notin> set parents}) \<and>
     (\<forall>S. set (xe_iter_shorts env S) = S) \<and> (\<forall>S. finite S \<longrightarrow> set (xe_iter_ids env S) = S) \<and>
     finite (xe_current env) \<and> (\<forall>xs. xe_stores env xs)"

lemma xt_env_okD:
  assumes "xt_env_ok env bad"
  shows "xe_flagged env ids = Some {i \<in> set ids. bad i}"
    and "xe_tips env edges = {s \<in> fst ` set edges. \<forall>(_, parents) \<in> set edges. s \<notin> set parents}"
    and "set (xe_iter_shorts env S) = S" and "finite T \<Longrightarrow> set (xe_iter_ids env T) = T"
    and "finite (xe_current env)" and "xe_stores env xs"
  using assms unfolding xt_env_ok_def by simp_all

definition stored_edges :: "xt_env \<Rightarrow> (u64 \<times> u64) set" where
  "stored_edges env = {(s, p). s \<in> set (xe_shortids env) \<and> (\<exists>prevs. xe_prevs env s = Some prevs \<and> p \<in> set prevs)}"

definition accepted_history :: "xt_env \<Rightarrow> (event_id \<Rightarrow> bool) \<Rightarrow> u64 set" where
  "accepted_history env bad = {s \<in> set (xe_shortids env). accepted_event env bad s}"

definition rejected_history :: "xt_env \<Rightarrow> (event_id \<Rightarrow> bool) \<Rightarrow> u64 set" where
  "rejected_history env bad = {s \<in> set (xe_shortids env). bridge_event env bad s}"

text \<open>The tips of the accepted history.\<close>

definition history_tips :: "xt_env \<Rightarrow> (event_id \<Rightarrow> bool) \<Rightarrow> u64 set" where
  "history_tips env bad = {s \<in> accepted_history env bad.
     \<forall>s'\<in>accepted_history env bad. s \<notin> bridged_parents (stored_edges env) (rejected_history env bad) s'}"

lemma scan_all:
  assumes "xt_env_ok env bad"
  obtains scan where
    "scan_chunks env (xe_items env) \<lparr>xs_raw_edges = [], xs_accepted = {}, xs_bridge = {}, xs_outlier = {}\<rparr> = Some scan"
    "xs_accepted scan = accepted_history env bad" "xs_bridge scan = rejected_history env bad"
    "raw_relation (xs_raw_edges scan) = stored_edges env"
proof -
  let ?init = "\<lparr>xs_raw_edges = [], xs_accepted = {}, xs_bridge = {}, xs_outlier = {}\<rparr>"
  note flagged = xt_env_okD(1) [OF assms]
  have "scanned env bad {} ?init" by (simp add: scanned_def)
  then obtain scan where scan: "scan_chunks env (xe_items env) ?init = Some scan"
    and ok: "scanned env bad (set (xe_shortids env)) scan"
    using scan_chunks_scanned [OF flagged, of "{}" ?init "xe_items env"] by (auto simp: xe_shortids_def)
  have "(s, p) \<in> raw_relation (xs_raw_edges scan) \<longleftrightarrow> (s, p) \<in> stored_edges env" for s p
  proof -
    have "map_of (xs_raw_edges scan) s =
        (if s \<in> set (xe_shortids env) then Some (case xe_prevs env s of Some prevs \<Rightarrow> prevs | None \<Rightarrow> []) else None)"
      using ok unfolding scanned_def by blast
    then show ?thesis unfolding raw_relation_def stored_edges_def by (cases "xe_prevs env s") auto
  qed
  then have "raw_relation (xs_raw_edges scan) = stored_edges env" by auto
  with scan ok show ?thesis
    by (intro that [of scan]) (simp_all add: scanned_def accepted_history_def rejected_history_def)
qed

lemma tips_of_history:
  assumes ok: "xt_env_ok env bad" and raw: "raw_relation raw = stored_edges env"
  shows "xe_tips env (accepted_extremity_graph raw (xe_iter_shorts env (accepted_history env bad)) (rejected_history env bad)) =
    history_tips env bad"
proof -
  define graph where "graph = accepted_extremity_graph raw (xe_iter_shorts env (accepted_history env bad)) (rejected_history env bad)"
  note tips = xt_env_okD(2) [OF ok, of graph] and iter = xt_env_okD(3) [OF ok]
  have nodes: "fst ` set graph = accepted_history env bad"
    using accepted_extremity_graph_set(1) [of raw] iter by (simp add: graph_def)
  have parents: "set parents = bridged_parents (stored_edges env) (rejected_history env bad) s'"
    if "(s', parents) \<in> set graph" for s' parents
    using accepted_extremity_graph_set(2) [of s' parents raw] that raw by (simp add: graph_def)
  have "(\<forall>(_, parents) \<in> set graph. s \<notin> set parents) \<longleftrightarrow>
      (\<forall>s'\<in>accepted_history env bad. s \<notin> bridged_parents (stored_edges env) (rejected_history env bad) s')" for s
  proof -
    have "(\<forall>(_, parents) \<in> set graph. s \<notin> set parents) \<longleftrightarrow> (\<forall>x\<in>set graph. s \<notin> set (snd x))" by (simp add: case_prod_beta')
    also have "\<dots> \<longleftrightarrow> (\<forall>x\<in>set graph. s \<notin> bridged_parents (stored_edges env) (rejected_history env bad) (fst x))"
      using parents by (intro ball_cong refl) (metis prod.collapse)
    finally show ?thesis unfolding nodes [symmetric] by simp
  qed
  then show ?thesis unfolding graph_def [symmetric] tips nodes history_tips_def by simp
qed


text \<open>
  The bitmap variants compute the same sets as the hash set variants, for every numbering of the
  events, and merging drops exactly the proven phantoms.
\<close>

lemma fold_union_map: "fold (\<lambda>x acc. acc \<union> g x) xs A = A \<union> (\<Union>x\<in>set xs. g x)"
  by (induction xs arbitrary: A) auto

lemma phantom_roaring:
  assumes "inj_on num (\<Union>(snd ` set graph) \<union> set stored)"
  shows "num ` set (detect_phantom_extremities graph stored) =
    detect_phantom_extremities_roaring (map (\<lambda>x. num ` snd x) graph) (num ` set stored)"
proof -
  have "num ` (set stored \<inter> \<Union>(snd ` set graph)) = num ` set stored \<inter> num ` \<Union>(snd ` set graph)"
    by (rule inj_on_image_Int [OF assms]) auto
  moreover have "set (detect_phantom_extremities graph stored) = set stored \<inter> \<Union>(snd ` set graph)"
    by (auto simp: detect_phantom_extremities_def)
  ultimately show ?thesis
    by (simp add: detect_phantom_extremities_roaring_def fold_union_map [where g = id, simplified] image_UN)
qed

lemma true_extremities_roaring:
  assumes inj: "inj_on num (\<Union>(snd ` set graph) \<union> set sorted_ids)"
  shows "num ` set (calculate_true_extremities graph sorted_ids) =
    calculate_true_extremities_roaring (map (\<lambda>x. num ` snd x) graph) (map num sorted_ids)"
proof -
  define children where "children = \<Union>(snd ` set graph)"
  have fold1: "fold (\<lambda>(_, parents) acc. acc \<union> parents) graph {} = children"
    using fold_union_map [of snd graph "{}"] by (simp add: children_def case_prod_beta')
  have fold2: "fold (\<lambda>parents acc. acc \<union> parents) (map (\<lambda>x. num ` snd x) graph) {} = num ` children"
    by (simp add: fold_union_map [where g = id, simplified] children_def image_UN)
  have mem: "num i \<in> num ` children \<longleftrightarrow> i \<in> children" if "i \<in> set sorted_ids" for i
    by (rule inj_on_image_mem_iff [OF inj]) (use that in \<open>auto simp: children_def\<close>)
  have "fold (\<lambda>i acc. if i \<in> num ` children then acc else insert i acc) (map num sorted_ids) {} =
      num ` {i \<in> set sorted_ids. i \<notin> children}"
  proof -
    have "fold (\<lambda>i acc. if i \<in> num ` children then acc else insert i acc) (map num sorted_ids) {} =
        fold (\<lambda>i acc. if i \<notin> num ` children then insert (id i) acc else acc) (map num sorted_ids) {}"
      by (intro arg_cong2 [where f = "\<lambda>f A. fold f (map num sorted_ids) A"] ext) auto
    also have "\<dots> = num ` {i \<in> set sorted_ids. i \<notin> children}" unfolding fold_insert_if using mem by auto
    finally show ?thesis .
  qed
  moreover have "{i \<in> set sorted_ids. i \<notin> children} = {} \<longleftrightarrow> filter (\<lambda>eid. eid \<notin> children) sorted_ids = []"
    by (auto simp: filter_empty_conv)
  ultimately show ?thesis
    unfolding calculate_true_extremities_def calculate_true_extremities_roaring_def Let_def fold1 fold2
    by (auto simp: last_map)
qed

lemma merge_true_extremities_value:
  "merge_true_extremities tips current phantoms = set tips \<union> (set current - set phantoms)"
proof -
  have "merge_true_extremities tips current phantoms =
      fold (\<lambda>eid acc. if eid \<notin> set phantoms then insert (id eid) acc else acc) current (set tips)"
    unfolding merge_true_extremities_def by (intro arg_cong2 [where f = "\<lambda>f A. fold f current A"] ext) auto
  then show ?thesis unfolding fold_insert_if by auto
qed

lemma merge_roaring:
  assumes "inj_on num (set current \<union> set phantoms)"
  shows "num ` merge_true_extremities tips current phantoms =
    merge_true_extremities_roaring (num ` set tips) (num ` set current) (num ` set phantoms)"
  unfolding merge_true_extremities_value merge_true_extremities_roaring_def image_Un
  using inj_on_image_set_diff [OF assms, of "set current" "set phantoms"] by auto

text \<open>
  A history for the witness: \<open>$b\<close> (2) follows \<open>$a\<close> (1) through the rejected \<open>$r\<close> (9); \<open>$a\<close> is stored
  as an extremity, and so is \<open>$z\<close>, which is not in the history.
\<close>

definition sample_history :: xt_env where
  "sample_history =
     \<lparr>xe_items = [Some 2, None, Some 9, Some 1], xe_prevs = [2 \<mapsto> [9], 9 \<mapsto> [1], 1 \<mapsto> []],
      xe_event_id = [1 \<mapsto> ''$a'', 2 \<mapsto> ''$b'', 9 \<mapsto> ''$r''], xe_outlier = (\<lambda>_. Some False),
      xe_flagged = (\<lambda>ids. Some {i \<in> set ids. i = ''$r''}),
      xe_tips = (\<lambda>edges. {s \<in> fst ` set edges. \<forall>(_, parents) \<in> set edges. s \<notin> set parents}),
      xe_current = {''$a'', ''$z''}, xe_short = [''$a'' \<mapsto> 1, ''$b'' \<mapsto> 2, ''$r'' \<mapsto> 9], xe_ts = (\<lambda>_. None), xe_stores = (\<lambda>_. True),
      xe_iter_shorts = sorted_list_of_set, xe_iter_ids = sorted_list_of_set\<rparr>"


end
