(* ===== verification/Verdicts.thy ===== *)
theory Verdicts
  imports Event_Model Byte_Order
begin

text \<open>
  Verdicts on events (\<^verbatim>\<open>mtxdb/src/verdicts.rs\<close>, \<^verbatim>\<open>service/rooms/pdu_metadata\<close>): one small record
  per event says whether it was rejected or soft-failed and which event redacted it. The
  adapter reads, changes and writes a record in an optimistic transaction that is redone when
  another writer was faster; the service classifies rejections into those that may be retried
  and those that are final. The storage engine and the encoding of the records are a
  third-party package and a parameter; faults of the disk are left out.
\<close>

section \<open>Reasons\<close>

text \<open>
  Reasons are Rust strings, here lists of code points. \<^verbatim>\<open>trim\<close> removes the code points with the
  property \<^verbatim>\<open>White_Space\<close> from both ends.
\<close>

type_synonym text_str = "nat list"

definition chars :: "string \<Rightarrow> text_str" where
  "chars s = map of_char s"

definition is_whitespace :: "nat \<Rightarrow> bool" where
  "is_whitespace c \<longleftrightarrow>
     (9 \<le> c \<and> c \<le> 13) \<or> c = 0x20 \<or> c = 0x85 \<or> c = 0xA0 \<or> c = 0x1680 \<or>
     (0x2000 \<le> c \<and> c \<le> 0x200A) \<or> c = 0x2028 \<or> c = 0x2029 \<or> c = 0x202F \<or> c = 0x205F \<or> c = 0x3000"

definition trim :: "text_str \<Rightarrow> text_str" where
  "trim s = rev (dropWhile is_whitespace (rev (dropWhile is_whitespace s)))"

datatype rejection_code =
    SignatureVerificationFailed
  | InvalidPduFormat
  | DependsOnRejectedAuthEvent
  | PrevEventsRejected
  | MissingAuthEvent
  | DuplicateAuthEventKey
  | MissingCreateEvent
  | AuthCheckFailed
  | StructurallyInvalidInGetMissingEvents
  | PrevEventUnknownStateIdsFailed
  | StateResolutionFailedWithPrevsPresent
  | UnknownRejection

fun rejection_tag :: "rejection_code \<Rightarrow> string" where
  "rejection_tag SignatureVerificationFailed = ''signature_verification_failed''"
| "rejection_tag InvalidPduFormat = ''invalid_pdu_format''"
| "rejection_tag DependsOnRejectedAuthEvent = ''depends_on_rejected_auth_event''"
| "rejection_tag PrevEventsRejected = ''prev_events_rejected''"
| "rejection_tag MissingAuthEvent = ''missing_auth_event''"
| "rejection_tag DuplicateAuthEventKey = ''duplicate_auth_event_key''"
| "rejection_tag MissingCreateEvent = ''missing_create_event''"
| "rejection_tag AuthCheckFailed = ''auth_check_failed''"
| "rejection_tag StructurallyInvalidInGetMissingEvents = ''structurally_invalid_in_get_missing_events''"
| "rejection_tag PrevEventUnknownStateIdsFailed = ''prev_event_unknown_state_ids_failed''"
| "rejection_tag StateResolutionFailedWithPrevsPresent = ''state_resolution_failed_with_prevs_present''"
| "rejection_tag UnknownRejection = ''unknown''"

fun is_retryable :: "rejection_code \<Rightarrow> bool" where
  "is_retryable MissingAuthEvent = True"
| "is_retryable PrevEventsRejected = True"
| "is_retryable StructurallyInvalidInGetMissingEvents = True"
| "is_retryable PrevEventUnknownStateIdsFailed = True"
| "is_retryable StateResolutionFailedWithPrevsPresent = True"
| "is_retryable _ = False"

definition with_detail :: "rejection_code \<Rightarrow> text_str \<Rightarrow> text_str" where
  "with_detail code detail = chars (rejection_tag code) @ chars '': '' @ detail"

text \<open>The first piece of \<^verbatim>\<open>split(':')\<close>, trimmed.\<close>

definition leading_tag :: "text_str \<Rightarrow> text_str" where
  "leading_tag reason = trim (takeWhile (\<lambda>c. c \<noteq> of_char CHR '':'') reason)"

definition known_rejections :: "rejection_code list" where
  "known_rejections =
     [SignatureVerificationFailed, InvalidPduFormat, DependsOnRejectedAuthEvent, PrevEventsRejected,
      MissingAuthEvent, DuplicateAuthEventKey, MissingCreateEvent, AuthCheckFailed,
      StructurallyInvalidInGetMissingEvents, PrevEventUnknownStateIdsFailed,
      StateResolutionFailedWithPrevsPresent]"

definition rejection_parse :: "text_str \<Rightarrow> rejection_code option" where
  "rejection_parse reason =
     find (\<lambda>code. chars (rejection_tag code) = leading_tag reason) known_rejections"

definition is_retryable_rejection_reason :: "text_str \<Rightarrow> bool" where
  "is_retryable_rejection_reason reason =
     (case rejection_parse reason of None \<Rightarrow> False | Some code \<Rightarrow> is_retryable code)"

fun rejection_to_u8 :: "rejection_code \<Rightarrow> byte" where
  "rejection_to_u8 SignatureVerificationFailed = 0"
| "rejection_to_u8 InvalidPduFormat = 1"
| "rejection_to_u8 DependsOnRejectedAuthEvent = 2"
| "rejection_to_u8 PrevEventsRejected = 3"
| "rejection_to_u8 MissingAuthEvent = 4"
| "rejection_to_u8 DuplicateAuthEventKey = 5"
| "rejection_to_u8 MissingCreateEvent = 6"
| "rejection_to_u8 AuthCheckFailed = 7"
| "rejection_to_u8 StructurallyInvalidInGetMissingEvents = 8"
| "rejection_to_u8 PrevEventUnknownStateIdsFailed = 9"
| "rejection_to_u8 StateResolutionFailedWithPrevsPresent = 10"
| "rejection_to_u8 UnknownRejection = 11"

definition rejection_from_u8 :: "byte \<Rightarrow> rejection_code" where
  "rejection_from_u8 v =
     (if v = 0 then SignatureVerificationFailed
      else if v = 1 then InvalidPduFormat
      else if v = 2 then DependsOnRejectedAuthEvent
      else if v = 3 then PrevEventsRejected
      else if v = 4 then MissingAuthEvent
      else if v = 5 then DuplicateAuthEventKey
      else if v = 6 then MissingCreateEvent
      else if v = 7 then AuthCheckFailed
      else if v = 8 then StructurallyInvalidInGetMissingEvents
      else if v = 9 then PrevEventUnknownStateIdsFailed
      else if v = 10 then StateResolutionFailedWithPrevsPresent
      else UnknownRejection)"

datatype soft_fail_code = SoftAuthCheckFailed | Imported | Manual | UnknownSoftFail

fun soft_fail_to_u8 :: "soft_fail_code \<Rightarrow> byte" where
  "soft_fail_to_u8 SoftAuthCheckFailed = 0"
| "soft_fail_to_u8 Imported = 1"
| "soft_fail_to_u8 Manual = 2"
| "soft_fail_to_u8 UnknownSoftFail = 3"

definition soft_fail_from_u8 :: "byte \<Rightarrow> soft_fail_code" where
  "soft_fail_from_u8 v =
     (if v = 0 then SoftAuthCheckFailed
      else if v = 1 then Imported
      else if v = 2 then Manual
      else UnknownSoftFail)"

fun soft_fail_tag :: "soft_fail_code \<Rightarrow> string" where
  "soft_fail_tag SoftAuthCheckFailed = ''auth_check_failed''"
| "soft_fail_tag Imported = ''imported''"
| "soft_fail_tag Manual = ''manual''"
| "soft_fail_tag UnknownSoftFail = ''unknown''"

definition soft_fail_parse :: "text_str \<Rightarrow> soft_fail_code option" where
  "soft_fail_parse reason =
     find (\<lambda>code. chars (soft_fail_tag code) = leading_tag reason) [SoftAuthCheckFailed, Imported, Manual]"

lemma rejection_u8_roundtrip [simp]: "rejection_from_u8 (rejection_to_u8 code) = code"
  by (cases code) (simp_all add: rejection_from_u8_def)

lemma soft_fail_u8_roundtrip [simp]: "soft_fail_from_u8 (soft_fail_to_u8 code) = code"
  by (cases code) (simp_all add: soft_fail_from_u8_def)

lemma leading_tag_detail: "leading_tag (with_detail code detail) = chars (rejection_tag code)"
  by (cases code) (simp_all add: leading_tag_def with_detail_def chars_def trim_def is_whitespace_def)

lemma leading_tag_tag: "leading_tag (chars (rejection_tag code)) = chars (rejection_tag code)"
  by (cases code) (simp_all add: leading_tag_def chars_def trim_def is_whitespace_def)

lemma find_tag:
  "find (\<lambda>code'. chars (rejection_tag code') = chars (rejection_tag code)) known_rejections =
     (if code = UnknownRejection then None else Some code)"
  by (cases code) (simp_all add: known_rejections_def chars_def)

text \<open>The free text after the tag never changes the classification.\<close>

lemma rejection_parse_detail:
  "rejection_parse (with_detail code detail) = (if code = UnknownRejection then None else Some code)"
  unfolding rejection_parse_def leading_tag_detail by (rule find_tag)

lemma rejection_parse_tag:
  "rejection_parse (chars (rejection_tag code)) = (if code = UnknownRejection then None else Some code)"
  unfolding rejection_parse_def leading_tag_tag by (rule find_tag)

section \<open>The adapter\<close>

text \<open>
  A verdict and its codec belong to the storage engine. Event identifiers are their bytes.
  The engine derives the identifier of a record from the event and its collection from that
  identifier; the last component is \<^verbatim>\<open>Verdict::is_empty\<close>.
\<close>

record verdict =
  v_rejection :: "byte option"
  v_soft_fail :: "byte option"
  v_redacted_by :: "string option"
  v_outlier :: bool

definition verdict_default :: verdict where
  "verdict_default = \<lparr>v_rejection = None, v_soft_fail = None, v_redacted_by = None, v_outlier = False\<rparr>"

datatype store_error = CorruptRecord string | StaleRead

record ('n, 'c) verdict_engine =
  ve_record_id :: "event_id \<Rightarrow> 'n"
  ve_collection :: "'n \<Rightarrow> 'c"
  ve_encode :: "event_id \<Rightarrow> verdict \<Rightarrow> (store_error, byte list) result"
  ve_decode :: "byte list \<Rightarrow> (store_error, event_id \<times> verdict) result"
  ve_is_empty :: "verdict \<Rightarrow> bool"

text \<open>The store: the live records of every collection and its logical version.\<close>

record ('n, 'c) mtx_store =
  ms_records :: "'c \<Rightarrow> 'n \<Rightarrow> byte list option"
  ms_version :: "'c \<Rightarrow> nat"

definition entry_verdict ::
  "('n, 'c) verdict_engine \<Rightarrow> event_id \<Rightarrow> byte list option \<Rightarrow> (store_error, verdict option) result" where
  "entry_verdict k ev value =
     (case value of
        None \<Rightarrow> Inr None
      | Some bs \<Rightarrow>
          try_res (ve_decode k bs) (\<lambda>(stored_event, verdict).
          Inr (if stored_event = ev then Some verdict else None)))"

definition verdict_get ::
  "('n, 'c) verdict_engine \<Rightarrow> ('n, 'c) mtx_store \<Rightarrow> event_id \<Rightarrow> (store_error, verdict option) result" where
  "verdict_get k db ev =
     (let node = ve_record_id k ev in entry_verdict k ev (ms_records db (ve_collection k node) node))"

text \<open>
  The batched read: the requests are grouped by collection, the groups are read in the
  order in which the hash map yields them.
\<close>

definition collection_entries ::
  "('n, 'c) verdict_engine \<Rightarrow> event_id list \<Rightarrow> 'c \<Rightarrow> (nat \<times> 'n \<times> event_id) list" where
  "collection_entries k evs c =
     filter (\<lambda>(idx, node, ev). ve_collection k node = c)
       (map (\<lambda>(idx, ev). (idx, ve_record_id k ev, ev)) (enumerate 0 evs))"

fun read_entries ::
  "('n, 'c) verdict_engine \<Rightarrow> ('n \<Rightarrow> byte list option) \<Rightarrow> (nat \<times> 'n \<times> event_id) list \<Rightarrow> verdict option list
   \<Rightarrow> (store_error, verdict option list) result" where
  "read_entries k values [] results = Inr results"
| "read_entries k values ((idx, node, ev) # entries) results =
     try_res (entry_verdict k ev (values node)) (\<lambda>verdict.
     read_entries k values entries (results[idx := verdict]))"

fun read_collections ::
  "('n, 'c) verdict_engine \<Rightarrow> ('n, 'c) mtx_store \<Rightarrow> event_id list \<Rightarrow> 'c list \<Rightarrow> verdict option list
   \<Rightarrow> (store_error, verdict option list) result" where
  "read_collections k db evs [] results = Inr results"
| "read_collections k db evs (c # order) results =
     try_res (read_entries k (ms_records db c) (collection_entries k evs c) results) (\<lambda>results.
     read_collections k db evs order results)"

definition verdict_get_many ::
  "('n, 'c) verdict_engine \<Rightarrow> ('n, 'c) mtx_store \<Rightarrow> 'c list \<Rightarrow> event_id list
   \<Rightarrow> (store_error, verdict option list) result" where
  "verdict_get_many k db order evs = read_collections k db evs order (replicate (length evs) None)"

text \<open>
  A staged write, and what a commit makes of it: a put advances the version of its
  collection, the removal of a record that is not there writes nothing.
\<close>

datatype staged = StagedPut "byte list" | StagedRemove

definition verdict_stage ::
  "('n, 'c) verdict_engine \<Rightarrow> ('n, 'c) mtx_store \<Rightarrow> event_id \<Rightarrow> verdict \<Rightarrow> (store_error, staged) result" where
  "verdict_stage k db ev verdict =
     (let node = ve_record_id k ev
      in try_res (case ms_records db (ve_collection k node) node of
                    None \<Rightarrow> Inr ()
                  | Some existing \<Rightarrow>
                      try_res (ve_decode k existing) (\<lambda>(stored_event, _).
                      if stored_event \<noteq> ev
                      then Inl (CorruptRecord ''event record id collision in verdicts'') else Inr ())) (\<lambda>_.
         if ve_is_empty k verdict then Inr StagedRemove
         else try_res (ve_encode k ev verdict) (\<lambda>bs. Inr (StagedPut bs))))"

definition ms_write :: "'c \<Rightarrow> 'n \<Rightarrow> byte list option \<Rightarrow> ('n, 'c) mtx_store \<Rightarrow> ('n, 'c) mtx_store" where
  "ms_write c n value db =
     db\<lparr>ms_records := (ms_records db)(c := (ms_records db c)(n := value)),
        ms_version := (ms_version db)(c := ms_version db c + 1)\<rparr>"

fun commit_staged :: "'c \<Rightarrow> 'n \<Rightarrow> staged \<Rightarrow> ('n, 'c) mtx_store \<Rightarrow> ('n, 'c) mtx_store" where
  "commit_staged c n (StagedPut bs) db = ms_write c n (Some bs) db"
| "commit_staged c n StagedRemove db = (if ms_records db c n = None then db else ms_write c n None db)"

text \<open>
  One round of \<^verbatim>\<open>update\<close>. Other writers may act between the read of the version, the read of
  the record, the staging and the commit; what they do is the argument \<open>other\<close>. \<open>None\<close>
  means that the commit found a newer version.
\<close>

type_synonym ('n, 'c) interference = "nat \<Rightarrow> ('n, 'c) mtx_store \<Rightarrow> ('n, 'c) mtx_store"

definition update_round ::
  "('n, 'c) verdict_engine \<Rightarrow> event_id \<Rightarrow> (verdict \<Rightarrow> verdict) \<Rightarrow> ('n, 'c) interference \<Rightarrow> ('n, 'c) mtx_store
   \<Rightarrow> (store_error, unit) result option \<times> ('n, 'c) mtx_store" where
  "update_round k ev change other db =
     (let node = ve_record_id k ev;
          c = ve_collection k node;
          version = ms_version db c;
          at_read = other 0 db;
          at_stage = other 1 at_read
      in case (case ms_records at_read c node of
                 None \<Rightarrow> Inr verdict_default
               | Some bs \<Rightarrow>
                   try_res (ve_decode k bs) (\<lambda>(stored_event, verdict).
                   if stored_event \<noteq> ev
                   then Inl (CorruptRecord ''event record id collision in verdicts'') else Inr verdict)) of
           Inl e \<Rightarrow> (Some (Inl e), at_read)
         | Inr verdict \<Rightarrow>
             (case verdict_stage k at_stage ev (change verdict) of
                Inl e \<Rightarrow> (Some (Inl e), at_stage)
              | Inr staged \<Rightarrow>
                  let at_commit = other 2 at_stage
                  in if ms_version at_commit c \<noteq> version then (None, at_commit)
                     else (Some (Inr ()), commit_staged c node staged at_commit)))"

function update_loop ::
  "('n, 'c) verdict_engine \<Rightarrow> event_id \<Rightarrow> (verdict \<Rightarrow> verdict) \<Rightarrow> (nat \<Rightarrow> ('n, 'c) interference) \<Rightarrow> nat
   \<Rightarrow> ('n, 'c) mtx_store \<Rightarrow> (store_error, unit) result \<times> ('n, 'c) mtx_store" where
  "update_loop k ev change others attempts db =
     (case update_round k ev change (others attempts) db of
        (Some result, db') \<Rightarrow> (result, db')
      | (None, db') \<Rightarrow>
          if attempts < 3 then update_loop k ev change others (attempts + 1) db'
          else (Inl StaleRead, db'))"
  by pat_completeness auto
termination by (relation "measure (\<lambda>(_, _, _, _, attempts, _). 3 - attempts)") auto

declare update_loop.simps [simp del]

definition verdict_update ::
  "('n, 'c) verdict_engine \<Rightarrow> event_id \<Rightarrow> (verdict \<Rightarrow> verdict) \<Rightarrow> (nat \<Rightarrow> ('n, 'c) interference)
   \<Rightarrow> ('n, 'c) mtx_store \<Rightarrow> (store_error, unit) result \<times> ('n, 'c) mtx_store" where
  "verdict_update k ev change others db = update_loop k ev change others 0 db"

section \<open>Updates are atomic\<close>

text \<open>
  What the adapter relies on: a record decodes to what was encoded, an empty verdict is the
  default one, and every committed write to a collection advances its version.
\<close>

definition verdict_engine_ok :: "('n, 'c) verdict_engine \<Rightarrow> bool" where
  "verdict_engine_ok k \<longleftrightarrow>
     (\<forall>ev v bs. ve_encode k ev v = Inr bs \<longrightarrow> ve_decode k bs = Inr (ev, v)) \<and>
     (\<forall>v. ve_is_empty k v \<longleftrightarrow> v = verdict_default)"

definition later :: "('n, 'c) mtx_store \<Rightarrow> ('n, 'c) mtx_store \<Rightarrow> bool" where
  "later db db' \<longleftrightarrow>
     (\<forall>c. ms_version db c \<le> ms_version db' c \<and>
          (ms_version db' c = ms_version db c \<longrightarrow> ms_records db' c = ms_records db c))"

definition respects_versions :: "(nat \<Rightarrow> ('n, 'c) interference) \<Rightarrow> bool" where
  "respects_versions others \<longleftrightarrow> (\<forall>a i db. later db (others a i db))"

text \<open>The stores that others alone can turn a store into.\<close>

definition by_others :: "(nat \<Rightarrow> ('n, 'c) interference) \<Rightarrow> (('n, 'c) mtx_store \<times> ('n, 'c) mtx_store) set" where
  "by_others others = {(db, others a i db) | db a i. True}\<^sup>*"

definition verdict_or_default :: "verdict option \<Rightarrow> verdict" where
  "verdict_or_default v = (case v of None \<Rightarrow> verdict_default | Some v \<Rightarrow> v)"

definition stored_form :: "verdict \<Rightarrow> verdict option" where
  "stored_form v = (if v = verdict_default then None else Some v)"

lemma verdict_or_default_stored_form [simp]: "verdict_or_default (stored_form v) = v"
  by (simp add: verdict_or_default_def stored_form_def)

lemma later_trans: "later a b \<Longrightarrow> later b c \<Longrightarrow> later a c"
  unfolding later_def by (metis le_antisym le_trans)

lemma by_others_refl [simp, intro]: "(db, db) \<in> by_others others"
  by (simp add: by_others_def)

lemma by_others_step [intro]: "(db, db') \<in> by_others others \<Longrightarrow> (db, others a i db') \<in> by_others others"
  unfolding by_others_def by (erule rtrancl_into_rtrancl) blast

lemma by_others_trans: "(a, b) \<in> by_others others \<Longrightarrow> (b, c) \<in> by_others others \<Longrightarrow> (a, c) \<in> by_others others"
  unfolding by_others_def by (rule rtrancl_trans)

text \<open>The record found under an event's identifier, when it is that event's own.\<close>

definition own_record :: "('n, 'c) verdict_engine \<Rightarrow> event_id \<Rightarrow> byte list option \<Rightarrow> verdict option \<Rightarrow> bool" where
  "own_record k ev value old \<longleftrightarrow>
     (case value of None \<Rightarrow> old = None | Some bs \<Rightarrow> (\<exists>v. ve_decode k bs = Inr (ev, v) \<and> old = Some v))"

lemma own_record_entry: "own_record k ev value old \<Longrightarrow> entry_verdict k ev value = Inr old"
  by (auto simp: own_record_def entry_verdict_def split: option.splits)

lemma own_record_other:
  assumes "own_record k ev value old" and "e \<noteq> ev"
  shows "entry_verdict k e value = Inr None"
  using assms by (auto simp: own_record_def entry_verdict_def split: option.splits)

lemma get_after_write:
  assumes own: "own_record k ev (ms_records db (ve_collection k (ve_record_id k ev)) (ve_record_id k ev)) old"
    and new: "own_record k ev value new"
  shows "verdict_get k (ms_write (ve_collection k (ve_record_id k ev)) (ve_record_id k ev) value db) =
           (verdict_get k db)(ev := Inr new)"
proof
  fix e
  show "verdict_get k (ms_write (ve_collection k (ve_record_id k ev)) (ve_record_id k ev) value db) e =
          ((verdict_get k db)(ev := Inr new)) e"
    using own_record_entry [OF new] own_record_other [OF own, of e] own_record_other [OF new, of e]
    by (auto simp: verdict_get_def Let_def ms_write_def)
qed

lemma get_after_commit:
  assumes ok: "verdict_engine_ok k"
    and own: "own_record k ev (ms_records db (ve_collection k (ve_record_id k ev)) (ve_record_id k ev)) old"
    and staged: "verdict_stage k db ev v = Inr staged"
  shows "verdict_get k (commit_staged (ve_collection k (ve_record_id k ev)) (ve_record_id k ev) staged db) =
           (verdict_get k db)(ev := Inr (stored_form v))"
proof (cases "ve_is_empty k v")
  case True
  then have [simp]: "staged = StagedRemove" "stored_form v = None"
    using staged ok by (auto simp: verdict_stage_def Let_def try_res_eq_Inr stored_form_def verdict_engine_ok_def)
  have none: "own_record k ev None None"
    by (simp add: own_record_def)
  show ?thesis
  proof (cases "ms_records db (ve_collection k (ve_record_id k ev)) (ve_record_id k ev)")
    case None
    then have "verdict_get k db ev = Inr None"
      by (simp add: verdict_get_def entry_verdict_def)
    with None show ?thesis
      by (simp add: fun_upd_idem)
  next
    case (Some bs)
    with get_after_write [OF own none] show ?thesis
      by simp
  qed
next
  case False
  then obtain bs where bs: "staged = StagedPut bs" "ve_encode k ev v = Inr bs"
    using staged by (auto simp: verdict_stage_def Let_def try_res_eq_Inr)
  have "own_record k ev (Some bs) (stored_form v)"
    using False ok bs(2) by (simp add: own_record_def stored_form_def verdict_engine_ok_def)
  from get_after_write [OF own this] show ?thesis
    by (simp add: bs(1))
qed

definition updated_at ::
  "('n, 'c) verdict_engine \<Rightarrow> event_id \<Rightarrow> (verdict \<Rightarrow> verdict) \<Rightarrow> ('n, 'c) mtx_store \<Rightarrow> ('n, 'c) mtx_store \<Rightarrow> bool" where
  "updated_at k ev change db db' \<longleftrightarrow>
     (\<exists>old. verdict_get k db ev = Inr old \<and>
            verdict_get k db' = (verdict_get k db)(ev := Inr (stored_form (change (verdict_or_default old)))))"

lemma update_round_read:
  assumes "(case found of
              None \<Rightarrow> Inr verdict_default
            | Some bs \<Rightarrow>
                try_res (ve_decode k bs) (\<lambda>(stored_event, verdict).
                if stored_event \<noteq> ev then Inl (CorruptRecord msg) else Inr verdict)) = Inr v"
  obtains old where "own_record k ev found old" "v = verdict_or_default old"
proof (cases found)
  case None
  with assms that [of None] show thesis
    by (simp add: own_record_def verdict_or_default_def)
next
  case (Some bs)
  with assms that [of "Some v"] show thesis
    by (auto simp: own_record_def verdict_or_default_def try_res_eq_Inr split: if_split_asm)
qed

lemma later_same_records:
  assumes "later a b" and "later b c" and "ms_version c x = ms_version a x"
  shows "ms_records b x = ms_records a x" "ms_records c x = ms_records a x"
  using assms unfolding later_def by (metis le_antisym)+

lemma update_round_success:
  assumes ok: "verdict_engine_ok k" and resp: "\<And>i db. later db (other i db)"
    and round: "update_round k ev change other db = (Some (Inr u), db')"
  shows "updated_at k ev change (other 2 (other 1 (other 0 db))) db'"
proof -
  define node where "node = ve_record_id k ev"
  define c where "c = ve_collection k node"
  define d0 where "d0 = other 0 db"
  define d1 where "d1 = other 1 d0"
  define d2 where "d2 = other 2 d1"
  from round obtain v staged where
    read: "(case ms_records d0 c node of
              None \<Rightarrow> Inr verdict_default
            | Some bs \<Rightarrow>
                try_res (ve_decode k bs) (\<lambda>(stored_event, verdict).
                if stored_event \<noteq> ev
                then Inl (CorruptRecord ''event record id collision in verdicts'') else Inr verdict)) = Inr v"
    and staged: "verdict_stage k d1 ev (change v) = Inr staged"
    and version: "ms_version d2 c = ms_version db c"
    and db': "db' = commit_staged c node staged d2"
    unfolding update_round_def Let_def node_def c_def d0_def d1_def d2_def
    by (auto split: sum.splits if_split_asm)
  have chain: "later db d0" "later d0 d1" "later d1 d2"
    by (simp_all add: d0_def d1_def d2_def resp)
  have "later d0 d2"
    using chain later_trans by blast
  then have "ms_version d2 c = ms_version d0 c"
    using chain(1) version unfolding later_def by (metis le_antisym)
  with chain(2,3) have records: "ms_records d1 c = ms_records d0 c" "ms_records d2 c = ms_records d0 c"
    using later_same_records by metis+
  from update_round_read [OF read] obtain old where
    own: "own_record k ev (ms_records d2 c node) old" and v: "v = verdict_or_default old"
    using records by metis
  have "verdict_stage k d2 ev (change v) = Inr staged"
    using staged records by (simp add: verdict_stage_def c_def node_def)
  from get_after_commit [OF ok own [unfolded c_def node_def] this]
  have "verdict_get k db' = (verdict_get k d2)(ev := Inr (stored_form (change (verdict_or_default old))))"
    by (simp add: db' c_def node_def v)
  moreover have "verdict_get k d2 ev = Inr old"
    using own_record_entry [OF own] by (simp add: verdict_get_def c_def node_def)
  ultimately show ?thesis
    unfolding updated_at_def d0_def d1_def d2_def by blast
qed

lemma update_round_other:
  assumes "update_round k ev change (others a) db = (r, db')" and "r \<noteq> Some (Inr ())"
  shows "(db, db') \<in> by_others others"
  using assms unfolding update_round_def Let_def
  by (auto split: sum.splits if_split_asm intro!: by_others_step)

lemma update_loop_atomic:
  assumes "verdict_engine_ok k" and "respects_versions others"
    and "update_loop k ev change others attempts db = (r, db')"
  shows "(case r of
            Inl e \<Rightarrow> (db, db') \<in> by_others others
          | Inr _ \<Rightarrow> (\<exists>mid. (db, mid) \<in> by_others others \<and> updated_at k ev change mid db'))"
  using assms
proof (induction k ev change others attempts db rule: update_loop.induct)
  case (1 k ev change others attempts db)
  obtain res d where round: "update_round k ev change (others attempts) db = (res, d)"
    by fastforce
  note loop = 1(4) [unfolded update_loop.simps [of _ _ _ _ attempts] round]
  show ?case
  proof (cases "res = Some (Inr ())")
    case True
    have "later x (others attempts i x)" for i x
      using 1(3) by (simp add: respects_versions_def)
    from update_round_success [OF 1(2) this round [unfolded True]]
    have "updated_at k ev change (others attempts 2 (others attempts 1 (others attempts 0 db))) d" .
    moreover have "(db, others attempts 2 (others attempts 1 (others attempts 0 db))) \<in> by_others others"
      by (intro by_others_step by_others_refl)
    ultimately show ?thesis
      using loop True by auto
  next
    case False
    note step = update_round_other [where others = others and a = attempts, OF round False]
    show ?thesis
    proof (cases "res = None \<and> attempts < 3")
      case True
      then have "update_loop k ev change others (attempts + 1) d = (r, db')"
        using loop by simp
      from 1(1) [OF round [symmetric] _ _ 1(2,3) this] True step show ?thesis
        by (auto split: sum.splits intro: by_others_trans)
    next
      case other: False
      then have "db' = d \<and> (\<exists>e. r = Inl e)"
        using loop False by (cases res; cases "the res") auto
      with step show ?thesis
        by auto
    qed
  qed
qed

section \<open>Verdicts of the service\<close>

text \<open>
  The operations of \<^verbatim>\<open>pdu_metadata/data.rs\<close> on the store. Errors of the store become errors of
  the database and keep their cause.
\<close>

definition data_mark_event_soft_failed where
  "data_mark_event_soft_failed k others ev code db =
     verdict_update k ev (\<lambda>v. v\<lparr>v_soft_fail := Some (soft_fail_to_u8 code)\<rparr>) others db"

definition get_soft_fail_code ::
  "('n, 'c) verdict_engine \<Rightarrow> ('n, 'c) mtx_store \<Rightarrow> event_id \<Rightarrow> (store_error, soft_fail_code option) result" where
  "get_soft_fail_code k db ev =
     try_res (verdict_get k db ev) (\<lambda>verdict.
     Inr (map_option soft_fail_from_u8 (Option.bind verdict v_soft_fail)))"

definition is_event_soft_failed ::
  "('n, 'c) verdict_engine \<Rightarrow> ('n, 'c) mtx_store \<Rightarrow> event_id \<Rightarrow> (store_error, bool) result" where
  "is_event_soft_failed k db ev = try_res (get_soft_fail_code k db ev) (\<lambda>code. Inr (code \<noteq> None))"

definition get_soft_fail_reason ::
  "('n, 'c) verdict_engine \<Rightarrow> ('n, 'c) mtx_store \<Rightarrow> event_id \<Rightarrow> (store_error, string option) result" where
  "get_soft_fail_reason k db ev =
     try_res (get_soft_fail_code k db ev) (\<lambda>code. Inr (map_option soft_fail_tag code))"

definition data_unmark_event_soft_failed where
  "data_unmark_event_soft_failed k others ev db =
     verdict_update k ev (\<lambda>v. v\<lparr>v_soft_fail := None\<rparr>) others db"

text \<open>A final rejection is not replaced by one that may be retried.\<close>

definition reject_change :: "text_str \<Rightarrow> verdict \<Rightarrow> verdict" where
  "reject_change reason v =
     (let new_code = (case rejection_parse reason of None \<Rightarrow> UnknownRejection | Some code \<Rightarrow> code)
      in if (case v_rejection v of
               None \<Rightarrow> False
             | Some old \<Rightarrow> \<not> is_retryable (rejection_from_u8 old) \<and> is_retryable new_code)
         then v else v\<lparr>v_rejection := Some (rejection_to_u8 new_code)\<rparr>)"

definition data_mark_event_rejected where
  "data_mark_event_rejected k others ev reason db = verdict_update k ev (reject_change reason) others db"

definition get_rejection_code ::
  "('n, 'c) verdict_engine \<Rightarrow> ('n, 'c) mtx_store \<Rightarrow> event_id \<Rightarrow> (store_error, rejection_code option) result" where
  "get_rejection_code k db ev =
     try_res (verdict_get k db ev) (\<lambda>verdict.
     Inr (map_option rejection_from_u8 (Option.bind verdict v_rejection)))"

definition is_event_rejected ::
  "('n, 'c) verdict_engine \<Rightarrow> ('n, 'c) mtx_store \<Rightarrow> event_id \<Rightarrow> (store_error, bool) result" where
  "is_event_rejected k db ev = try_res (get_rejection_code k db ev) (\<lambda>code. Inr (code \<noteq> None))"

definition verdict_flagged_batch ::
  "('n, 'c) verdict_engine \<Rightarrow> ('n, 'c) mtx_store \<Rightarrow> 'c list \<Rightarrow> event_id list \<Rightarrow> (store_error, event_id set) result" where
  "verdict_flagged_batch k db order evs =
     (if evs = [] then Inr {}
      else try_res (verdict_get_many k db order evs) (\<lambda>verdicts.
           Inr (set (map fst (filter (\<lambda>(_, verdict).
                  case verdict of
                    None \<Rightarrow> False
                  | Some v \<Rightarrow> v_rejection v \<noteq> None \<or> v_soft_fail v \<noteq> None) (zip evs verdicts))))))"

definition data_unmark_event_rejected where
  "data_unmark_event_rejected k others ev db = verdict_update k ev (\<lambda>v. v\<lparr>v_rejection := None\<rparr>) others db"

definition clear_pdu_markers where
  "clear_pdu_markers k others ev db =
     verdict_update k ev (\<lambda>v. v\<lparr>v_soft_fail := None, v_rejection := None\<rparr>) others db"

text \<open>
  The service keeps beside the store the cache of state resolution, which remembers every
  event it read, with the flag that says whether it was rejected. The arguments \<open>gap\<close> and \<open>others\<close> are what other
  tasks do between two accesses of an operation.
\<close>

record lean_event =
  le_pdu :: event
  le_power_level :: int

record ('n, 'c) pdu_meta =
  pm_store :: "('n, 'c) mtx_store"
  pm_lean :: "event_id \<rightharpoonup> lean_event"

definition on_store ::
  "(('n, 'c) mtx_store \<Rightarrow> (store_error, 'a) result \<times> ('n, 'c) mtx_store) \<Rightarrow> ('n, 'c) pdu_meta
   \<Rightarrow> (store_error, 'a) result \<times> ('n, 'c) pdu_meta" where
  "on_store f s = (case f (pm_store s) of (r, db) \<Rightarrow> (r, s\<lparr>pm_store := db\<rparr>))"

definition invalidate_lean :: "event_id \<Rightarrow> ('n, 'c) pdu_meta \<Rightarrow> ('n, 'c) pdu_meta" where
  "invalidate_lean ev s = s\<lparr>pm_lean := (pm_lean s)(ev := None)\<rparr>"

definition mark_event_soft_failed where
  "mark_event_soft_failed k others ev code = on_store (data_mark_event_soft_failed k others ev code)"

definition unmark_event_soft_failed where
  "unmark_event_soft_failed k others ev = on_store (data_unmark_event_soft_failed k others ev)"

definition mark_event_rejected where
  "mark_event_rejected k gap others ev reason s =
     on_store (data_mark_event_rejected k others ev reason) (gap (invalidate_lean ev s))"

definition mark_event_rejected_skip_visibility_check where
  "mark_event_rejected_skip_visibility_check k gap others ev reason s =
     on_store (data_mark_event_rejected k others ev reason) (gap (invalidate_lean ev s))"

definition unmark_event_rejected where
  "unmark_event_rejected k gap others ev s =
     on_store (data_unmark_event_rejected k others ev) (gap (invalidate_lean ev s))"

definition is_event_accepted ::
  "('n, 'c) verdict_engine \<Rightarrow> ('n, 'c) pdu_meta \<Rightarrow> event_id \<Rightarrow> (store_error, bool) result" where
  "is_event_accepted k s ev = try_res (get_rejection_code k (pm_store s) ev) (\<lambda>code. Inr (code = None))"

text \<open>\<open>in_timeline\<close> stands for a successful \<^verbatim>\<open>timeline.get_pdu_id\<close>.\<close>

definition is_event_visible_to_clients ::
  "('n, 'c) verdict_engine \<Rightarrow> (event_id \<Rightarrow> bool) \<Rightarrow> ('n, 'c) pdu_meta \<Rightarrow> event_id \<Rightarrow> bool" where
  "is_event_visible_to_clients k in_timeline s ev \<longleftrightarrow>
     in_timeline ev \<and> \<not> (case is_event_rejected k (pm_store s) ev of Inl _ \<Rightarrow> False | Inr b \<Rightarrow> b)"

definition get_rejection_reason ::
  "('n, 'c) verdict_engine \<Rightarrow> ('n, 'c) pdu_meta \<Rightarrow> event_id \<Rightarrow> (store_error, string option) result" where
  "get_rejection_reason k s ev =
     try_res (get_rejection_code k (pm_store s) ev) (\<lambda>code. Inr (map_option rejection_tag code))"

definition is_event_permanently_rejected ::
  "('n, 'c) verdict_engine \<Rightarrow> ('n, 'c) pdu_meta \<Rightarrow> event_id \<Rightarrow> (store_error, bool) result" where
  "is_event_permanently_rejected k s ev =
     try_res (get_rejection_code k (pm_store s) ev) (\<lambda>code.
     Inr (case code of None \<Rightarrow> False | Some code \<Rightarrow> \<not> is_retryable code))"

definition is_event_pending_auth_resolution ::
  "('n, 'c) verdict_engine \<Rightarrow> ('n, 'c) pdu_meta \<Rightarrow> event_id \<Rightarrow> (store_error, bool) result" where
  "is_event_pending_auth_resolution k s ev =
     try_res (get_rejection_code k (pm_store s) ev) (\<lambda>code. Inr (code = Some MissingAuthEvent))"

text \<open>
  The operations that decide on a retry. Each reads the rejection once; other tasks may act
  (\<open>gaps\<close>) before the cache is invalidated and before the marker is cleared.
\<close>

definition clear_after ::
  "(store_error, unit) result \<times> ('n, 'c) pdu_meta \<Rightarrow> (store_error, bool) result \<times> ('n, 'c) pdu_meta" where
  "clear_after p = (case p of (r, s) \<Rightarrow> (try_res r (\<lambda>_. Inr True), s))"

definition take_retry_if_rejection_retryable where
  "take_retry_if_rejection_retryable k gaps others ev s =
     (case get_rejection_code k (pm_store s) ev of
        Inl e \<Rightarrow> (Inl e, s)
      | Inr None \<Rightarrow> (Inr False, s)
      | Inr (Some code) \<Rightarrow>
          if is_retryable code then clear_after (unmark_event_rejected k (gaps 1) others ev (gaps (0::nat) s))
          else (Inr False, s))"

definition take_retry_if_rejection_retryable_for_promotion where
  "take_retry_if_rejection_retryable_for_promotion k gaps others ev s =
     (case get_rejection_code k (pm_store s) ev of
        Inl e \<Rightarrow> (Inl e, s)
      | Inr None \<Rightarrow> (Inr True, s)
      | Inr (Some code) \<Rightarrow>
          if code = MissingAuthEvent then (Inr False, s)
          else if is_retryable code then clear_after (unmark_event_rejected k (gaps 1) others ev (gaps (0::nat) s))
          else (Inr False, s))"

text \<open>A failed read leaves the markers as they are; the store has no error for a missing record.\<close>

definition finish_promotion where
  "finish_promotion k gaps others ev s =
     (case get_rejection_code k (pm_store s) ev of
        Inl e \<Rightarrow> (Inr False, s)
      | Inr None \<Rightarrow> clear_after (unmark_event_rejected k (gaps 1) others ev (gaps (0::nat) s))
      | Inr (Some code) \<Rightarrow>
          if code = MissingAuthEvent then (Inr False, s)
          else if is_retryable code then clear_after (unmark_event_rejected k (gaps 1) others ev (gaps (0::nat) s))
          else (Inr False, s))"

section \<open>The store as a table of verdicts\<close>

text \<open>
  What the service needs of the store when nobody interferes: a successful update changes the
  verdict of its event and no other, a failed one changes nothing.
\<close>

locale verdict_table =
  fixes ok :: bool
    and look :: "'db \<Rightarrow> event_id \<Rightarrow> (store_error, verdict option) result"
    and upd :: "event_id \<Rightarrow> (verdict \<Rightarrow> verdict) \<Rightarrow> 'db \<Rightarrow> (store_error, unit) result \<times> 'db"
  assumes write_ok: "ok \<Longrightarrow> upd ev change db = (Inr u, db') \<Longrightarrow>
      \<exists>old. look db ev = Inr old \<and>
            look db' = (look db)(ev := Inr (stored_form (change (verdict_or_default old))))"
    and write_error: "ok \<Longrightarrow> upd ev change db = (Inl e, db') \<Longrightarrow> look db' = look db"
begin

definition holds :: "(verdict \<Rightarrow> bool) \<Rightarrow> 'db \<Rightarrow> event_id \<Rightarrow> bool" where
  "holds P db ev \<longleftrightarrow> (\<exists>v. look db ev = Inr v \<and> P (verdict_or_default v))"

lemma write_other:
  assumes ok and "e \<noteq> ev"
  shows "look (snd (upd ev change db)) e = look db e"
proof (cases "upd ev change db")
  case (Pair r db')
  then show ?thesis
    using write_ok [OF assms(1), of ev change db _ db'] write_error [OF assms(1), of ev change db _ db'] assms(2)
    by (cases r) auto
qed

lemma write_keeps:
  assumes ok and "holds P db e" and "\<And>v. P v \<Longrightarrow> P (change v)"
  shows "holds P (snd (upd ev change db)) e"
proof (cases "upd ev change db")
  case (Pair r db')
  show ?thesis
  proof (cases r)
    case (Inl a)
    with Pair write_error [OF assms(1)] assms(2) show ?thesis
      by (simp add: holds_def)
  next
    case (Inr u)
    from write_ok [OF assms(1) Pair [unfolded Inr]] obtain old where
      "look db ev = Inr old"
      "look db' = (look db)(ev := Inr (stored_form (change (verdict_or_default old))))"
      by blast
    with assms(2,3) Pair show ?thesis
      by (auto simp: holds_def)
  qed
qed

lemma write_establishes:
  assumes ok and "upd ev change db = (Inr u, db')" and "\<And>v. P (change v)"
  shows "holds P db' ev"
  using write_ok [OF assms(1,2)] assms(3) by (auto simp: holds_def)

end

lemma by_others_idle: "(db, db') \<in> by_others (\<lambda>_ _ d. d) \<Longrightarrow> db' = db"
  unfolding by_others_def by (induction rule: rtrancl_induct) auto

lemma respects_idle: "respects_versions (\<lambda>_ _ d. d)"
  by (simp add: respects_versions_def later_def)

interpretation cells: verdict_table "verdict_engine_ok k" "verdict_get k"
  "\<lambda>ev change. verdict_update k ev change (\<lambda>_ _ d. d)" for k
proof
  fix ev change u e
  fix db db' :: "('a, 'b) mtx_store"
  assume ok: "verdict_engine_ok k"
  assume "verdict_update k ev change (\<lambda>_ _ d. d) db = (Inr u, db')"
  from update_loop_atomic [OF ok respects_idle this [unfolded verdict_update_def]]
  have "updated_at k ev change db db'"
    by (auto dest: by_others_idle)
  then show "\<exists>old. verdict_get k db ev = Inr old \<and>
      verdict_get k db' = (verdict_get k db)(ev := Inr (stored_form (change (verdict_or_default old))))"
    by (simp add: updated_at_def)
next
  fix ev change u e
  fix db db' :: "('a, 'b) mtx_store"
  assume ok: "verdict_engine_ok k"
  assume "verdict_update k ev change (\<lambda>_ _ d. d) db = (Inl e, db')"
  from update_loop_atomic [OF ok respects_idle this [unfolded verdict_update_def]]
  show "verdict_get k db' = verdict_get k db"
    by (auto dest: by_others_idle)
qed

section \<open>Properties\<close>

text \<open>C20: An update of a verdict is atomic under interference. Whatever other writers do between
  the reads, the staging and the commit of each of its four rounds (as long as every committed
  write advances the version of its collection), a call that succeeds has the effect of reading,
  changing and writing the verdict in one step at some store that others produced: it changes the
  verdict of its event from the value found there, and the verdict of no other event, even one
  whose record has the same identifier. A call that fails has written nothing.\<close>

theorem verdict_update_atomic:
  assumes "verdict_engine_ok k" and "respects_versions others"
    and "verdict_update k ev change others db = (r, db')"
  shows "(\<exists>e. r = Inl e \<and> (db, db') \<in> by_others others) \<or>
         (\<exists>mid old. r = Inr () \<and> (db, mid) \<in> by_others others \<and> verdict_get k mid ev = Inr old \<and>
            verdict_get k db' =
              (verdict_get k mid)(ev := Inr (stored_form (change (verdict_or_default old)))))"
  using update_loop_atomic [OF assms(1,2) assms(3) [unfolded verdict_update_def]]
  by (cases r) (auto simp: updated_at_def)

section \<open>A sample engine\<close>

text \<open>
  An engine on which the hypotheses hold: records are kept under the event identifier, in one
  collection; a record spells out its fields, the strings with their lengths in unary.
\<close>

definition str_bytes :: "string \<Rightarrow> byte list" where
  "str_bytes s = replicate (length s) 1 @ [0] @ map (\<lambda>ch. word_of_nat (of_char ch)) s"

definition bytes_str :: "byte list \<Rightarrow> string \<times> byte list" where
  "bytes_str bs =
     (let n = length (takeWhile (\<lambda>b. b = 1) bs); rest = drop (n + 1) bs
      in (map (\<lambda>b. char_of (unat b)) (take n rest), drop n rest))"

definition opt_bytes :: "byte option \<Rightarrow> byte list" where
  "opt_bytes b = (case b of None \<Rightarrow> [0, 0] | Some x \<Rightarrow> [1, x])"

definition bytes_opt :: "byte \<Rightarrow> byte \<Rightarrow> byte option" where
  "bytes_opt flag x = (if flag = 0 then None else Some x)"

definition sample_verdicts :: "(event_id, unit) verdict_engine" where
  "sample_verdicts =
     \<lparr>ve_record_id = id, ve_collection = (\<lambda>_. ()),
      ve_encode = (\<lambda>ev v. Inr (opt_bytes (v_rejection v) @ opt_bytes (v_soft_fail v) @
        [if v_outlier v then 1 else 0] @ str_bytes ev @
        (case v_redacted_by v of None \<Rightarrow> [] | Some r \<Rightarrow> [1] @ str_bytes r))),
      ve_decode = (\<lambda>bs. case bs of
          f # x # g # y # out # rest \<Rightarrow>
            (case bytes_str rest of (ev, tail) \<Rightarrow>
               Inr (ev, \<lparr>v_rejection = bytes_opt f x, v_soft_fail = bytes_opt g y,
                         v_redacted_by = (case tail of [] \<Rightarrow> None | _ # r \<Rightarrow> Some (fst (bytes_str r))),
                         v_outlier = (out = 1)\<rparr>))
        | _ \<Rightarrow> Inl (CorruptRecord ''short'')),
      ve_is_empty = (\<lambda>v. v = verdict_default)\<rparr>"

lemma char_byte [simp]: "char_of (unat (word_of_nat (of_char ch) :: byte)) = ch"
proof -
  have "(of_char ch :: nat) < 2 ^ 8"
    using nat_of_char_less_256 [of ch] by simp
  then show ?thesis
    by (simp add: unat_of_nat)
qed

lemma bytes_str_bytes [simp]: "bytes_str (str_bytes s @ tail) = (s, tail)"
proof -
  have "takeWhile (\<lambda>b. b = 1) (replicate (length s) (1::byte) @ 0 # rest) = replicate (length s) 1" for rest
    by (induction "length s" arbitrary: s rest) (auto simp: takeWhile_append2 takeWhile_tail)
  then show ?thesis
    by (simp add: bytes_str_def str_bytes_def Let_def comp_def)
qed

lemma bytes_opt_bytes [simp]: "opt_bytes b = [f, x] \<Longrightarrow> bytes_opt f x = b"
  by (auto simp: opt_bytes_def bytes_opt_def split: option.splits)

lemma sample_verdicts_ok: "verdict_engine_ok sample_verdicts"
proof -
  have two: "\<exists>f x. opt_bytes b = [f, x] \<and> bytes_opt f x = b" for b
    by (cases b) (auto simp: opt_bytes_def bytes_opt_def)
  have "ve_decode sample_verdicts bs = Inr (ev, v)" if enc: "ve_encode sample_verdicts ev v = Inr bs" for ev v bs
  proof -
    obtain f x g y where fx: "opt_bytes (v_rejection v) = [f, x]" "bytes_opt f x = v_rejection v"
      and gy: "opt_bytes (v_soft_fail v) = [g, y]" "bytes_opt g y = v_soft_fail v"
      using two by metis
    have "bytes_str (str_bytes r) = (r, [])" for r
      using bytes_str_bytes [of r "[]"] by simp
    with enc fx gy show ?thesis
      by (auto simp: sample_verdicts_def split: option.splits)
  qed
  then show ?thesis
    by (simp add: verdict_engine_ok_def sample_verdicts_def)
qed

definition empty_verdicts :: "(event_id, unit) mtx_store" where
  "empty_verdicts = \<lparr>ms_records = (\<lambda>_ _. None), ms_version = (\<lambda>_. 0)\<rparr>"

text \<open>Another writer soft-fails the event just before the first commit.\<close>

definition sample_others :: "nat \<Rightarrow> (event_id, unit) interference" where
  "sample_others a i db =
     (if a = 0 \<and> i = 2
      then case ve_encode sample_verdicts ''$e'' (verdict_default\<lparr>v_soft_fail := Some 0\<rparr>) of
             Inl _ \<Rightarrow> db
           | Inr bs \<Rightarrow> ms_write () ''$e'' (Some bs) db
      else db)"

lemma sample_others_ok: "respects_versions sample_others"
  by (auto simp: respects_versions_def later_def sample_others_def ms_write_def split: sum.splits)

definition sample_update :: "(store_error, unit) result \<times> (event_id, unit) mtx_store" where
  "sample_update =
     verdict_update sample_verdicts ''$e'' (\<lambda>v. v\<lparr>v_rejection := Some 7\<rparr>) sample_others empty_verdicts"

lemma sample_update_result:
  "fst sample_update = Inr ()"
  "verdict_get sample_verdicts (snd sample_update) ''$e'' =
     Inr (Some (verdict_default\<lparr>v_rejection := Some 7, v_soft_fail := Some 0\<rparr>))"
  by code_simp+

theorem verdict_update_atomic_witness:
  "\<exists>mid old. (empty_verdicts, mid) \<in> by_others sample_others \<and> verdict_get sample_verdicts mid ''$e'' = Inr old \<and>
     verdict_get sample_verdicts (snd sample_update) =
       (verdict_get sample_verdicts mid)(''$e'' := Inr (stored_form ((verdict_or_default old)\<lparr>v_rejection := Some 7\<rparr>))) \<and>
     verdict_get sample_verdicts (snd sample_update) ''$e'' =
       Inr (Some (verdict_default\<lparr>v_rejection := Some 7, v_soft_fail := Some 0\<rparr>))"
proof -
  have "verdict_update sample_verdicts ''$e'' (\<lambda>v. v\<lparr>v_rejection := Some 7\<rparr>) sample_others empty_verdicts =
          (Inr (), snd sample_update)"
    using sample_update_result(1) unfolding sample_update_def by (metis prod.collapse)
  from verdict_update_atomic [OF sample_verdicts_ok sample_others_ok this] sample_update_result(2)
  show ?thesis
    by auto
qed

section \<open>The batched read\<close>

lemma read_entries_nth:
  assumes "\<And>idx node ev. (idx, node, ev) \<in> set entries \<Longrightarrow> entry_verdict k ev (vals node) = Inr (f idx)"
  shows "\<exists>res. read_entries k vals entries results = Inr res \<and> length res = length results \<and>
           (\<forall>i < length results. res ! i = (if i \<in> fst ` set entries then f i else results ! i))"
  using assms
proof (induction entries arbitrary: results)
  case Nil
  then show ?case
    by simp
next
  case (Cons entry entries)
  obtain idx node ev where entry: "entry = (idx, node, ev)"
    by (cases entry)
  have step: "entry_verdict k ev (vals node) = Inr (f idx)"
    using Cons.prems entry by simp
  from Cons.IH [of "results[idx := f idx]"] Cons.prems obtain res where
    res: "read_entries k vals entries (results[idx := f idx]) = Inr res" "length res = length results"
      "\<forall>i < length results. res ! i = (if i \<in> fst ` set entries then f i else results[idx := f idx] ! i)"
    by fastforce
  then show ?case
    using step entry by (auto simp: nth_list_update)
qed

lemma collection_entries_iff:
  "(idx, node, ev) \<in> set (collection_entries k evs c) \<longleftrightarrow>
     idx < length evs \<and> ev = evs ! idx \<and> node = ve_record_id k ev \<and> ve_collection k node = c"
  by (auto simp: collection_entries_def in_set_enumerate_eq)

lemma collection_entries_indices:
  "i \<in> fst ` set (collection_entries k evs c) \<longleftrightarrow>
     i < length evs \<and> ve_collection k (ve_record_id k (evs ! i)) = c"
proof -
  have "i \<in> fst ` set (collection_entries k evs c) \<longleftrightarrow>
          (\<exists>node ev. (i, node, ev) \<in> set (collection_entries k evs c))"
    by force
  then show ?thesis
    by (simp add: collection_entries_iff)
qed

lemma read_collections_nth:
  assumes "\<And>i. i < length evs \<Longrightarrow> verdict_get k db (evs ! i) = Inr (f i)" and "length results = length evs"
  shows "\<exists>res. read_collections k db evs order results = Inr res \<and> length res = length evs \<and>
           (\<forall>i < length evs. res ! i =
              (if ve_collection k (ve_record_id k (evs ! i)) \<in> set order then f i else results ! i))"
  using assms(2)
proof (induction order arbitrary: results)
  case Nil
  then show ?case
    by simp
next
  case (Cons c order)
  have "entry_verdict k ev (ms_records db c node) = Inr (f idx)"
    if "(idx, node, ev) \<in> set (collection_entries k evs c)" for idx node ev
    using that assms(1) [of idx] by (auto simp: collection_entries_iff verdict_get_def Let_def)
  from read_entries_nth [where entries = "collection_entries k evs c" and vals = "ms_records db c"
      and f = f and results = results, OF this] obtain res where
    res: "read_entries k (ms_records db c) (collection_entries k evs c) results = Inr res"
      "length res = length results"
      "\<forall>i < length results. res ! i = (if i \<in> fst ` set (collection_entries k evs c) then f i else results ! i)"
    by auto
  from Cons.IH [of res] res(2) Cons.prems obtain res' where
    "read_collections k db evs order res = Inr res'" "length res' = length evs"
    "\<forall>i < length evs. res' ! i =
        (if ve_collection k (ve_record_id k (evs ! i)) \<in> set order then f i else res ! i)"
    by auto
  then show ?case
    using res Cons.prems by (auto simp: collection_entries_indices)
qed

text \<open>Whatever the order of the groups, the batched read answers like the single one.\<close>

lemma verdict_get_many_correct:
  assumes "\<And>i. i < length evs \<Longrightarrow> verdict_get k db (evs ! i) = Inr (f i)"
    and "(\<lambda>ev. ve_collection k (ve_record_id k ev)) ` set evs \<subseteq> set order"
  shows "verdict_get_many k db order evs = Inr (map f [0..<length evs])"
proof -
  from read_collections_nth [OF assms(1), of "replicate (length evs) None" order] obtain res where
    "verdict_get_many k db order evs = Inr res" "length res = length evs"
    "\<forall>i < length evs. res ! i =
       (if ve_collection k (ve_record_id k (evs ! i)) \<in> set order then f i else replicate (length evs) None ! i)"
    by (auto simp: verdict_get_many_def)
  moreover have "ve_collection k (ve_record_id k (evs ! i)) \<in> set order" if "i < length evs" for i
    using assms(2) that by (meson image_eqI nth_mem subsetD)
  ultimately show ?thesis
    by (auto intro: nth_equalityI)
qed

end
