(* ===== verification/Lean_Events.thy ===== *)
theory Lean_Events
  imports Verdicts Sample_Codec
begin

text \<open>
  The events that state resolution works on (\<^verbatim>\<open>event_handler/resolve_state.rs\<close>). The resolution
  itself is a third-party package; it asks a provider for events, which reads them through a
  cache, attaches the sender's power level, and consults the verdict on each event. A
  rejection for another reason than a failed auth check is stale once the event is in the
  timeline, and is cleared.
\<close>

section \<open>The provider\<close>

text \<open>
  \<open>prefetch\<close> holds the events loaded beforehand, \<open>get_pdu_in_room\<close> and \<open>non_outlier\<close> are the
  lookups of the timeline; \<open>others\<close> is what other tasks do while a verdict is cleared.
\<close>

record pdu_source =
  ps_prefetch :: "event_id \<rightharpoonup> event"
  ps_get_pdu_in_room :: "event_id \<rightharpoonup> event"
  ps_non_outlier :: "event_id \<Rightarrow> bool"

definition fetch_pdu ::
  "('n, 'c) verdict_engine \<Rightarrow> pdu_source \<Rightarrow> event_id \<Rightarrow> ('n, 'c) pdu_meta
   \<Rightarrow> event option \<times> ('n, 'c) pdu_meta" where
  "fetch_pdu k src eid s =
     (case ps_prefetch src eid of
        Some pdu \<Rightarrow> (Some pdu, s)
      | None \<Rightarrow>
          (case ps_get_pdu_in_room src eid of
             None \<Rightarrow> (None, s)
           | Some pdu \<Rightarrow>
               (case is_event_rejected k (pm_store s) (ev_id pdu) of
                  Inl _ \<Rightarrow> (None, s)
                | Inr rejected \<Rightarrow>
                    if \<not> rejected then (Some pdu, s)
                    else let auth_failed = (case get_rejection_reason k s (ev_id pdu) of
                                              Inl _ \<Rightarrow> True
                                            | Inr reason \<Rightarrow> reason = Some (rejection_tag AuthCheckFailed))
                         in if \<not> auth_failed \<and> ps_non_outlier src (ev_id pdu)
                            then (Some (pdu\<lparr>ev_rejected := False\<rparr>),
                                  snd (unmark_event_rejected k id (\<lambda>_ _ db. db) (ev_id pdu) s))
                            else (Some (pdu\<lparr>ev_rejected := True\<rparr>), s))))"

text \<open>\<^verbatim>\<open>parse_intlike\<close> and the level that a power level event gives a user.\<close>

definition parse_intlike :: "'v codec \<Rightarrow> 'v \<Rightarrow> int option" where
  "parse_intlike c v =
     (case c_i64 c v of Some i \<Rightarrow> Some i | None \<Rightarrow> Option.bind (c_str c v) parse_i64)"

definition level_in_content :: "'v codec \<Rightarrow> string \<Rightarrow> user_id \<Rightarrow> int" where
  "level_in_content c content user =
     (case c_parse c content of
        None \<Rightarrow> 0
      | Some v \<Rightarrow>
          let listed = Option.bind (c_get c v ''users'') (\<lambda>us.
                       Option.bind (c_object c us) (\<lambda>members.
                       Option.bind (map_of members user) (parse_intlike c)))
          in case listed of
               Some l \<Rightarrow> l
             | None \<Rightarrow>
                 (case Option.bind (c_get c v ''users_default'') (parse_intlike c) of
                    Some l \<Rightarrow> l
                  | None \<Rightarrow> 0))"

text \<open>The scan over the cited events for a create event and a power level event.\<close>

fun scan_auth_events ::
  "'v codec \<Rightarrow> (event_id \<Rightarrow> 's \<Rightarrow> event option \<times> 's) \<Rightarrow> user_id \<Rightarrow> event_id list \<Rightarrow> event option \<Rightarrow> int option
   \<Rightarrow> 's \<Rightarrow> (event option \<times> int option) \<times> 's" where
  "scan_auth_events c fetch user [] create_pdu pl_level s = ((create_pdu, pl_level), s)"
| "scan_auth_events c fetch user (aid # aids) create_pdu pl_level s =
     (if create_pdu \<noteq> None \<and> pl_level \<noteq> None then ((create_pdu, pl_level), s)
      else case fetch aid s of
             (None, s') \<Rightarrow> scan_auth_events c fetch user aids create_pdu pl_level s'
           | (Some auth_pdu, s') \<Rightarrow>
               if ev_kind auth_pdu = RoomCreate \<and> ev_state_key auth_pdu = Some ''''
               then scan_auth_events c fetch user aids (Some auth_pdu) pl_level s'
               else if pl_level \<noteq> None \<or> ev_kind auth_pdu \<noteq> RoomPowerLevels \<or>
                       ev_state_key auth_pdu \<noteq> Some ''''
               then scan_auth_events c fetch user aids create_pdu pl_level s'
               else scan_auth_events c fetch user aids create_pdu
                      (Some (level_in_content c (ev_content auth_pdu) user)) s')"

definition i64_max :: int where
  "i64_max = 2 ^ 63 - 1"

definition privileges_creators :: "state_resolution_version \<Rightarrow> bool" where
  "privileges_creators version \<longleftrightarrow> version = StateV2_1 \<or> version = StateV2_1_1"

definition power_level_from ::
  "'v codec \<Rightarrow> state_resolution_version \<Rightarrow> event \<Rightarrow> event option \<Rightarrow> int option \<Rightarrow> int" where
  "power_level_from c version pdu create_pdu pl_level =
     (case create_pdu of
        None \<Rightarrow> (case pl_level of Some l \<Rightarrow> l | None \<Rightarrow> 0)
      | Some create \<Rightarrow>
          if privileges_creators version
          then if ev_sender create = ev_sender pdu \<or>
                  (case c_create c (ev_content create) of
                     None \<Rightarrow> False
                   | Some cc \<Rightarrow>
                       (case cc_additional_creators cc of
                          None \<Rightarrow> False
                        | Some creators \<Rightarrow> ev_sender pdu \<in> set creators))
               then i64_max
               else (case pl_level of Some l \<Rightarrow> l | None \<Rightarrow> 0)
          else (case pl_level of
                  Some l \<Rightarrow> l
                | None \<Rightarrow>
                    if ev_sender create = ev_sender pdu \<or>
                       (case c_create c (ev_content create) of
                          None \<Rightarrow> False
                        | Some cc \<Rightarrow> cc_creator cc = Some (ev_sender pdu))
                    then 100 else 0))"

definition sender_power_level_from_auth ::
  "'v codec \<Rightarrow> state_resolution_version \<Rightarrow> event \<Rightarrow> (event_id \<Rightarrow> 's \<Rightarrow> event option \<times> 's) \<Rightarrow> 's \<Rightarrow> int \<times> 's" where
  "sender_power_level_from_auth c version pdu fetch s =
     (if ev_kind pdu = RoomCreate then (i64_max, s)
      else case scan_auth_events c fetch (ev_sender pdu) (ev_auth pdu) None None s of
             ((create_pdu, pl_level), s') \<Rightarrow> (power_level_from c version pdu create_pdu pl_level, s'))"

text \<open>
  \<^verbatim>\<open>get_event\<close>: the global cache first, then the lookup. What is found goes into the cache
  with the flag it had when it was read.
\<close>

definition get_lean_event ::
  "'v codec \<Rightarrow> ('n, 'c) verdict_engine \<Rightarrow> state_resolution_version \<Rightarrow> pdu_source \<Rightarrow> event_id
   \<Rightarrow> ('n, 'c) pdu_meta \<Rightarrow> lean_event option \<times> ('n, 'c) pdu_meta" where
  "get_lean_event c k version src i s =
     (case c_event_id c i of
        None \<Rightarrow> (None, s)
      | Some eid \<Rightarrow>
          (case pm_lean s eid of
             Some lean \<Rightarrow> (Some lean, s)
           | None \<Rightarrow>
               (case fetch_pdu k src eid s of
                  (None, s') \<Rightarrow> (None, s')
                | (Some pdu, s') \<Rightarrow>
                    (case sender_power_level_from_auth c version pdu (fetch_pdu k src) s' of
                       (lvl, s'') \<Rightarrow>
                         let lean = \<lparr>le_pdu = pdu, le_power_level = lvl\<rparr>
                         in (Some lean, s''\<lparr>pm_lean := (pm_lean s'')(eid \<mapsto> lean)\<rparr>)))))"

text \<open>The choice of algorithm in \<^verbatim>\<open>state_resolution\<close>.\<close>

definition live_state_res_version :: "room_version_id \<Rightarrow> state_resolution_version" where
  "live_state_res_version v =
     (case v of
        V1 \<Rightarrow> StateV1
      | V2 \<Rightarrow> StateV2 | V3 \<Rightarrow> StateV2 | V4 \<Rightarrow> StateV2 | V5 \<Rightarrow> StateV2 | V6 \<Rightarrow> StateV2
      | V7 \<Rightarrow> StateV2 | V8 \<Rightarrow> StateV2 | V9 \<Rightarrow> StateV2 | V10 \<Rightarrow> StateV2 | V11 \<Rightarrow> StateV2
      | V12 \<Rightarrow> StateV2_1
      | Custom _ \<Rightarrow> StateV2_1_1)"

section \<open>Sequences of operations\<close>

text \<open>
  The operations on verdicts, run one after the other; the answers of those that decide on a
  retry are recorded.
\<close>

datatype verdict_op =
    MarkRejected event_id text_str
  | MarkRejectedUnchecked event_id text_str
  | UnmarkRejected event_id
  | MarkSoftFailed event_id soft_fail_code
  | UnmarkSoftFailed event_id
  | ClearMarkers event_id
  | TakeRetry event_id
  | TakeRetryForPromotion event_id
  | FinishPromotion event_id
  | GetLean state_resolution_version event_id

abbreviation idle :: "nat \<Rightarrow> nat \<Rightarrow> 'd \<Rightarrow> 'd" where
  "idle \<equiv> \<lambda>_ _ d. d"

abbreviation no_gaps :: "nat \<Rightarrow> 'd \<Rightarrow> 'd" where
  "no_gaps \<equiv> \<lambda>_. id"

definition silent :: "('e, unit) result \<times> 's \<Rightarrow> ('e, bool option) result \<times> 's" where
  "silent p = (case p of (r, s) \<Rightarrow> (map_sum id (\<lambda>_. None) r, s))"

definition answered :: "('e, bool) result \<times> 's \<Rightarrow> ('e, bool option) result \<times> 's" where
  "answered p = (case p of (r, s) \<Rightarrow> (map_sum id Some r, s))"

fun run_verdict_op ::
  "'v codec \<Rightarrow> ('n, 'c) verdict_engine \<Rightarrow> pdu_source \<Rightarrow> verdict_op \<Rightarrow> ('n, 'c) pdu_meta
   \<Rightarrow> (store_error, bool option) result \<times> ('n, 'c) pdu_meta" where
  "run_verdict_op c k src (MarkRejected e reason) s = silent (mark_event_rejected k id idle e reason s)"
| "run_verdict_op c k src (MarkRejectedUnchecked e reason) s =
     silent (mark_event_rejected_skip_visibility_check k id idle e reason s)"
| "run_verdict_op c k src (UnmarkRejected e) s = silent (unmark_event_rejected k id idle e s)"
| "run_verdict_op c k src (MarkSoftFailed e code) s = silent (mark_event_soft_failed k idle e code s)"
| "run_verdict_op c k src (UnmarkSoftFailed e) s = silent (unmark_event_soft_failed k idle e s)"
| "run_verdict_op c k src (ClearMarkers e) s = silent (on_store (clear_pdu_markers k idle e) s)"
| "run_verdict_op c k src (TakeRetry e) s = answered (take_retry_if_rejection_retryable k no_gaps idle e s)"
| "run_verdict_op c k src (TakeRetryForPromotion e) s =
     answered (take_retry_if_rejection_retryable_for_promotion k no_gaps idle e s)"
| "run_verdict_op c k src (FinishPromotion e) s = answered (finish_promotion k no_gaps idle e s)"
| "run_verdict_op c k src (GetLean version e) s = (Inr None, snd (get_lean_event c k version src e s))"

fun run_verdict_ops ::
  "'v codec \<Rightarrow> ('n, 'c) verdict_engine \<Rightarrow> pdu_source \<Rightarrow> verdict_op list \<Rightarrow> ('n, 'c) pdu_meta
   \<Rightarrow> (verdict_op \<times> (store_error, bool option) result) list \<times> ('n, 'c) pdu_meta" where
  "run_verdict_ops c k src [] s = ([], s)"
| "run_verdict_ops c k src (op # ops) s =
     (case run_verdict_op c k src op s of
        (a, s') \<Rightarrow> (case run_verdict_ops c k src ops s' of (as, s'') \<Rightarrow> ((op, a) # as, s'')))"

text \<open>An invariant of the fetch is an invariant of the provider.\<close>

lemma scan_auth_events_keeps:
  assumes "\<And>e s. I s \<Longrightarrow> I (snd (fetch e s))" and "I s"
  shows "I (snd (scan_auth_events c fetch user aids create pl s))"
  using assms(2)
proof (induction aids arbitrary: create pl s)
  case (Cons aid aids)
  obtain p s' where fetch: "fetch aid s = (p, s')"
    by fastforce
  then have "I s'"
    using assms(1) [OF Cons.prems, of aid] by simp
  then show ?case
    using fetch Cons by (auto split: option.splits)
qed simp

lemma sender_power_level_keeps:
  assumes "\<And>e s. I s \<Longrightarrow> I (snd (fetch e s))" and "I s"
  shows "I (snd (sender_power_level_from_auth c version pdu fetch s))"
  using scan_auth_events_keeps [of I fetch s c "ev_sender pdu" "ev_auth pdu" None None, OF assms] assms(2)
  by (auto simp: sender_power_level_from_auth_def split: prod.splits)

lemma on_store_snd [simp]:
  "pm_store (snd (on_store f s)) = snd (f (pm_store s))" "pm_lean (snd (on_store f s)) = pm_lean s"
  by (simp_all add: on_store_def split: prod.splits)

lemma invalidate_lean_simps [simp]:
  "pm_store (invalidate_lean ev s) = pm_store s" "pm_lean (invalidate_lean ev s) = (pm_lean s)(ev := None)"
  by (simp_all add: invalidate_lean_def)

lemma silent_snd [simp]: "snd (silent p) = snd p"
  by (simp add: silent_def split: prod.splits)

lemma answered_snd [simp]: "snd (answered p) = snd p"
  by (simp add: answered_def split: prod.splits)

lemma clear_after_snd [simp]: "snd (clear_after p) = snd p"
  by (simp add: clear_after_def split: prod.splits)

text \<open>
  Every operation either leaves the store alone or updates it once for its own event, and
  which change it makes is known.
\<close>

lemma unmark_store:
  "pm_store (snd (unmark_event_rejected k id idle e s)) =
     snd (verdict_update k e (\<lambda>v. v\<lparr>v_rejection := None\<rparr>) idle (pm_store s))"
  by (simp add: unmark_event_rejected_def data_unmark_event_rejected_def)

lemma unmark_lean: "pm_lean (snd (unmark_event_rejected k id idle e s)) = (pm_lean s)(e := None)"
  by (simp add: unmark_event_rejected_def)

lemma mark_store:
  "pm_store (snd (mark_event_rejected k id idle e reason s)) =
     snd (verdict_update k e (reject_change reason) idle (pm_store s))"
  by (simp add: mark_event_rejected_def data_mark_event_rejected_def)

text \<open>The rejection that a verdict carries.\<close>

definition rejection_of :: "verdict \<Rightarrow> rejection_code option" where
  "rejection_of v = map_option rejection_from_u8 (v_rejection v)"

definition final_rejection :: "verdict \<Rightarrow> bool" where
  "final_rejection v \<longleftrightarrow> (case rejection_of v of None \<Rightarrow> False | Some code \<Rightarrow> \<not> is_retryable code)"

lemma rejection_of_default [simp]: "rejection_of verdict_default = None"
  by (simp add: rejection_of_def verdict_default_def)

lemma get_rejection_code_eq:
  "get_rejection_code k db ev = Inr code \<longleftrightarrow>
     cells.holds k (\<lambda>v. rejection_of v = code) db ev"
  by (cases "verdict_get k db ev")
    (auto simp: get_rejection_code_def cells.holds_def rejection_of_def verdict_or_default_def
      verdict_default_def split: option.splits)

lemma permanently_rejected_eq:
  "is_event_permanently_rejected k s ev = Inr True \<longleftrightarrow> cells.holds k final_rejection (pm_store s) ev"
  by (cases "verdict_get k (pm_store s) ev")
    (auto simp: is_event_permanently_rejected_def get_rejection_code_def cells.holds_def rejection_of_def
      final_rejection_def verdict_or_default_def verdict_default_def split: option.splits)

lemma reject_change_final: "final_rejection v \<Longrightarrow> final_rejection (reject_change reason v)"
  by (auto simp: final_rejection_def rejection_of_def reject_change_def Let_def split: option.splits)

lemma soft_fail_change_final: "final_rejection (v\<lparr>v_soft_fail := x\<rparr>) = final_rejection v"
  by (simp add: final_rejection_def rejection_of_def)

lemma holds_other:
  assumes "verdict_engine_ok k" and "e \<noteq> ev"
  shows "cells.holds k P (snd (verdict_update k e change idle db)) ev = cells.holds k P db ev"
  using cells.write_other [OF assms(1), of ev e change db] assms(2) by (simp add: cells.holds_def)

section \<open>Final rejections\<close>

text \<open>
  What lifts a final rejection: clearing the markers of the event by hand, accepting it into
  the timeline, or reading it for state resolution once it is there.
\<close>

fun lifts_rejection :: "pdu_source \<Rightarrow> event_id \<Rightarrow> verdict_op \<Rightarrow> bool" where
  "lifts_rejection src ev (UnmarkRejected e) \<longleftrightarrow> e = ev"
| "lifts_rejection src ev (ClearMarkers e) \<longleftrightarrow> e = ev"
| "lifts_rejection src ev (GetLean _ _) \<longleftrightarrow> ps_non_outlier src ev"
| "lifts_rejection src ev _ \<longleftrightarrow> False"

definition permanent :: "('n, 'c) verdict_engine \<Rightarrow> event_id \<Rightarrow> ('n, 'c) pdu_meta \<Rightarrow> bool" where
  "permanent k ev s \<longleftrightarrow> cells.holds k final_rejection (pm_store s) ev"

lemma permanent_code:
  assumes "permanent k ev s"
  obtains code where "get_rejection_code k (pm_store s) ev = Inr (Some code)" "\<not> is_retryable code"
proof -
  from assms obtain v where v: "verdict_get k (pm_store s) ev = Inr v" "final_rejection (verdict_or_default v)"
    by (auto simp: permanent_def cells.holds_def)
  then obtain code where code: "rejection_of (verdict_or_default v) = Some code" "\<not> is_retryable code"
    by (auto simp: final_rejection_def split: option.splits)
  with v(1) have "get_rejection_code k (pm_store s) ev = Inr (Some code)"
    by (auto simp: get_rejection_code_eq cells.holds_def)
  with code that show thesis
    by blast
qed

lemma permanent_unmark:
  assumes "verdict_engine_ok k" and "e \<noteq> ev"
  shows "permanent k ev (snd (unmark_event_rejected k id idle e s)) = permanent k ev s"
  by (simp add: permanent_def unmark_store holds_other [OF assms])

text \<open>What the provider does to the state: it clears stale rejections and fills its cache.\<close>

lemma fetch_pdu_state:
  "snd (fetch_pdu k src e s) = s \<or>
   (\<exists>e'. ps_non_outlier src e' \<and> snd (fetch_pdu k src e s) = snd (unmark_event_rejected k id idle e' s))"
  unfolding fetch_pdu_def Let_def by (auto split: option.splits sum.splits)

lemma get_lean_event_state:
  assumes "\<And>e s. I s \<Longrightarrow> I (snd (fetch_pdu k src e s))" and "\<And>s lean. I s \<Longrightarrow> I (s\<lparr>pm_lean := lean\<rparr>)" and "I s"
  shows "I (snd (get_lean_event c k version src e s))"
proof -
  have scan: "I (snd (sender_power_level_from_auth c version pdu (fetch_pdu k src) s'))" if "I s'" for pdu s'
    by (rule sender_power_level_keeps [of I, OF assms(1) that])
  show ?thesis
  proof (cases "\<exists>eid. c_event_id c e = Some eid \<and> pm_lean s eid = None")
    case False
    then show ?thesis
      using assms(3) by (auto simp: get_lean_event_def split: option.splits)
  next
    case True
    then obtain eid where eid: "c_event_id c e = Some eid" "pm_lean s eid = None"
      by blast
    obtain p s' where fetch: "fetch_pdu k src eid s = (p, s')"
      by fastforce
    then have "I s'"
      using assms(1) [OF assms(3), of eid] by simp
    show ?thesis
    proof (cases p)
      case None
      with \<open>I s'\<close> eid fetch show ?thesis
        by (simp add: get_lean_event_def)
    next
      case (Some pdu)
      obtain lvl s'' where lvl: "sender_power_level_from_auth c version pdu (fetch_pdu k src) s' = (lvl, s'')"
        by fastforce
      then have "I s''"
        using scan [OF \<open>I s'\<close>, of pdu] by simp
      with eid fetch lvl Some assms(2) show ?thesis
        by (simp add: get_lean_event_def Let_def)
    qed
  qed
qed

lemma permanent_lean:
  assumes "verdict_engine_ok k" and "\<not> ps_non_outlier src ev" and "permanent k ev s"
  shows "permanent k ev (snd (get_lean_event c k version src e s))"
proof (rule get_lean_event_state [of "permanent k ev"])
  fix e s
  assume "permanent k ev s"
  then show "permanent k ev (snd (fetch_pdu k src e s))"
    using fetch_pdu_state [of k src e s] permanent_unmark [OF assms(1)] assms(2) by metis
qed (use assms(3) in \<open>simp_all add: permanent_def\<close>)

text \<open>The operations that decide on a retry leave a final rejection alone and answer no.\<close>

lemmas retry_defs = take_retry_if_rejection_retryable_def take_retry_if_rejection_retryable_for_promotion_def
  finish_promotion_def

lemma retry_state:
  "snd (take_retry_if_rejection_retryable k no_gaps idle e s) \<in> {s, snd (unmark_event_rejected k id idle e s)}"
  "snd (take_retry_if_rejection_retryable_for_promotion k no_gaps idle e s)
     \<in> {s, snd (unmark_event_rejected k id idle e s)}"
  "snd (finish_promotion k no_gaps idle e s) \<in> {s, snd (unmark_event_rejected k id idle e s)}"
  by (simp_all add: retry_defs split: sum.splits option.splits)

lemma retry_permanent:
  assumes "permanent k ev s"
  shows "take_retry_if_rejection_retryable k no_gaps idle ev s = (Inr False, s)"
    "take_retry_if_rejection_retryable_for_promotion k no_gaps idle ev s = (Inr False, s)"
    "finish_promotion k no_gaps idle ev s = (Inr False, s)"
proof -
  from assms obtain code where "get_rejection_code k (pm_store s) ev = Inr (Some code)" "\<not> is_retryable code"
    by (rule permanent_code)
  then show "take_retry_if_rejection_retryable k no_gaps idle ev s = (Inr False, s)"
    "take_retry_if_rejection_retryable_for_promotion k no_gaps idle ev s = (Inr False, s)"
    "finish_promotion k no_gaps idle ev s = (Inr False, s)"
    by (auto simp: retry_defs)
qed

lemma permanent_after_retry:
  assumes "verdict_engine_ok k" and "permanent k ev s" and "e \<noteq> ev"
    and "s' \<in> {s, snd (unmark_event_rejected k id idle e s)}"
  shows "permanent k ev s'"
  using assms permanent_unmark [OF assms(1,3)] by auto

lemma permanent_op:
  assumes ok: "verdict_engine_ok k" and perm: "permanent k ev s" and lifts: "\<not> lifts_rejection src ev op"
  shows "permanent k ev (snd (run_verdict_op c k src op s))"
proof (cases op)
  case (MarkRejected e reason)
  then show ?thesis
    using cells.write_keeps [OF ok, of final_rejection "pm_store s" ev "reject_change reason" e] perm
    by (simp add: permanent_def mark_store reject_change_final)
next
  case (MarkRejectedUnchecked e reason)
  then show ?thesis
    using cells.write_keeps [OF ok, of final_rejection "pm_store s" ev "reject_change reason" e] perm
    by (simp add: permanent_def mark_event_rejected_skip_visibility_check_def data_mark_event_rejected_def
        reject_change_final)
next
  case (MarkSoftFailed e code)
  then show ?thesis
    using cells.write_keeps [OF ok, of final_rejection "pm_store s" ev] perm
    by (simp add: permanent_def mark_event_soft_failed_def data_mark_event_soft_failed_def soft_fail_change_final)
next
  case (UnmarkSoftFailed e)
  then show ?thesis
    using cells.write_keeps [OF ok, of final_rejection "pm_store s" ev] perm
    by (simp add: permanent_def unmark_event_soft_failed_def data_unmark_event_soft_failed_def
        soft_fail_change_final)
next
  case (UnmarkRejected e)
  then show ?thesis
    using perm lifts permanent_unmark [OF ok] by simp
next
  case (ClearMarkers e)
  then show ?thesis
    using perm lifts holds_other [OF ok] by (simp add: permanent_def clear_pdu_markers_def)
next
  case (GetLean version e)
  then show ?thesis
    using perm lifts permanent_lean [OF ok] by simp
next
  case (TakeRetry e)
  with retry_state(1) [of k e s] retry_permanent(1) [OF perm] show ?thesis
    using perm by (cases "e = ev") (simp, auto intro: permanent_after_retry [OF ok perm])
next
  case (TakeRetryForPromotion e)
  with retry_state(2) [of k e s] retry_permanent(2) [OF perm] show ?thesis
    using perm by (cases "e = ev") (simp, auto intro: permanent_after_retry [OF ok perm])
next
  case (FinishPromotion e)
  with retry_state(3) [of k e s] retry_permanent(3) [OF perm] show ?thesis
    using perm by (cases "e = ev") (simp, auto intro: permanent_after_retry [OF ok perm])
qed

lemma permanent_answers:
  assumes "permanent k ev s" and "op \<in> {TakeRetry ev, TakeRetryForPromotion ev, FinishPromotion ev}"
  shows "fst (run_verdict_op c k src op s) = Inr (Some False)"
  using assms(2) retry_permanent [OF assms(1)] by (auto simp: answered_def)

lemma permanent_ops:
  assumes "verdict_engine_ok k" and "permanent k ev s" and "\<forall>op \<in> set ops. \<not> lifts_rejection src ev op"
    and "run_verdict_ops c k src ops s = (answers, s')"
  shows "permanent k ev s' \<and>
         (\<forall>op a. (op, a) \<in> set answers \<longrightarrow> op \<in> {TakeRetry ev, TakeRetryForPromotion ev, FinishPromotion ev} \<longrightarrow>
            a = Inr (Some False))"
  using assms(2-)
proof (induction ops arbitrary: s answers)
  case Nil
  then show ?case
    by simp
next
  case (Cons op ops)
  obtain a s1 where op: "run_verdict_op c k src op s = (a, s1)"
    by fastforce
  obtain as s2 where ops: "run_verdict_ops c k src ops s1 = (as, s2)"
    by fastforce
  have res: "answers = (op, a) # as" "s' = s2"
    using Cons.prems(3) op ops by auto
  have "permanent k ev s1"
    using permanent_op [OF assms(1) Cons.prems(1), of src op c] Cons.prems(2) op by simp
  from Cons.IH [OF this _ ops [folded res(2)]] Cons.prems(2)
  have ih: "permanent k ev s' \<and>
      (\<forall>op a. (op, a) \<in> set as \<longrightarrow> op \<in> {TakeRetry ev, TakeRetryForPromotion ev, FinishPromotion ev} \<longrightarrow>
         a = Inr (Some False))"
    by simp
  moreover have "op \<in> {TakeRetry ev, TakeRetryForPromotion ev, FinishPromotion ev} \<longrightarrow> a = Inr (Some False)"
    using permanent_answers [OF Cons.prems(1), of op c src] op by simp
  ultimately show ?case
    unfolding res(1) by (metis (no_types, lifting) Pair_inject set_ConsD)
qed

text \<open>C21: A final rejection sticks. Once an event is rejected for a reason that is not worth a
  retry, no sequence of operations takes that back: marking it again, even for a reason that may
  be retried, soft-failing it, asking for a retry, finishing its promotion, whatever happens to
  other events. Every question whether to retry or promote it is answered no. Only clearing its
  markers by hand, its acceptance into the timeline, or a read by state resolution once it is in
  the timeline lift the rejection.\<close>

theorem permanent_rejection_sticks:
  assumes "verdict_engine_ok k" and "is_event_permanently_rejected k s ev = Inr True"
    and "\<forall>op \<in> set ops. \<not> lifts_rejection src ev op"
    and "run_verdict_ops c k src ops s = (answers, s')"
  shows "is_event_permanently_rejected k s' ev = Inr True \<and>
         (\<forall>op a. (op, a) \<in> set answers \<longrightarrow> op \<in> {TakeRetry ev, TakeRetryForPromotion ev, FinishPromotion ev} \<longrightarrow>
            a = Inr (Some False))"
  using permanent_ops [OF assms(1) _ assms(3,4)] assms(2)
  unfolding permanently_rejected_eq permanent_def [symmetric] by blast

definition sample_meta :: "event_id \<Rightarrow> rejection_code \<Rightarrow> (event_id, unit) pdu_meta" where
  "sample_meta ev code =
     \<lparr>pm_store = snd (verdict_update sample_verdicts ev (\<lambda>v. v\<lparr>v_rejection := Some (rejection_to_u8 code)\<rparr>)
        idle empty_verdicts), pm_lean = Map.empty\<rparr>"

definition sample_source :: pdu_source where
  "sample_source =
     \<lparr>ps_prefetch = Map.empty,
      ps_get_pdu_in_room = (\<lambda>i. Some (sample_event i ''@a:x'' RoomMember (Some ''@a:x'') ''join'' [])),
      ps_non_outlier = (\<lambda>_. False)\<rparr>"

definition sample_ops :: "verdict_op list" where
  "sample_ops =
     [MarkRejected ''$e'' (with_detail MissingAuthEvent (chars ''$x'')), TakeRetry ''$e'', MarkSoftFailed ''$e'' Manual,
      GetLean StateV2 ''$e'', TakeRetryForPromotion ''$e'', UnmarkRejected ''$f'', FinishPromotion ''$e'']"

lemma sample_meta_final:
  "is_event_permanently_rejected sample_verdicts (sample_meta ''$e'' AuthCheckFailed) ''$e'' = Inr True"
  by code_simp

lemma sample_ops_keep: "\<forall>op \<in> set sample_ops. \<not> lifts_rejection sample_source ''$e'' op"
  by (simp add: sample_ops_def sample_source_def)

theorem permanent_rejection_sticks_witness:
  "is_event_permanently_rejected sample_verdicts
     (snd (run_verdict_ops sample_codec sample_verdicts sample_source sample_ops
        (sample_meta ''$e'' AuthCheckFailed))) ''$e'' = Inr True"
  using permanent_rejection_sticks [OF sample_verdicts_ok sample_meta_final sample_ops_keep
      prod.collapse [symmetric], of sample_codec]
  by simp

section \<open>The cache of state resolution\<close>

text \<open>
  The cache agrees with the store when every cached event carries the rejection that the store
  has for it. The provider relies on records that can always be encoded, on a timeline that
  returns the event it was asked for, without a flag, and on nothing being loaded beforehand.
\<close>

definition cache_agrees :: "('n, 'c) verdict_engine \<Rightarrow> ('n, 'c) pdu_meta \<Rightarrow> bool" where
  "cache_agrees k s \<longleftrightarrow>
     (\<forall>ev lean. pm_lean s ev = Some lean \<longrightarrow>
        (\<exists>code. get_rejection_code k (pm_store s) ev = Inr code \<and> (ev_rejected (le_pdu lean) \<longleftrightarrow> code \<noteq> None)))"

definition verdict_engine_total :: "('n, 'c) verdict_engine \<Rightarrow> bool" where
  "verdict_engine_total k \<longleftrightarrow> (\<forall>ev v. \<exists>bs. ve_encode k ev v = Inr bs)"

definition plain_source :: "pdu_source \<Rightarrow> bool" where
  "plain_source src \<longleftrightarrow>
     ps_prefetch src = Map.empty \<and>
     (\<forall>eid pdu. ps_get_pdu_in_room src eid = Some pdu \<longrightarrow> ev_id pdu = eid \<and> \<not> ev_rejected pdu)"

lemma update_idle_succeeds:
  assumes "verdict_engine_total k" and "verdict_get k db ev = Inr (Some v)"
  shows "\<exists>db'. verdict_update k ev change idle db = (Inr (), db')"
proof -
  from assms(2) obtain bs where
    "ms_records db (ve_collection k (ve_record_id k ev)) (ve_record_id k ev) = Some bs" "ve_decode k bs = Inr (ev, v)"
    by (auto simp: verdict_get_def Let_def entry_verdict_def try_res_eq_Inr split: option.splits if_split_asm)
  moreover obtain bs' where "ve_encode k ev (change v) = Inr bs'"
    using assms(1) by (auto simp: verdict_engine_total_def)
  ultimately show ?thesis
    by (simp add: verdict_update_def update_loop.simps update_round_def verdict_stage_def Let_def)
qed

lemma rejection_tag_inj: "rejection_tag a = rejection_tag b \<Longrightarrow> a = b"
  by (cases a; cases b) simp_all

lemma cache_agrees_invalidated:
  assumes "verdict_engine_ok k" and "cache_agrees k s"
    and "pm_store s' = snd (verdict_update k e change idle (pm_store s))" and "pm_lean s' = (pm_lean s)(e := None)"
  shows "cache_agrees k s'"
  unfolding cache_agrees_def
proof (intro allI impI)
  fix ev lean
  assume "pm_lean s' ev = Some lean"
  then have "ev \<noteq> e" "pm_lean s ev = Some lean"
    using assms(4) by (auto split: if_split_asm)
  moreover from this have "get_rejection_code k (pm_store s') ev = get_rejection_code k (pm_store s) ev"
    using cells.write_other [OF assms(1), of ev e change "pm_store s"] assms(3)
    by (simp add: get_rejection_code_def)
  ultimately show "\<exists>code. get_rejection_code k (pm_store s') ev = Inr code \<and> (ev_rejected (le_pdu lean) \<longleftrightarrow> code \<noteq> None)"
    using assms(2) by (simp add: cache_agrees_def)
qed

lemma cache_agrees_same_rejection:
  assumes "verdict_engine_ok k" and "cache_agrees k s"
    and "pm_store s' = snd (verdict_update k e change idle (pm_store s))" and "pm_lean s' = pm_lean s"
    and "\<And>v. rejection_of (change v) = rejection_of v"
  shows "cache_agrees k s'"
proof -
  have "get_rejection_code k (pm_store s') ev = Inr code" if "get_rejection_code k (pm_store s) ev = Inr code" for ev code
    using cells.write_keeps [OF assms(1) that [unfolded get_rejection_code_eq], of change e] assms(5)
    unfolding get_rejection_code_eq assms(3) by simp
  with assms(2,4) show ?thesis
    unfolding cache_agrees_def by metis
qed

lemma cache_agrees_unmark:
  assumes "verdict_engine_ok k" and "cache_agrees k s"
  shows "cache_agrees k (snd (unmark_event_rejected k id idle e s))"
  by (rule cache_agrees_invalidated [OF assms unmark_store unmark_lean])

lemma cache_agrees_fetch:
  assumes "verdict_engine_ok k" and "cache_agrees k s"
  shows "cache_agrees k (snd (fetch_pdu k src e s))"
  using fetch_pdu_state [of k src e s] cache_agrees_unmark [OF assms] assms(2) by metis

text \<open>The flag that an event is read with, and that no further read changes it.\<close>

definition settled_code :: "pdu_source \<Rightarrow> event_id \<Rightarrow> rejection_code option \<Rightarrow> bool" where
  "settled_code src eid code \<longleftrightarrow> code = None \<or> code = Some AuthCheckFailed \<or> \<not> ps_non_outlier src eid"

lemma fetch_pdu_rejected_cases:
  assumes "plain_source src" and "fetch_pdu k src eid s = (Some pdu, s')"
  obtains (accepted) "get_rejection_code k (pm_store s) eid = Inr None" "s' = s" "\<not> ev_rejected pdu"
  | (rejected) code where "get_rejection_code k (pm_store s) eid = Inr (Some code)" "s' = s" "ev_rejected pdu"
      "settled_code src eid (Some code)"
  | (stale) code where "get_rejection_code k (pm_store s) eid = Inr (Some code)"
      "s' = snd (unmark_event_rejected k id idle eid s)" "\<not> ev_rejected pdu" "\<not> settled_code src eid (Some code)"
proof -
  from assms obtain p where p: "ps_prefetch src eid = None" "ps_get_pdu_in_room src eid = Some p"
    "ev_id p = eid" "\<not> ev_rejected p"
    by (auto simp: plain_source_def fetch_pdu_def split: option.splits)
  from assms(2) p obtain code where code: "get_rejection_code k (pm_store s) eid = Inr code"
    by (cases "get_rejection_code k (pm_store s) eid") (auto simp: fetch_pdu_def is_event_rejected_def)
  show thesis
  proof (cases code)
    case None
    with p code have "fetch_pdu k src eid s = (Some p, s)"
      by (simp add: fetch_pdu_def is_event_rejected_def)
    with assms(2) p(4) have "s' = s" "\<not> ev_rejected pdu"
      by auto
    with code None show thesis
      by (intro accepted) simp_all
  next
    case (Some r)
    have "get_rejection_reason k s eid = Inr (Some (rejection_tag r))"
      using code Some by (simp add: get_rejection_reason_def)
    moreover have "rejection_tag r = rejection_tag AuthCheckFailed \<longleftrightarrow> r = AuthCheckFailed"
      using rejection_tag_inj by blast
    ultimately have fetch: "fetch_pdu k src eid s =
      (if r \<noteq> AuthCheckFailed \<and> ps_non_outlier src eid
       then (Some (p\<lparr>ev_rejected := False\<rparr>), snd (unmark_event_rejected k id idle eid s))
       else (Some (p\<lparr>ev_rejected := True\<rparr>), s))"
      using p code Some by (simp add: fetch_pdu_def is_event_rejected_def Let_def del: rejection_tag.simps)
    show thesis
    proof (cases "r \<noteq> AuthCheckFailed \<and> ps_non_outlier src eid")
      case True
      with assms(2) fetch have "s' = snd (unmark_event_rejected k id idle eid s)" "\<not> ev_rejected pdu"
        by auto
      moreover from True have "\<not> settled_code src eid (Some r)"
        by (auto simp: settled_code_def)
      ultimately show thesis
        using code Some by (intro stale) simp_all
    next
      case False
      then have "settled_code src eid (Some r)"
        by (auto simp: settled_code_def)
      moreover from False assms(2) fetch have "s' = s" "ev_rejected pdu"
        by auto
      ultimately show thesis
        using code Some by (intro rejected) simp_all
    qed
  qed
qed

lemma fetch_pdu_flag:
  assumes "verdict_engine_ok k" and "verdict_engine_total k" and "plain_source src"
    and "fetch_pdu k src eid s = (Some pdu, s')"
  shows "\<exists>code. get_rejection_code k (pm_store s') eid = Inr code \<and> (ev_rejected pdu \<longleftrightarrow> code \<noteq> None) \<and>
                settled_code src eid code"
  using assms(3,4)
proof (cases rule: fetch_pdu_rejected_cases)
  case accepted
  then show ?thesis
    by (simp add: settled_code_def)
next
  case (rejected code)
  then show ?thesis
    by auto
next
  case (stale code)
  then obtain v where v: "verdict_get k (pm_store s) eid = Inr (Some v)"
    by (auto simp: get_rejection_code_def try_res_eq_Inr bind_eq_Some_conv)
  from update_idle_succeeds [OF assms(2) this, of "\<lambda>v. v\<lparr>v_rejection := None\<rparr>"] obtain db where
    db: "verdict_update k eid (\<lambda>v. v\<lparr>v_rejection := None\<rparr>) idle (pm_store s) = (Inr (), db)"
    by blast
  have "cells.holds k (\<lambda>v. rejection_of v = None) db eid"
    by (rule cells.write_establishes [OF assms(1) db]) (simp add: rejection_of_def)
  with stale db show ?thesis
    by (auto simp: get_rejection_code_eq unmark_store settled_code_def)
qed

lemma settled_code_fetch:
  assumes "verdict_engine_ok k" and "plain_source src" and "settled_code src eid code"
    and "get_rejection_code k (pm_store s) eid = Inr code"
  shows "get_rejection_code k (pm_store (snd (fetch_pdu k src e s))) eid = Inr code"
proof (cases "fetch_pdu k src e s")
  case (Pair p s')
  show ?thesis
  proof (cases p)
    case None
    with Pair assms(4) show ?thesis
      by (auto simp: fetch_pdu_def Let_def split: option.splits sum.splits if_split_asm)
  next
    case (Some pdu)
    from assms(2) Pair [unfolded Some] show ?thesis
    proof (cases rule: fetch_pdu_rejected_cases)
      case (stale code')
      then have "e \<noteq> eid"
        using assms(3,4) by auto
      with stale assms(4) Pair holds_other [OF assms(1), of e eid] show ?thesis
        by (simp add: get_rejection_code_eq unmark_store)
    qed (use Pair assms(4) in simp_all)
  qed
qed

lemma cache_agrees_lean:
  assumes "verdict_engine_ok k" and "verdict_engine_total k" and "plain_source src" and "cache_agrees k s"
  shows "cache_agrees k (snd (get_lean_event c k version src e s))"
proof (cases "\<exists>eid pdu s'. c_event_id c e = Some eid \<and> pm_lean s eid = None \<and> fetch_pdu k src eid s = (Some pdu, s')")
  case False
  then show ?thesis
    using assms(4) cache_agrees_fetch [OF assms(1,4), of src]
    by (auto simp: get_lean_event_def split: option.splits prod.splits) (metis snd_conv)
next
  case True
  then obtain eid pdu s' where eid: "c_event_id c e = Some eid" "pm_lean s eid = None"
    and fetch: "fetch_pdu k src eid s = (Some pdu, s')"
    by blast
  from fetch_pdu_flag [OF assms(1-3) fetch] obtain code where
    code: "get_rejection_code k (pm_store s') eid = Inr code" "ev_rejected pdu \<longleftrightarrow> code \<noteq> None"
      "settled_code src eid code"
    by blast
  define I where "I st \<longleftrightarrow> cache_agrees k st \<and> get_rejection_code k (pm_store st) eid = Inr code" for st
  have step: "I (snd (fetch_pdu k src e st))" if "I st" for e st
    using that cache_agrees_fetch [OF assms(1)] settled_code_fetch [OF assms(1,3) code(3)] by (simp add: I_def)
  obtain lvl s'' where lvl: "sender_power_level_from_auth c version pdu (fetch_pdu k src) s' = (lvl, s'')"
    by fastforce
  have "I s'"
    using cache_agrees_fetch [OF assms(1,4), of src eid] fetch code(1) by (simp add: I_def)
  have "I (snd (sender_power_level_from_auth c version pdu (fetch_pdu k src) s'))"
    by (rule sender_power_level_keeps [of I]) (use step \<open>I s'\<close> in auto)
  then have "I s''"
    using lvl by simp
  with code(2) have "cache_agrees k (s''\<lparr>pm_lean := (pm_lean s'')(eid \<mapsto> \<lparr>le_pdu = pdu, le_power_level = lvl\<rparr>)\<rparr>)"
    by (simp add: I_def cache_agrees_def)
  with eid fetch lvl show ?thesis
    by (simp add: get_lean_event_def Let_def)
qed

lemma cache_agrees_op:
  assumes ok: "verdict_engine_ok k" and total: "verdict_engine_total k" and src: "plain_source src"
    and agrees: "cache_agrees k s" and clear: "\<And>e. op \<noteq> ClearMarkers e"
  shows "cache_agrees k (snd (run_verdict_op c k src op s))"
proof (cases op)
  case (MarkRejected e reason)
  then show ?thesis
    by (auto simp: mark_event_rejected_def data_mark_event_rejected_def intro: cache_agrees_invalidated [OF ok agrees])
next
  case (MarkRejectedUnchecked e reason)
  then show ?thesis
    by (auto simp: mark_event_rejected_skip_visibility_check_def data_mark_event_rejected_def
        intro: cache_agrees_invalidated [OF ok agrees])
next
  case (MarkSoftFailed e code)
  then show ?thesis
    by (auto simp: mark_event_soft_failed_def data_mark_event_soft_failed_def rejection_of_def
        intro: cache_agrees_same_rejection [OF ok agrees])
next
  case (UnmarkSoftFailed e)
  then show ?thesis
    by (auto simp: unmark_event_soft_failed_def data_unmark_event_soft_failed_def rejection_of_def
        intro: cache_agrees_same_rejection [OF ok agrees])
next
  case (TakeRetry e)
  then show ?thesis
    using retry_state(1) [of k e s] agrees cache_agrees_unmark [OF ok agrees] by auto
next
  case (TakeRetryForPromotion e)
  then show ?thesis
    using retry_state(2) [of k e s] agrees cache_agrees_unmark [OF ok agrees] by auto
next
  case (FinishPromotion e)
  then show ?thesis
    using retry_state(3) [of k e s] agrees cache_agrees_unmark [OF ok agrees] by auto
qed (use clear cache_agrees_unmark [OF ok agrees] cache_agrees_lean [OF ok total src agrees] in simp_all)

lemma get_lean_event_cached:
  assumes "get_lean_event c k version src i s = (Some lean, s')" and "c_event_id c i = Some eid"
  shows "pm_lean s' eid = Some lean"
  using assms by (auto simp: get_lean_event_def Let_def split: option.splits prod.splits)

lemma run_verdict_ops_snd:
  "snd (run_verdict_ops c k src (op # ops) s) = snd (run_verdict_ops c k src ops (snd (run_verdict_op c k src op s)))"
  by (simp split: prod.splits)

lemma cache_agrees_ops:
  assumes "verdict_engine_ok k" and "verdict_engine_total k" and "plain_source src"
    and "cache_agrees k s" and "\<forall>e. ClearMarkers e \<notin> set ops"
  shows "cache_agrees k (snd (run_verdict_ops c k src ops s))"
  using assms(4,5)
proof (induction ops arbitrary: s)
  case (Cons op ops)
  have "cache_agrees k (snd (run_verdict_op c k src op s))"
    by (rule cache_agrees_op [OF assms(1-3) Cons.prems(1)]) (use Cons.prems(2) in auto)
  from Cons.IH [OF this] Cons.prems(2) show ?case
    by (simp only: run_verdict_ops_snd) simp
qed simp

text \<open>C22: State resolution sees the verdicts. After any sequence of operations on verdicts and
  reads of the provider, except the removal of all markers, an event that the provider hands out is
  flagged as rejected exactly when the store has a rejection for it, whether the event came from
  the cache or from the timeline: every operation that changes a rejection drops the cached event.\<close>

theorem resolution_sees_verdicts:
  assumes "verdict_engine_ok k" and "verdict_engine_total k" and "plain_source src" and "cache_agrees k s"
    and "\<forall>e. ClearMarkers e \<notin> set ops" and "run_verdict_ops c k src ops s = (answers, s')"
    and "get_lean_event c k version src i s' = (Some lean, s'')" and "c_event_id c i = Some eid"
  shows "\<exists>code. get_rejection_code k (pm_store s'') eid = Inr code \<and> (ev_rejected (le_pdu lean) \<longleftrightarrow> code \<noteq> None)"
proof -
  have "cache_agrees k s'"
    using cache_agrees_ops [OF assms(1-5), of c] assms(6) by simp
  from cache_agrees_lean [OF assms(1-3) this, of c version i] have "cache_agrees k s''"
    using assms(7) by simp
  with get_lean_event_cached [OF assms(7,8)] show ?thesis
    by (simp add: cache_agrees_def)
qed

lemma sample_verdicts_total: "verdict_engine_total sample_verdicts"
  by (simp add: verdict_engine_total_def sample_verdicts_def)

lemma sample_source_plain: "plain_source sample_source"
  by (simp add: plain_source_def sample_source_def sample_event_def)

lemma sample_meta_agrees: "cache_agrees k (sample_meta ev code)"
  by (simp add: cache_agrees_def sample_meta_def)

definition sample_reads :: "verdict_op list" where
  "sample_reads = [GetLean StateV2 ''$e'', MarkSoftFailed ''$e'' Manual, TakeRetry ''$e'', UnmarkRejected ''$f'']"

lemma sample_reads_no_clear: "\<forall>e. ClearMarkers e \<notin> set sample_reads"
  by (simp add: sample_reads_def)

definition sample_lean :: lean_event where
  "sample_lean =
     \<lparr>le_pdu = (sample_event ''$e'' ''@a:x'' RoomMember (Some ''@a:x'') ''join'' [])\<lparr>ev_rejected := True\<rparr>,
      le_power_level = 0\<rparr>"

definition sample_after :: "(event_id, unit) pdu_meta" where
  "sample_after = snd (run_verdict_ops sample_codec sample_verdicts sample_source sample_reads
     (sample_meta ''$e'' AuthCheckFailed))"

lemma sample_lean_result:
  "fst (get_lean_event sample_codec sample_verdicts StateV2 sample_source ''$e'' sample_after) = Some sample_lean"
  by code_simp

theorem resolution_sees_verdicts_witness:
  "\<exists>code. get_rejection_code sample_verdicts
      (pm_store (snd (get_lean_event sample_codec sample_verdicts StateV2 sample_source ''$e'' sample_after))) ''$e'' =
        Inr code \<and> (ev_rejected (le_pdu sample_lean) \<longleftrightarrow> code \<noteq> None)"
proof (rule resolution_sees_verdicts [OF sample_verdicts_ok sample_verdicts_total sample_source_plain
      sample_meta_agrees [of sample_verdicts "''$e''" AuthCheckFailed] sample_reads_no_clear])
  show "run_verdict_ops sample_codec sample_verdicts sample_source sample_reads (sample_meta ''$e'' AuthCheckFailed) =
          (fst (run_verdict_ops sample_codec sample_verdicts sample_source sample_reads
             (sample_meta ''$e'' AuthCheckFailed)), sample_after)"
    by (simp add: sample_after_def)
  show "get_lean_event sample_codec sample_verdicts StateV2 sample_source ''$e'' sample_after =
          (Some sample_lean, snd (get_lean_event sample_codec sample_verdicts StateV2 sample_source ''$e'' sample_after))"
    using sample_lean_result by (simp add: prod_eq_iff)
  show "c_event_id sample_codec ''$e'' = Some ''$e''"
    by (simp add: sample_codec_def)
qed

section \<open>Where the cache goes wrong\<close>

text \<open>Removing the markers of an event does not reach state resolution. When the provider has
  cached a rejected event and its markers are then removed, the store has no rejection any more, but
  the provider still hands the event out as rejected, without looking at the store: unlike the
  operations that set or lift a rejection, this one does not drop the cached event.\<close>

lemma cleared_markers_leave_cache_stale:
  assumes "verdict_engine_ok k" and "pm_lean s ev = Some lean" and "ev_rejected (le_pdu lean)"
    and "c_event_id c ev = Some ev" and "on_store (clear_pdu_markers k idle ev) s = (Inr (), s')"
  shows "get_rejection_code k (pm_store s') ev = Inr None \<and> get_lean_event c k version src ev s' = (Some lean, s')"
proof -
  from assms(5) obtain db where db: "verdict_update k ev (\<lambda>v. v\<lparr>v_soft_fail := None, v_rejection := None\<rparr>) idle
      (pm_store s) = (Inr (), db)" "s' = s\<lparr>pm_store := db\<rparr>"
    by (auto simp: on_store_def clear_pdu_markers_def split: prod.splits)
  have "cells.holds k (\<lambda>v. rejection_of v = None) db ev"
    by (rule cells.write_establishes [OF assms(1) db(1)]) (simp add: rejection_of_def)
  then show ?thesis
    using assms(2,4) db(2) by (simp add: get_rejection_code_eq get_lean_event_def)
qed

definition sample_cached :: "(event_id, unit) pdu_meta" where
  "sample_cached = (sample_meta ''$e'' AuthCheckFailed)\<lparr>pm_lean := [''$e'' \<mapsto> sample_lean]\<rparr>"

lemma sample_clear_ok: "fst (on_store (clear_pdu_markers sample_verdicts idle ''$e'') sample_cached) = Inr ()"
  by code_simp

theorem cleared_markers_leave_cache_stale_witness:
  "get_rejection_code sample_verdicts
     (pm_store (snd (on_store (clear_pdu_markers sample_verdicts idle ''$e'') sample_cached))) ''$e'' = Inr None \<and>
   fst (get_lean_event sample_codec sample_verdicts StateV2 sample_source ''$e''
     (snd (on_store (clear_pdu_markers sample_verdicts idle ''$e'') sample_cached))) = Some sample_lean"
proof -
  have clear: "on_store (clear_pdu_markers sample_verdicts idle ''$e'') sample_cached =
          (Inr (), snd (on_store (clear_pdu_markers sample_verdicts idle ''$e'') sample_cached))"
    using sample_clear_ok by (simp add: prod_eq_iff)
  have cached: "pm_lean sample_cached ''$e'' = Some sample_lean" "ev_rejected (le_pdu sample_lean)"
    "c_event_id sample_codec ''$e'' = Some ''$e''"
    by (simp_all add: sample_cached_def sample_lean_def sample_codec_def)
  from cleared_markers_leave_cache_stale [OF sample_verdicts_ok cached clear, of StateV2 sample_source]
  show ?thesis
    by (metis fst_conv)
qed

text \<open>
  A rejection drops the cached event before it writes the verdict. A read of the provider
  between the two puts the event back with the old flag.
\<close>

lemma rejection_race_hides_verdict:
  assumes "verdict_engine_ok k" and "plain_source src" and "c_event_id c ev = Some ev"
    and "get_rejection_code k (pm_store s) ev = Inr None"
    and "fst (get_lean_event c k version src ev (invalidate_lean ev s)) = Some lean"
    and "mark_event_rejected k (\<lambda>st. snd (get_lean_event c k version src ev st)) idle ev reason s = (Inr (), s')"
  shows "pm_lean s' ev = Some lean \<and> \<not> ev_rejected (le_pdu lean) \<and>
         is_event_rejected k (pm_store s') ev = Inr True"
proof -
  define st where "st = snd (get_lean_event c k version src ev (invalidate_lean ev s))"
  have get: "get_lean_event c k version src ev (invalidate_lean ev s) = (Some lean, st)"
    using assms(5) by (simp add: st_def prod_eq_iff)
  from assms(6) obtain db where
    db: "verdict_update k ev (reject_change reason) idle (pm_store st) = (Inr (), db)" "s' = st\<lparr>pm_store := db\<rparr>"
    by (auto simp: mark_event_rejected_def data_mark_event_rejected_def on_store_def st_def split: prod.splits)
  have cached: "pm_lean s' ev = Some lean"
    using get_lean_event_cached [OF get assms(3)] db(2) by simp
  obtain pdu s1 where fetch: "fetch_pdu k src ev (invalidate_lean ev s) = (Some pdu, s1)" "le_pdu lean = pdu"
    using get assms(3) by (auto simp: get_lean_event_def Let_def split: option.splits prod.splits)
  from assms(2) fetch(1) have "\<not> ev_rejected pdu"
    by (cases rule: fetch_pdu_rejected_cases) (use assms(4) in simp_all)
  moreover have "cells.holds k (\<lambda>v. rejection_of v \<noteq> None) db ev"
    by (rule cells.write_establishes [OF assms(1) db(1)])
      (auto simp: reject_change_def rejection_of_def Let_def split: option.splits)
  then have "is_event_rejected k db ev = Inr True"
    by (auto simp: is_event_rejected_def get_rejection_code_def cells.holds_def rejection_of_def
        verdict_or_default_def verdict_default_def split: option.splits)
  ultimately show ?thesis
    using cached db(2) fetch(2) by simp
qed

text \<open>The live resolution of a room follows the table of room versions for every supported
  version but two: rooms of the unstable versions \<^verbatim>\<open>org.matrix.msc3389.10\<close> and
  \<^verbatim>\<open>org.matrix.msc4311.10\<close> have the rules of version 10, whose algorithm is version 2, but are
  resolved with version 2.1.1, which privileges their creators.\<close>

lemma state_res_version_mismatch:
  "(\<exists>rv. room_version_new v = Inr rv \<and> state_res rv \<noteq> live_state_res_version v) \<longleftrightarrow>
     v = Custom ''org.matrix.msc3389.10'' \<or> v = Custom ''org.matrix.msc4311.10''"
  by (cases v)
    (auto simp: room_version_new_def live_state_res_version_def room_version_defs is_msc3389_def is_msc4311_def)

end
