(* ===== verification/State_At_Event.thy ===== *)
theory State_At_Event
  imports Lean_Events Event_Auth
begin

text \<open>
  The state before an incoming event (\<^verbatim>\<open>event_handler/state_at_incoming.rs\<close>,
  \<^verbatim>\<open>event_handler/resolve_state.rs\<close>, \<^verbatim>\<open>event_handler/upgrade_outlier_pdu.rs\<close>): the state after its only
  predecessor, or the resolution of the states after its predecessors, and the new state of the
  room as a change of its current state tree. Trees, the resolution of differing forks and the
  parser of identifiers are third-party packages. Short identifiers of state keys come from the
  tables of \<^verbatim>\<open>Short_Ids\<close>; here they are two functions, and the type of the identifiers is left open.
\<close>

section \<open>The database of a room\<close>

type_synonym 'k short_state = "('k \<times> event_id) list"
type_synonym key_state = "(type_state_key \<times> event_id) list"

text \<open>
  What the pipeline reads and writes of one room: the stored events, their positions in the
  timeline, the metadata with the flag for events outside it, the tips, the events referenced by others, the state
  trees of events and of the room, verdicts, and what a partial join left to check.
\<close>

record 'r room_db =
  rd_room :: room_id
  rd_exists :: bool
  rd_version :: "room_version_id option"
  rd_pdus :: "event_id \<rightharpoonup> event"
  rd_timeline :: "event_id \<rightharpoonup> nat"
  rd_next_count :: nat
  rd_metadata :: "event_id \<rightharpoonup> bool"
  rd_leaves :: "event_id list"
  rd_referenced :: "event_id set"
  rd_roots :: "event_id \<rightharpoonup> 'r"
  rd_room_root :: "'r option"
  rd_rejection :: "event_id \<rightharpoonup> rejection_code"
  rd_soft_fail :: "event_id \<rightharpoonup> soft_fail_code"
  rd_partial :: bool
  rd_pending :: "event_id set"

record ('r, 'k) state_lib =
  sl_full :: "'r \<Rightarrow> 'k short_state option"
  sl_build :: "'k short_state \<Rightarrow> 'r"
  sl_mutate :: "'r \<Rightarrow> ('k \<times> event_id option) list \<Rightarrow> 'r"
  sl_short :: "type_state_key \<Rightarrow> 'k"
  sl_key :: "'k \<rightharpoonup> type_state_key"
  sl_resolve :: "room_version_id \<Rightarrow> key_state list \<Rightarrow> key_state"

datatype incoming_error =
    DatabaseError string
  | Forbidden string
  | InvalidParam string
  | EventSoftFailed
  | Panic string
  | OtherError string

type_synonym 'a ires = "(incoming_error, 'a) result"

text \<open>\<^verbatim>\<open>timeline.get_pdu_in_room\<close> refuses an event of another room.\<close>

definition room_pdu :: "'v codec \<Rightarrow> 'r room_db \<Rightarrow> event_id \<Rightarrow> event option" where
  "room_pdu c db eid =
     (case rd_pdus db eid of
        None \<Rightarrow> None
      | Some pdu \<Rightarrow> if room_id_or_hash c pdu = Some (rd_room db) then Some pdu else None)"

text \<open>The change that a state event makes to a state.\<close>

definition apply_own :: "('r, 'k) state_lib \<Rightarrow> event \<Rightarrow> event_id \<Rightarrow> 'k short_state \<Rightarrow> 'k short_state" where
  "apply_own lib pdu eid st =
     (case ev_state_key pdu of
        None \<Rightarrow> st
      | Some sk \<Rightarrow> AList.update (sl_short lib (ev_kind pdu, sk)) eid st)"

section \<open>One predecessor\<close>

text \<open>
  The walk back through rejected events with one parent to the nearest event with a tree of
  its own. Nothing stops it on a cycle; the value \<open>None\<close> is a walk that does not end.
\<close>

partial_function (option) walk_rejected ::
  "'v codec \<Rightarrow> 'r room_db \<Rightarrow> event_id \<Rightarrow> event \<Rightarrow> ('r \<times> event_id \<times> event) option option" where
  "walk_rejected c db prev_event prev_pdu =
     (case rd_roots db prev_event of
        Some handle \<Rightarrow> Some (Some (handle, prev_event, prev_pdu))
      | None \<Rightarrow>
          if rd_rejection db prev_event = None then Some None
          else case ev_prev prev_pdu of
                 [parent] \<Rightarrow>
                   (case room_pdu c db parent of
                      None \<Rightarrow> Some None
                    | Some parent_pdu \<Rightarrow> walk_rejected c db parent parent_pdu)
               | _ \<Rightarrow> Some None)"

declare walk_rejected.simps [code]

definition full_state :: "('r, 'k) state_lib \<Rightarrow> 'r \<Rightarrow> 'k short_state ires" where
  "full_state lib root = ok_or (sl_full lib root) (DatabaseError ''state tree'')"

definition state_at_incoming_degree_one ::
  "'v codec \<Rightarrow> ('r, 'k) state_lib \<Rightarrow> 'r room_db \<Rightarrow> event \<Rightarrow> 'k short_state option ires option" where
  "state_at_incoming_degree_one c lib db incoming =
     (case room_pdu c db (hd (ev_prev incoming)) of
        None \<Rightarrow> Some (Inr None)
      | Some prev_pdu \<Rightarrow>
          if ev_room_id prev_pdu \<noteq> Some (rd_room db)
          then Some (Inl (DatabaseError ''prev_event is not in the same room''))
          else case walk_rejected c db (hd (ev_prev incoming)) prev_pdu of
                 None \<Rightarrow> None
               | Some None \<Rightarrow> Some (Inr None)
               | Some (Some (root, prev_event, pdu)) \<Rightarrow>
                   Some (try_res (full_state lib root) (\<lambda>st. Inr (Some (apply_own lib pdu prev_event st)))))"

section \<open>Several predecessors\<close>

text \<open>A state in terms of state keys; a short identifier that is not known is left out.\<close>

definition to_key_state :: "('r, 'k) state_lib \<Rightarrow> 'k short_state \<Rightarrow> key_state" where
  "to_key_state lib st = List.map_filter (\<lambda>(k, eid). map_option (\<lambda>key. (key, eid)) (sl_key lib k)) st"

definition to_short_state :: "('r, 'k) state_lib \<Rightarrow> key_state \<Rightarrow> 'k short_state" where
  "to_short_state lib st = map (\<lambda>(key, eid). (sl_short lib key, eid)) st"

definition state_at_incoming_fork :: "('r, 'k) state_lib \<Rightarrow> 'r \<Rightarrow> event \<Rightarrow> key_state ires" where
  "state_at_incoming_fork lib root prev_event =
     try_res (full_state lib root) (\<lambda>leaf_state.
     Inr (to_key_state lib (apply_own lib prev_event (ev_id prev_event) leaf_state)))"

text \<open>The resolution: nothing, one state, or the third-party resolution of several.\<close>

definition state_resolution :: "('r, 'k) state_lib \<Rightarrow> room_version_id \<Rightarrow> key_state list \<Rightarrow> key_state" where
  "state_resolution lib version sets =
     (case sets of [] \<Rightarrow> [] | [single] \<Rightarrow> single | _ \<Rightarrow> sl_resolve lib version sets)"

text \<open>
  The trees of the predecessors, collected into a hash map from the tree to the event: of
  several predecessors with the same tree only the last is kept.
\<close>

definition extremity_roothandles :: "'v codec \<Rightarrow> 'r room_db \<Rightarrow> event_id list \<Rightarrow> ('r \<times> event) list option" where
  "extremity_roothandles c db prevs =
     map_option (\<lambda>pairs. fold (\<lambda>(root, pdu). AList.update root pdu) pairs [])
       (those (map (\<lambda>prev.
          case room_pdu c db prev of
            None \<Rightarrow> None
          | Some pdu \<Rightarrow>
              if ev_room_id pdu \<noteq> Some (rd_room db) then None
              else map_option (\<lambda>root. (root, pdu)) (rd_roots db prev)) prevs))"

text \<open>
  The shortcut for forks with equal digests is dead: the digest of a tree is not implemented
  and always fails.
\<close>

definition get_extremity_lthash :: "'r \<Rightarrow> event \<Rightarrow> string ires" where
  "get_extremity_lthash root prev_event = Inl (OtherError ''not implemented'')"

fun unique_forks :: "('r \<times> event) list \<Rightarrow> (string \<times> 'r \<times> event) list \<Rightarrow> bool \<times> (string \<times> 'r \<times> event) list" where
  "unique_forks [] forks = (True, forks)"
| "unique_forks ((root, prev) # rest) forks =
     (case get_extremity_lthash root prev of
        Inr lthash \<Rightarrow>
          unique_forks rest (if lthash \<in> fst ` set forks then forks else forks @ [(lthash, root, prev)])
      | Inl _ \<Rightarrow> (False, forks))"

definition state_at_incoming_resolved ::
  "'v codec \<Rightarrow> ('r, 'k) state_lib \<Rightarrow> 'r room_db \<Rightarrow> room_version_id \<Rightarrow> event \<Rightarrow> 'k short_state option ires" where
  "state_at_incoming_resolved c lib db version incoming =
     (case extremity_roothandles c db (ev_prev incoming) of
        None \<Rightarrow> Inr None
      | Some roots \<Rightarrow>
          (case unique_forks roots [] of
             (True, [(_, root, prev)]) \<Rightarrow>
               if 1 < length roots
               then (case state_at_incoming_fork lib root prev of
                       Inl _ \<Rightarrow> Inr None
                     | Inr fork \<Rightarrow> Inr (Some (to_short_state lib fork)))
               else try_res (map_res (\<lambda>(root, prev). state_at_incoming_fork lib root prev) roots) (\<lambda>forks.
                    Inr (Some (to_short_state lib (state_resolution lib version forks))))
           | _ \<Rightarrow>
               try_res (map_res (\<lambda>(root, prev). state_at_incoming_fork lib root prev) roots) (\<lambda>forks.
               Inr (Some (to_short_state lib (state_resolution lib version forks))))))"

definition same_state :: "key_state \<Rightarrow> key_state \<Rightarrow> bool" where
  "same_state a b \<longleftrightarrow> list_all (\<lambda>key. map_of a key = map_of b key) (map fst a @ map fst b)"

fun forks_with_fetched ::
  "'v codec \<Rightarrow> ('r, 'k) state_lib \<Rightarrow> 'r room_db \<Rightarrow> event_id \<Rightarrow> 'k short_state \<Rightarrow> event_id list \<Rightarrow> key_state list option ires" where
  "forks_with_fetched c lib db fetched_prev fetched_state [] = Inr (Some [])"
| "forks_with_fetched c lib db fetched_prev fetched_state (prev # prevs) =
     (let rest = forks_with_fetched c lib db fetched_prev fetched_state prevs
      in if prev = fetched_prev
         then try_res rest (\<lambda>forks. Inr (map_option ((#) (to_key_state lib fetched_state)) forks))
         else case (room_pdu c db prev, rd_roots db prev) of
                (Some prev_event, Some root) \<Rightarrow>
                  try_res (state_at_incoming_fork lib root prev_event) (\<lambda>fork.
                  try_res rest (\<lambda>forks. Inr (map_option ((#) fork) forks)))
              | _ \<Rightarrow> Inr None)"

definition state_at_incoming_with_fetched_prev ::
  "'v codec \<Rightarrow> ('r, 'k) state_lib \<Rightarrow> 'r room_db \<Rightarrow> room_version_id \<Rightarrow> event \<Rightarrow> event_id \<Rightarrow> 'k short_state
   \<Rightarrow> 'k short_state option ires" where
  "state_at_incoming_with_fetched_prev c lib db version incoming fetched_prev fetched_state =
     try_res (forks_with_fetched c lib db fetched_prev fetched_state (ev_prev incoming)) (\<lambda>forks.
     case forks of
       None \<Rightarrow> Inr None
     | Some [] \<Rightarrow> Inr None
     | Some (first # rest) \<Rightarrow>
         Inr (Some (to_short_state lib
           (if list_all (\<lambda>fork. same_state fork first) (first # rest) then first
            else state_resolution lib version (first # rest)))))"

definition state_map_to_root_handle :: "('r, 'k) state_lib \<Rightarrow> 'k short_state \<Rightarrow> 'r" where
  "state_map_to_root_handle lib st = sl_build lib st"

definition resolve_extremities ::
  "'v codec \<Rightarrow> ('r, 'k) state_lib \<Rightarrow> 'r room_db \<Rightarrow> room_version_id \<Rightarrow> event_id list \<Rightarrow> 'r option ires" where
  "resolve_extremities c lib db version prevs =
     (case extremity_roothandles c db prevs of
        None \<Rightarrow> Inr None
      | Some [] \<Rightarrow> Inr None
      | Some roots \<Rightarrow>
          try_res (map_res (\<lambda>(root, prev). state_at_incoming_fork lib root prev) roots) (\<lambda>forks.
          Inr (Some (sl_build lib (to_short_state lib (state_resolution lib version forks))))))"

section \<open>The new state of the room\<close>

text \<open>
  \<^verbatim>\<open>resolve_state\<close>: the resolution of the current state with the state after the event, written as
  the changed leaves of the current tree.
\<close>

definition state_mutations :: "('r, 'k) state_lib \<Rightarrow> key_state \<Rightarrow> key_state \<Rightarrow> ('k \<times> event_id option) list" where
  "state_mutations lib previous resolved =
     map (\<lambda>(key, eid). (sl_short lib key, Some eid))
       (filter (\<lambda>(key, eid). map_of previous key \<noteq> Some eid) resolved) @
     map (\<lambda>key. (sl_short lib key, None)) (filter (\<lambda>key. map_of resolved key = None) (map fst previous))"

definition resolve_state ::
  "('r, 'k) state_lib \<Rightarrow> 'r room_db \<Rightarrow> room_version_id \<Rightarrow> 'k short_state \<Rightarrow> 'r ires" where
  "resolve_state lib db version incoming_state =
     try_res (ok_or (rd_room_root db) (DatabaseError ''no state for the room'')) (\<lambda>current_root.
     try_res (full_state lib current_root) (\<lambda>current.
     let previous = to_key_state lib current;
         state = state_resolution lib version [previous, to_key_state lib incoming_state]
     in Inr (sl_mutate lib current_root (state_mutations lib previous state))))"

text \<open>
  The tree of the only predecessor can be reused unless the event lost its own slot there.
\<close>

definition reusable_predecessor_root_handle ::
  "'v codec \<Rightarrow> ('r, 'k) state_lib \<Rightarrow> 'r room_db \<Rightarrow> event \<Rightarrow> 'r option ires" where
  "reusable_predecessor_root_handle c lib db incoming =
     (case ev_prev incoming of
        [prev] \<Rightarrow>
          (case rd_pdus db prev of
             None \<Rightarrow> Inr None
           | Some prev_pdu \<Rightarrow>
               if room_id_or_hash c prev_pdu \<noteq> Some (rd_room db)
               then Inl (DatabaseError ''PDU does belong to another room'')
               else case rd_roots db prev of
                      None \<Rightarrow> Inr None
                    | Some root \<Rightarrow>
                        (case ev_state_key prev_pdu of
                           None \<Rightarrow> Inr (Some root)
                         | Some sk \<Rightarrow>
                             try_res (full_state lib root) (\<lambda>st.
                             case Option.bind (map_of st (sl_short lib (ev_kind prev_pdu, sk))) (rd_pdus db) of
                               None \<Rightarrow> Inr None
                             | Some local \<Rightarrow>
                                 if room_id_or_hash c local \<noteq> Some (rd_room db)
                                 then Inl (DatabaseError ''PDU does belong to another room'')
                                 else Inr (if ev_id local = prev then Some root else None))))
      | _ \<Rightarrow> Inr None)"

section \<open>State fetched from another server\<close>

text \<open>
  The last part of \<^verbatim>\<open>fetch_state\<close>: the state map made of the events that the other server named,
  once they were fetched and checked. A rejected event outside the timeline is replaced by the
  event that the room has under its key, or left out.
\<close>

definition visible_to_clients :: "'r room_db \<Rightarrow> event_id \<Rightarrow> bool" where
  "visible_to_clients db eid \<longleftrightarrow> rd_timeline db eid \<noteq> None \<and> rd_rejection db eid = None"

fun fetched_entries ::
  "'v codec \<Rightarrow> ('r, 'k) state_lib \<Rightarrow> 'r room_db \<Rightarrow> event_id list \<Rightarrow> 'k short_state \<Rightarrow> 'k short_state ires" where
  "fetched_entries c lib db [] st = Inr st"
| "fetched_entries c lib db (eid # eids) st =
     (case rd_pdus db eid of
        None \<Rightarrow> fetched_entries c lib db eids st
      | Some pdu \<Rightarrow>
          (case ev_state_key pdu of
             None \<Rightarrow>
               if rd_rejection db eid \<noteq> None then fetched_entries c lib db eids st
               else Inl (DatabaseError ''Found non-state pdu in state events.'')
           | Some sk \<Rightarrow>
               let short = sl_short lib (ev_kind pdu, sk);
                   local_eid = Option.bind (rd_room_root db) (\<lambda>root.
                               Option.bind (sl_full lib root) (\<lambda>current.
                               Option.bind (map_of current short) (\<lambda>i.
                               map_option ev_id (room_pdu c db i))));
                   target = (if rd_rejection db eid \<noteq> None \<and> \<not> visible_to_clients db eid then local_eid
                             else Some eid)
               in case target of
                    None \<Rightarrow> fetched_entries c lib db eids st
                  | Some target_eid \<Rightarrow>
                      if map_of st short \<noteq> None
                      then Inl (DatabaseError ''State event's type and state_key combination exists multiple times'')
                      else fetched_entries c lib db eids (AList.update short target_eid st)))"

definition fetched_state ::
  "'v codec \<Rightarrow> ('r, 'k) state_lib \<Rightarrow> 'r room_db \<Rightarrow> event \<Rightarrow> event_id list \<Rightarrow> 'k short_state option ires" where
  "fetched_state c lib db create_event state_pdu_ids =
     try_res (fetched_entries c lib db state_pdu_ids []) (\<lambda>st.
     if map_of st (sl_short lib (RoomCreate, '''')) \<noteq> Some (ev_id create_event)
     then Inl (DatabaseError ''Incoming event refers to wrong create event.'')
     else Inr (Some st))"

section \<open>The tree of the new state\<close>

text \<open>
  What the trees and the short identifiers promise: a changed tree holds the changed entries, a
  built tree the entries it was built from, and short identifiers and state keys are in bijection
  where both are known.
\<close>

definition apply_mutations :: "('k \<times> event_id option) list \<Rightarrow> ('k \<rightharpoonup> event_id) \<Rightarrow> ('k \<rightharpoonup> event_id)" where
  "apply_mutations ms m = fold (\<lambda>(k, v) m. m(k := v)) ms m"

definition state_lib_ok :: "('r, 'k) state_lib \<Rightarrow> bool" where
  "state_lib_ok lib \<longleftrightarrow>
     (\<forall>r ms st. sl_full lib r = Some st \<longrightarrow>
        (\<exists>st'. sl_full lib (sl_mutate lib r ms) = Some st' \<and> map_of st' = apply_mutations ms (map_of st))) \<and>
     (\<forall>st. distinct (map fst st) \<longrightarrow> (\<exists>st'. sl_full lib (sl_build lib st) = Some st' \<and> map_of st' = map_of st)) \<and>
     (\<forall>r st. sl_full lib r = Some st \<longrightarrow> distinct (map fst st)) \<and>
     (\<forall>key. sl_key lib (sl_short lib key) = Some key) \<and>
     (\<forall>k key. sl_key lib k = Some key \<longrightarrow> sl_short lib key = k)"

text \<open>Every entry of a state has a known state key.\<close>

definition all_keys_known :: "('r, 'k) state_lib \<Rightarrow> 'k short_state \<Rightarrow> bool" where
  "all_keys_known lib st \<longleftrightarrow> list_all (\<lambda>(k, _). sl_key lib k \<noteq> None) st"

lemma state_lib_keys:
  assumes "state_lib_ok lib"
  shows "sl_key lib (sl_short lib key) = Some key" "sl_key lib k = Some key \<Longrightarrow> sl_short lib key = k"
    "sl_short lib key = sl_short lib key' \<longleftrightarrow> key = key'"
  using assms unfolding state_lib_ok_def by (blast, blast, metis option.inject)

lemma to_key_state_simps [simp]:
  "to_key_state lib [] = []"
  "to_key_state lib ((k, eid) # st) =
     (case sl_key lib k of None \<Rightarrow> to_key_state lib st | Some key \<Rightarrow> (key, eid) # to_key_state lib st)"
  by (simp_all add: to_key_state_def List.map_filter_def split: option.splits)

lemma map_of_to_key_state:
  assumes "state_lib_ok lib"
  shows "map_of (to_key_state lib st) key = map_of st (sl_short lib key)"
proof (induction st)
  case (Cons entry st)
  obtain k eid where "entry = (k, eid)"
    by (cases entry)
  then show ?case
    using Cons state_lib_keys(1) [OF assms, of key] state_lib_keys(2) [OF assms, of k]
    by (cases "sl_key lib k") auto
qed simp

lemma distinct_to_key_state:
  assumes "state_lib_ok lib" and "distinct (map fst st)"
  shows "distinct (map fst (to_key_state lib st))"
  using assms(2)
proof (induction st)
  case (Cons entry st)
  obtain k eid where entry: "entry = (k, eid)"
    by (cases entry)
  show ?case
  proof (cases "sl_key lib k")
    case (Some key)
    then have "map_of (to_key_state lib st) key = None"
      using map_of_to_key_state [OF assms(1), of st key] state_lib_keys(2) [OF assms(1) Some] Cons.prems entry
      by (simp add: map_of_eq_None_iff)
    with Cons Some entry show ?thesis
      by (simp add: map_of_eq_None_iff)
  qed (use Cons entry in simp)
qed simp

lemma apply_mutations_simps [simp]:
  "apply_mutations [] m = m"
  "apply_mutations ((k, v) # ms) m = apply_mutations ms (m(k := v))"
  "apply_mutations (a @ b) m = apply_mutations b (apply_mutations a m)"
  by (simp_all add: apply_mutations_def)

lemma apply_puts:
  assumes "distinct (map fst ps)" and "\<And>key. f key = k \<longleftrightarrow> key = x"
  shows "apply_mutations (map (\<lambda>(key, eid). (f key, Some eid)) ps) m k =
           (case map_of ps x of Some eid \<Rightarrow> Some eid | None \<Rightarrow> m k)"
  using assms(1)
proof (induction ps arbitrary: m)
  case (Cons p ps)
  obtain key eid where p: "p = (key, eid)"
    by (cases p)
  show ?case
  proof (cases "key = x")
    case True
    then have "map_of ps x = None" "f key = k"
      using Cons.prems p assms(2) by (auto simp: map_of_eq_None_iff)
    with Cons p True show ?thesis
      by simp
  next
    case False
    with assms(2) have "f key \<noteq> k"
      by simp
    with Cons p False show ?thesis
      by (simp add: fun_upd_other split: option.splits)
  qed
qed simp

lemma apply_removals:
  "apply_mutations (map (\<lambda>key. (f key, None)) keys) m k = (if k \<in> f ` set keys then None else m k)"
  by (induction keys arbitrary: m) auto

lemma map_of_filter_other:
  assumes "distinct (map fst ps)"
  shows "map_of (filter (\<lambda>(key, v). map_of qs key \<noteq> Some v) ps) key =
           (if map_of ps key = map_of qs key then None else map_of ps key)"
  using assms
proof (induction ps)
  case (Cons p ps)
  obtain k v where p: "p = (k, v)"
    by (cases p)
  show ?case
  proof (cases "k = key")
    case True
    then have "map_of ps key = None"
      using Cons.prems p by (simp add: map_of_eq_None_iff)
    with Cons p True show ?thesis
      by auto
  qed (use Cons p in auto)
qed simp

lemma apply_state_mutations:
  assumes "state_lib_ok lib" and "distinct (map fst resolved)"
    and "\<And>key. map_of previous key = m (sl_short lib key)"
  shows "apply_mutations (state_mutations lib previous resolved) m (sl_short lib key) = map_of resolved key"
proof -
  have "apply_mutations (map (\<lambda>(key, eid). (sl_short lib key, Some eid))
          (filter (\<lambda>(key, eid). map_of previous key \<noteq> Some eid) resolved)) m (sl_short lib key) =
        (if map_of resolved key = None then m (sl_short lib key) else map_of resolved key)"
    using apply_puts [of "filter (\<lambda>(key, eid). map_of previous key \<noteq> Some eid) resolved" "sl_short lib" _ key m]
      state_lib_keys(3) [OF assms(1)] map_of_filter_other [OF assms(2), of previous key] assms(2,3)
    by (auto simp: distinct_map_filter split: option.splits)
  moreover have "sl_short lib key \<in> sl_short lib ` set (filter (\<lambda>key. map_of resolved key = None) (map fst previous))
      \<longleftrightarrow> map_of resolved key = None \<and> map_of previous key \<noteq> None"
    using inj_image_mem_iff [of "sl_short lib" key] state_lib_keys(3) [OF assms(1)]
    by (simp add: inj_def map_of_eq_None_iff conj_commute)
  ultimately show ?thesis
    using assms(3) [of key] by (auto simp: state_mutations_def apply_removals)
qed

lemma apply_state_mutations_other:
  assumes "k \<notin> range (sl_short lib)"
  shows "apply_mutations (state_mutations lib previous resolved) m k = m k"
proof -
  have "apply_mutations (map (\<lambda>(key, eid). (sl_short lib key, Some eid)) ps) m k = m k" for ps m
    using assms by (induction ps arbitrary: m) auto
  then show ?thesis
    using assms by (auto simp: state_mutations_def apply_removals)
qed

text \<open>C10: The new state of a room is exactly the resolved one. Only the leaves that changed are
  written, but when every entry of the current tree has a known state key, the tree that
  \<^verbatim>\<open>resolve_state\<close> returns holds, under every state key, the event that the resolution of the
  current state with the state after the incoming event chose, and nothing else; a key that
  the resolution dropped is removed.\<close>

theorem resolve_state_exact:
  assumes "state_lib_ok lib" and "rd_room_root db = Some current_root" and "sl_full lib current_root = Some current"
    and "all_keys_known lib current"
    and "resolved = state_resolution lib version [to_key_state lib current, to_key_state lib incoming]"
    and "distinct (map fst resolved)" and "resolve_state lib db version incoming = Inr root"
  shows "\<exists>st. sl_full lib root = Some st \<and> (\<forall>key. map_of st (sl_short lib key) = map_of resolved key) \<and>
           (\<forall>k. k \<notin> range (sl_short lib) \<longrightarrow> map_of st k = None)"
proof -
  have root: "root = sl_mutate lib current_root (state_mutations lib (to_key_state lib current) resolved)"
    using assms(2,3,5,7) by (simp add: resolve_state_def full_state_def Let_def)
  then obtain st where st: "sl_full lib root = Some st"
    "map_of st = apply_mutations (state_mutations lib (to_key_state lib current) resolved) (map_of current)"
    using assms(1,3) unfolding state_lib_ok_def by metis
  have "map_of st (sl_short lib key) = map_of resolved key" for key
    unfolding st(2) by (rule apply_state_mutations [OF assms(1,6) map_of_to_key_state [OF assms(1)]])
  moreover have "map_of st k = None" if "k \<notin> range (sl_short lib)" for k
  proof -
    have "map_of current k = None"
    proof (rule ccontr)
      assume "map_of current k \<noteq> None"
      then obtain eid where "(k, eid) \<in> set current"
        by (auto dest: map_of_SomeD)
      then have "sl_key lib k \<noteq> None"
        using assms(4) by (auto simp: all_keys_known_def list_all_iff)
      with that state_lib_keys(2) [OF assms(1), of k] show False
        by auto
    qed
    with that show ?thesis
      unfolding st(2) by (simp add: apply_state_mutations_other)
  qed
  ultimately show ?thesis
    using st(1) by blast
qed

text \<open>A sample library: a tree is its entries, a state key is its own identifier, and the
  resolution prefers the later fork.\<close>

fun mutate_entries :: "(type_state_key \<times> event_id option) list \<Rightarrow> type_state_key short_state \<Rightarrow> type_state_key short_state" where
  "mutate_entries [] st = st"
| "mutate_entries ((k, Some eid) # ms) st = mutate_entries ms (AList.update k eid st)"
| "mutate_entries ((k, None) # ms) st = mutate_entries ms (AList.delete k st)"

definition sample_lib :: "(type_state_key short_state, type_state_key) state_lib" where
  "sample_lib =
     \<lparr>sl_full = (\<lambda>r. if distinct (map fst r) then Some r else None), sl_build = id,
      sl_mutate = (\<lambda>r ms. mutate_entries ms r), sl_short = id, sl_key = Some,
      sl_resolve = (\<lambda>_ forks. fold (\<lambda>fork st. fold (\<lambda>(k, eid). AList.update k eid) fork st) forks [])\<rparr>"

lemma map_of_mutate_entries: "map_of (mutate_entries ms st) = apply_mutations ms (map_of st)"
  by (induction ms st rule: mutate_entries.induct) (simp_all add: update_conv' delete_conv' fun_upd_def)

lemma distinct_mutate_entries: "distinct (map fst st) \<Longrightarrow> distinct (map fst (mutate_entries ms st))"
  by (induction ms st rule: mutate_entries.induct) (auto simp: distinct_update distinct_delete)

lemma sample_lib_ok: "state_lib_ok sample_lib"
  by (auto simp: state_lib_ok_def sample_lib_def map_of_mutate_entries distinct_mutate_entries)

definition sample_room_db :: "type_state_key short_state room_db" where
  "sample_room_db =
     \<lparr>rd_room = ''!r:x'', rd_exists = True, rd_version = Some V10, rd_pdus = Map.empty, rd_timeline = Map.empty, rd_next_count = 1,
      rd_metadata = Map.empty, rd_leaves = [], rd_referenced = {}, rd_roots = Map.empty,
      rd_room_root = Some [((RoomCreate, ''''), ''$c''), ((RoomMember, ''@a:x''), ''$a'')],
      rd_rejection = Map.empty, rd_soft_fail = Map.empty, rd_partial = False, rd_pending = {}\<rparr>"

definition sample_current :: "type_state_key short_state" where
  "sample_current = [((RoomCreate, ''''), ''$c''), ((RoomMember, ''@a:x''), ''$a'')]"

definition sample_incoming :: "type_state_key short_state" where
  "sample_incoming = [((RoomMember, ''@a:x''), ''$b''), ((RoomJoinRules, ''''), ''$j'')]"

definition sample_resolved :: key_state where
  "sample_resolved = state_resolution sample_lib V10 [to_key_state sample_lib sample_current,
     to_key_state sample_lib sample_incoming]"

lemma sample_resolved_eq:
  "sample_resolved = [((RoomCreate, ''''), ''$c''), ((RoomMember, ''@a:x''), ''$b''), ((RoomJoinRules, ''''), ''$j'')]"
  by (simp add: sample_resolved_def state_resolution_def sample_current_def sample_incoming_def sample_lib_def)

definition sample_root :: "type_state_key short_state" where
  "sample_root = [((RoomCreate, ''''), ''$c''), ((RoomMember, ''@a:x''), ''$b''), ((RoomJoinRules, ''''), ''$j'')]"

lemma sample_resolve_state: "resolve_state sample_lib sample_room_db V10 sample_incoming = Inr sample_root"
  by (simp add: resolve_state_def full_state_def sample_room_db_def sample_lib_def sample_incoming_def sample_root_def
      state_resolution_def state_mutations_def Let_def)

theorem resolve_state_exact_witness:
  "\<exists>st. sl_full sample_lib sample_root = Some st \<and>
     (\<forall>key. map_of st (sl_short sample_lib key) = map_of sample_resolved key)"
proof -
  have "rd_room_root sample_room_db = Some sample_current" "sl_full sample_lib sample_current = Some sample_current"
    "all_keys_known sample_lib sample_current" "distinct (map fst sample_resolved)"
    by (simp_all add: sample_room_db_def sample_current_def sample_lib_def all_keys_known_def sample_resolved_eq)
  from resolve_state_exact [OF sample_lib_ok this(1-3) sample_resolved_def this(4) sample_resolve_state]
  show ?thesis
    by blast
qed

section \<open>The walk through rejected events\<close>

definition rejected_parents :: "'v codec \<Rightarrow> 'r room_db \<Rightarrow> (event_id \<times> event_id) set" where
  "rejected_parents c db =
     {(parent, e). \<exists>pdu. room_pdu c db e = Some pdu \<and> ev_prev pdu = [parent] \<and> rd_roots db e = None \<and>
        rd_rejection db e \<noteq> None}"

lemma walk_rejected_returns:
  assumes "wf (rejected_parents c db)" and "room_pdu c db e = Some pdu"
  shows "\<exists>r. walk_rejected c db e pdu = Some r"
  using assms
proof (induction e arbitrary: pdu rule: wf_induct_rule)
  case (less e)
  show ?case
  proof (cases "rd_roots db e = None \<and> rd_rejection db e \<noteq> None \<and>
      (\<exists>parent parent_pdu. ev_prev pdu = [parent] \<and> room_pdu c db parent = Some parent_pdu)")
    case True
    then obtain parent parent_pdu where parent: "ev_prev pdu = [parent]" "room_pdu c db parent = Some parent_pdu"
      by blast
    then have "(parent, e) \<in> rejected_parents c db"
      using less.prems True by (auto simp: rejected_parents_def)
    from less.IH [OF this parent(2)] show ?thesis
      using True parent by (subst walk_rejected.simps) auto
  next
    case False
    then show ?thesis
      by (subst walk_rejected.simps) (auto split: option.splits list.splits)
  qed
qed

text \<open>A set of rejected events without trees, each with one predecessor, again in the set.\<close>

definition rejected_cycle :: "'v codec \<Rightarrow> 'r room_db \<Rightarrow> event_id set \<Rightarrow> bool" where
  "rejected_cycle c db es \<longleftrightarrow>
     (\<forall>e \<in> es. rd_roots db e = None \<and> rd_rejection db e \<noteq> None \<and>
        (\<exists>pdu parent. room_pdu c db e = Some pdu \<and> ev_prev pdu = [parent] \<and> parent \<in> es))"

lemma walk_rejected_cycle:
  assumes "rejected_cycle c db es" and "e \<in> es" and "room_pdu c db e = Some pdu"
  shows "walk_rejected c db e pdu = None"
proof -
  have "\<not> (c' = c \<and> db' = db \<and> e \<in> es \<and> room_pdu c db e = Some pdu)"
    if "walk_rejected c' db' e pdu = Some r" for c' :: "'a codec" and db' :: "'b room_db" and e pdu r
    using that
  proof (induction rule: walk_rejected.raw_induct [rotated, consumes 1])
    case (1 walk c' db' e pdu r)
    show ?case
    proof (intro notI, elim conjE)
      assume eq: "c' = c" "db' = db" and e: "e \<in> es" "room_pdu c db e = Some pdu"
      from assms(1) e obtain parent where parent: "ev_prev pdu = [parent]" "parent \<in> es" "rd_roots db e = None"
        "rd_rejection db e \<noteq> None"
        by (fastforce simp: rejected_cycle_def)
      from assms(1) parent(2) obtain parent_pdu where parent_pdu: "room_pdu c db parent = Some parent_pdu"
        by (auto simp: rejected_cycle_def)
      have "walk c db parent parent_pdu = Some r"
        using "1.hyps" parent parent_pdu eq by simp
      with "1.IH" parent(2) parent_pdu show False
        by blast
    qed
  qed
  with assms(2,3) show ?thesis
    by (cases "walk_rejected c db e pdu") blast+
qed

text \<open>C36: Nothing ends the walk through rejected predecessors on a cycle. An incoming event whose
  only predecessor belongs to a set of rejected events without state, each of which has its only
  predecessor in the set again, is never judged: the computation of the state before it does not
  return. In room versions whose event identifiers are not hashes a server can send such events.\<close>

theorem state_at_event_hangs_on_rejected_cycle:
  assumes "rejected_cycle c db es" and "ev_prev incoming = [e]" and "e \<in> es"
    and "\<And>pdu. room_pdu c db e = Some pdu \<Longrightarrow> ev_room_id pdu = Some (rd_room db)"
  shows "state_at_incoming_degree_one c lib db incoming = None"
proof -
  from assms(1,3) obtain pdu where "room_pdu c db e = Some pdu"
    by (auto simp: rejected_cycle_def)
  with walk_rejected_cycle [OF assms(1,3) this] assms(2,4) show ?thesis
    by (simp add: state_at_incoming_degree_one_def)
qed

text \<open>Without such a cycle the computation returns.\<close>

lemma state_at_event_returns:
  assumes "wf (rejected_parents c db)"
  shows "\<exists>r. state_at_incoming_degree_one c lib db incoming = Some r"
proof (cases "room_pdu c db (hd (ev_prev incoming))")
  case (Some pdu)
  from walk_rejected_returns [OF assms this] show ?thesis
    by (auto simp: state_at_incoming_degree_one_def Some split: option.splits)
qed (simp add: state_at_incoming_degree_one_def)

definition cyclic_room :: "type_state_key short_state room_db" where
  "cyclic_room = sample_room_db
     \<lparr>rd_pdus := [''$a'' \<mapsto> (sample_event ''$a'' ''@a:x'' (OtherType ''m'') None ''text'' [])\<lparr>ev_prev := [''$b'']\<rparr>,
                 ''$b'' \<mapsto> (sample_event ''$b'' ''@a:x'' (OtherType ''m'') None ''text'' [])\<lparr>ev_prev := [''$a'']\<rparr>],
      rd_rejection := [''$a'' \<mapsto> AuthCheckFailed, ''$b'' \<mapsto> AuthCheckFailed]\<rparr>"

theorem state_at_event_hangs_on_rejected_cycle_witness:
  "state_at_incoming_degree_one sample_codec sample_lib cyclic_room
     ((sample_event ''$e'' ''@a:x'' (OtherType ''m'') None ''text'' [])\<lparr>ev_prev := [''$a'']\<rparr>) = None"
proof (rule state_at_event_hangs_on_rejected_cycle [where es = "{''$a'', ''$b''}" and e = "''$a''"])
  show "rejected_cycle sample_codec cyclic_room {''$a'', ''$b''}"
    by (simp add: rejected_cycle_def cyclic_room_def sample_room_db_def sample_event_def room_pdu_def room_id_or_hash_def)
  show "ev_room_id pdu = Some (rd_room cyclic_room)" if "room_pdu sample_codec cyclic_room ''$a'' = Some pdu" for pdu
    using that by (auto simp: cyclic_room_def sample_room_db_def sample_event_def room_pdu_def room_id_or_hash_def)
qed (simp_all add: sample_event_def)

section \<open>Predecessors with the same tree\<close>

lemma map_of_to_short_state:
  assumes "state_lib_ok lib"
  shows "map_of (to_short_state lib st) (sl_short lib key) = map_of st key"
proof (induction st)
  case (Cons entry st)
  obtain k eid where entry: "entry = (k, eid)"
    by (cases entry)
  have "to_short_state lib (entry # st) = (sl_short lib k, eid) # to_short_state lib st"
    by (simp add: to_short_state_def entry)
  then show ?case
    using Cons state_lib_keys(3) [OF assms, of key k] by (simp add: entry)
qed (simp add: to_short_state_def)


definition twin_room :: "type_state_key short_state room_db" where
  "twin_room = sample_room_db
     \<lparr>rd_pdus := [''$p'' \<mapsto> sample_event ''$p'' ''@a:x'' (OtherType ''topic'') (Some '''') ''text'' [],
                 ''$q'' \<mapsto> sample_event ''$q'' ''@a:x'' (OtherType ''name'') (Some '''') ''text'' []],
      rd_roots := [''$p'' \<mapsto> sample_current, ''$q'' \<mapsto> sample_current]\<rparr>"

definition twin_child :: event where
  "twin_child = (sample_event ''$e'' ''@a:x'' (OtherType ''m'') None ''text'' [])\<lparr>ev_prev := [''$p'', ''$q'']\<rparr>"


end
