(* ===== verification/Incoming_Events.thy ===== *)
theory Incoming_Events
  imports State_At_Event Visibility
begin

text \<open>
  How an incoming event enters the timeline (\<^verbatim>\<open>event_handler/upgrade_outlier_pdu.rs\<close>,
  \<^verbatim>\<open>event_handler/extremities.rs\<close>, \<^verbatim>\<open>timeline/append.rs\<close>, \<^verbatim>\<open>timeline/redact.rs\<close>, \<^verbatim>\<open>state/mod.rs\<close>): the
  check against the state before the event, and, under the lock of the room, the soft-fail
  checks, the new state, the new tips and the append. The first half runs without the lock, so
  the database between the halves is an argument. Failures of the storage engine,
  notifications, receipts, search and the derived membership caches are left out.
\<close>

section \<open>What the pipeline calls\<close>

text \<open>
  \<open>ie_auth_types\<close> is the third-party selection of auth events, \<open>ie_fetch\<close> the request for the identifiers of
  the state at an event together with everything that is stored meanwhile, \<open>ie_policy\<close> the answer
  of the policy server, \<open>ie_redact\<close> the redaction of an event's content, \<open>ie_body\<close> whether the
  body of a message can be decoded, and \<open>ie_lattice\<close> whether the digest of a tree is stored.
\<close>

record ('r, 'k, 'v) incoming_env =
  ie_codec :: "'v codec"
  ie_lib :: "('r, 'k) state_lib"
  ie_view :: "('r, 'v) view"
  ie_auth_types :: "event_type \<Rightarrow> user_id \<Rightarrow> string option \<Rightarrow> string \<Rightarrow> bool \<Rightarrow> room_version_id \<Rightarrow> type_state_key list"
  ie_fetch :: "event_id \<Rightarrow> 'r room_db \<Rightarrow> event_id list ires \<times> 'r room_db"
  ie_policy :: "event \<Rightarrow> bool ires"
  ie_redact :: "room_version_id \<Rightarrow> event \<Rightarrow> event \<Rightarrow> event option"
  ie_body :: "string \<Rightarrow> bool"
  ie_lattice :: "'r \<Rightarrow> bool"
  ie_max_extremities :: nat

text \<open>The state accessor on the database of the room, as \<^verbatim>\<open>user_can_redact\<close> consults it.\<close>

definition stored_pdu :: "'r room_db \<Rightarrow> event_id \<Rightarrow> pdu option" where
  "stored_pdu db eid = map_option (\<lambda>ev. event.extend ev \<lparr>pdu_origin = None\<rparr>) (rd_pdus db eid)"

definition db_view :: "('r, 'k, 'v) incoming_env \<Rightarrow> 'r room_db \<Rightarrow> ('r, 'v) view" where
  "db_view env db =
     (ie_view env)\<lparr>vw_codec := ie_codec env, vw_pdu := stored_pdu db, vw_room_root := (\<lambda>_. rd_room_root db),
       vw_state := (\<lambda>_ root t k.
         Option.bind (sl_full (ie_lib env) root) (\<lambda>st.
         Option.bind (map_of st (sl_short (ie_lib env) (t, k))) (\<lambda>eid.
         if room_pdu (ie_codec env) db eid = None then None else stored_pdu db eid)))\<rparr>"

definition is_state_event :: "event \<Rightarrow> bool" where
  "is_state_event pdu \<longleftrightarrow> ev_state_key pdu \<noteq> None"

text \<open>
  \<^verbatim>\<open>redacts_id\<close>: in every room version the field at the top level of the event is read.
\<close>

definition redacts_id :: "event \<Rightarrow> room_version_id \<Rightarrow> event_id option" where
  "redacts_id ev version =
     (if ev_kind ev \<noteq> RoomRedaction then None
      else case version of
             V1 \<Rightarrow> ev_redacts ev | V2 \<Rightarrow> ev_redacts ev | V3 \<Rightarrow> ev_redacts ev | V4 \<Rightarrow> ev_redacts ev
           | V5 \<Rightarrow> ev_redacts ev | V6 \<Rightarrow> ev_redacts ev | V7 \<Rightarrow> ev_redacts ev | V8 \<Rightarrow> ev_redacts ev
           | V9 \<Rightarrow> ev_redacts ev | V10 \<Rightarrow> ev_redacts ev
           | _ \<Rightarrow> if is_msc3389 version then ev_redacts ev else ev_redacts ev)"

section \<open>Forward extremities\<close>

definition calculate_forward_extremities ::
  "event_id list \<Rightarrow> event_id \<Rightarrow> event_id list \<Rightarrow> bool \<Rightarrow> (event_id \<Rightarrow> bool) \<Rightarrow> bool \<Rightarrow> event_id list" where
  "calculate_forward_extremities current incoming prevs soft_fail is_referenced is_forward =
     (if soft_fail then current
      else let new = filter (\<lambda>eid. eid \<notin> set prevs \<and> \<not> is_referenced eid) current
           in if is_forward \<or> new = [] then new @ [incoming] else new)"

definition eligible_extremity :: "'r room_db \<Rightarrow> event_id option \<Rightarrow> event_id \<Rightarrow> bool" where
  "eligible_extremity db trusted eid \<longleftrightarrow>
     trusted = Some eid \<or>
     rd_rejection db eid = None \<and> rd_soft_fail db eid = None \<and> rd_metadata db eid = Some False"

text \<open>
  The tips are the keys of a table, which yields them in their order. Of more tips than
  allowed the last ones are kept.
\<close>

definition set_forward_extremities :: "nat \<Rightarrow> 'r room_db \<Rightarrow> event_id list \<Rightarrow> event_id option \<Rightarrow> 'r room_db" where
  "set_forward_extremities max_extremities db eids trusted =
     (let eligible = filter (eligible_extremity db trusted) eids
      in if eligible = [] then db
         else db\<lparr>rd_leaves := sort (remdups (drop (length eligible - max_extremities) eligible))\<rparr>)"

definition mark_as_referenced :: "'r room_db \<Rightarrow> event_id list \<Rightarrow> 'r room_db" where
  "mark_as_referenced db eids = db\<lparr>rd_referenced := rd_referenced db \<union> set eids\<rparr>"

section \<open>The state of an appended event\<close>

text \<open>
  \<^verbatim>\<open>append_to_state\<close> changes one leaf of the current tree when its digest is known, and rebuilds
  the tree otherwise.
\<close>

definition append_to_state :: "('r, 'k, 'v) incoming_env \<Rightarrow> 'r room_db \<Rightarrow> event \<Rightarrow> 'r ires" where
  "append_to_state env db new_pdu =
     (case ev_state_key new_pdu of
        None \<Rightarrow> Inl (InvalidParam ''append_to_state called on non-state event'')
      | Some state_key \<Rightarrow>
          let lib = ie_lib env; new_shortstatekey = sl_short lib (ev_kind new_pdu, state_key)
          in case rd_room_root db of
               Some base \<Rightarrow>
                 try_res (full_state lib base) (\<lambda>current.
                 if ie_lattice env base
                 then Inr (sl_mutate lib base [(new_shortstatekey, Some (ev_id new_pdu))])
                 else Inr (sl_build lib (AList.update new_shortstatekey (ev_id new_pdu) current)))
             | None \<Rightarrow> Inr (sl_build lib [(new_shortstatekey, ev_id new_pdu)]))"

definition set_event_state_with_root ::
  "('r, 'k, 'v) incoming_env \<Rightarrow> 'r room_db \<Rightarrow> event \<Rightarrow> 'r option \<Rightarrow> 'r room_db ires" where
  "set_event_state_with_root env db new_pdu state_root_handle =
     try_res (case state_root_handle of
                Some root \<Rightarrow> Inr root
              | None \<Rightarrow>
                  if is_state_event new_pdu then append_to_state env db new_pdu
                  else ok_or (rd_room_root db) (DatabaseError ''no state for the room'')) (\<lambda>root_handle.
     Inr (db\<lparr>rd_roots := (rd_roots db)(ev_id new_pdu \<mapsto> root_handle),
             rd_room_root := (if is_state_event new_pdu then Some root_handle else rd_room_root db)\<rparr>))"

definition set_event_roothandle :: "'r room_db \<Rightarrow> event_id \<Rightarrow> 'r \<Rightarrow> 'r room_db" where
  "set_event_roothandle db eid root = db\<lparr>rd_roots := (rd_roots db)(eid \<mapsto> root)\<rparr>"

definition unmark_rejected :: "event_id \<Rightarrow> 'r room_db \<Rightarrow> 'r room_db" where
  "unmark_rejected eid db = db\<lparr>rd_rejection := (rd_rejection db)(eid := None)\<rparr>"

definition mark_rejected :: "event_id \<Rightarrow> rejection_code \<Rightarrow> 'r room_db \<Rightarrow> 'r room_db" where
  "mark_rejected eid code db =
     (case rd_rejection db eid of
        Some old \<Rightarrow>
          if \<not> is_retryable old \<and> is_retryable code then db
          else db\<lparr>rd_rejection := (rd_rejection db)(eid \<mapsto> code)\<rparr>
      | None \<Rightarrow> db\<lparr>rd_rejection := (rd_rejection db)(eid \<mapsto> code)\<rparr>)"

definition clear_outlier_flag :: "event_id \<Rightarrow> 'r room_db \<Rightarrow> 'r room_db" where
  "clear_outlier_flag eid db =
     (if rd_metadata db eid = Some True then db\<lparr>rd_metadata := (rd_metadata db)(eid \<mapsto> False)\<rparr> else db)"

section \<open>Appending\<close>

record 'r append_ctx =
  ac_root :: "'r option"
  ac_prev_root :: "'r option"
  ac_advance :: bool

definition redact_pdu :: "('r, 'k, 'v) incoming_env \<Rightarrow> 'r room_db \<Rightarrow> event_id \<Rightarrow> event \<Rightarrow> 'r room_db ires" where
  "redact_pdu env db eid reason =
     (if rd_timeline db eid = None then Inr db
      else try_res (ok_or (rd_pdus db eid) (DatabaseError ''PDU ID points to invalid PDU.'')) (\<lambda>pdu.
           try_res (ok_or (room_id_or_hash (ie_codec env) pdu) (Forbidden ''Event has no room_id'')) (\<lambda>_.
           try_res (ok_or (rd_version db) (OtherError ''no room version'')) (\<lambda>version.
           try_res (ok_or (ie_redact env version pdu reason) (OtherError ''redaction failed'')) (\<lambda>redacted.
           Inr (db\<lparr>rd_pdus := (rd_pdus db)(eid \<mapsto> redacted)\<rparr>))))))"

definition apply_redaction :: "('r, 'k, 'v) incoming_env \<Rightarrow> 'r room_db \<Rightarrow> event \<Rightarrow> 'r room_db ires" where
  "apply_redaction env db pdu =
     (if ev_kind pdu \<noteq> RoomRedaction then Inr db
      else try_res (ok_or (rd_version db) (OtherError ''no room version'')) (\<lambda>version.
           case redacts_id pdu version of
             None \<Rightarrow> Inr db
           | Some redact_id \<Rightarrow>
               (case user_can_redact (db_view env db) redact_id (ev_sender pdu) (rd_room db) False of
                  Inl _ \<Rightarrow> Inl (Forbidden ''redaction'')
                | Inr allowed \<Rightarrow> if allowed then redact_pdu env db redact_id pdu else Inr db)))"

text \<open>A member event whose state key is no user identifier fails after it was stored.\<close>

definition bad_member_key :: "'v codec \<Rightarrow> event \<Rightarrow> bool" where
  "bad_member_key c pdu \<longleftrightarrow>
     ev_kind pdu = RoomMember \<and> (case ev_state_key pdu of None \<Rightarrow> False | Some sk \<Rightarrow> \<not> c_valid_user c sk)"

definition insert_timeline :: "'r room_db \<Rightarrow> event \<Rightarrow> nat \<times> 'r room_db" where
  "insert_timeline db pdu =
     (case rd_timeline db (ev_id pdu) of
        Some pos \<Rightarrow> (pos, db)
      | None \<Rightarrow>
          (rd_next_count db,
           db\<lparr>rd_pdus := (rd_pdus db)(ev_id pdu \<mapsto> pdu), rd_timeline := (rd_timeline db)(ev_id pdu \<mapsto> rd_next_count db),
              rd_metadata := (rd_metadata db)(ev_id pdu \<mapsto> False), rd_next_count := rd_next_count db + 1\<rparr>))"

definition advance_room :: "'r append_ctx \<Rightarrow> event \<Rightarrow> 'r room_db \<Rightarrow> 'r room_db" where
  "advance_room ctx pdu db =
     (if ac_advance ctx \<and> \<not> is_state_event pdu \<and> ac_root ctx \<noteq> None then db\<lparr>rd_room_root := ac_root ctx\<rparr> else db)"

definition prepare_append :: "('r, 'k, 'v) incoming_env \<Rightarrow> 'r room_db \<Rightarrow> event \<Rightarrow> event_id list \<Rightarrow> nat \<times> 'r room_db" where
  "prepare_append env db pdu leaves =
     (let db1 = mark_as_referenced db (ev_prev pdu);
          db2 = set_forward_extremities (ie_max_extremities env) db1 leaves (Some (ev_id pdu));
          db3 = (if rd_partial db2 then db2\<lparr>rd_pending := insert (ev_id pdu) (rd_pending db2)\<rparr> else db2)
      in insert_timeline db3 pdu)"

definition append_pdu ::
  "('r, 'k, 'v) incoming_env \<Rightarrow> 'r room_db \<Rightarrow> event \<Rightarrow> event_id list \<Rightarrow> 'r append_ctx \<Rightarrow> nat ires \<times> 'r room_db" where
  "append_pdu env db pdu leaves ctx =
     (if \<not> rd_exists db then (Inl (DatabaseError ''Room does not exist''), db)
      else case prepare_append env db pdu leaves of
             (pos, db1) \<Rightarrow>
               (case set_event_state_with_root env db1 pdu (ac_root ctx) of
                  Inl e \<Rightarrow> (Inl e, db1)
                | Inr db2 \<Rightarrow>
                    let db3 = advance_room ctx pdu db2
                    in if bad_member_key (ie_codec env) pdu then (Inl (InvalidParam ''Invalid state key''), db3)
                       else case apply_redaction env db3 pdu of
                              Inl e \<Rightarrow> (Inl e, db3)
                            | Inr db4 \<Rightarrow> (Inr pos, db4)))"

definition append_incoming_pdu ::
  "('r, 'k, 'v) incoming_env \<Rightarrow> 'r room_db \<Rightarrow> event \<Rightarrow> event_id list \<Rightarrow> bool \<Rightarrow> 'r append_ctx
   \<Rightarrow> nat option ires \<times> 'r room_db" where
  "append_incoming_pdu env db pdu leaves soft_fail ctx =
     (if soft_fail
      then (Inr None,
            unmark_rejected (ev_id pdu)
              (case (ac_root ctx, ac_prev_root ctx) of
                 (Some root, _) \<Rightarrow> set_event_roothandle db (ev_id pdu) root
               | (None, Some root) \<Rightarrow> set_event_roothandle db (ev_id pdu) root
               | (None, None) \<Rightarrow> db))
      else case append_pdu env db pdu leaves ctx of
             (Inl e, db1) \<Rightarrow> (Inl e, db1)
           | (Inr pos, db1) \<Rightarrow>
               let db2 = unmark_rejected (ev_id pdu) (clear_outlier_flag (ev_id pdu) db1)
               in if ev_kind pdu = OtherType ''m.room.message'' \<and> \<not> ie_body env (ev_content pdu)
                  then (Inl (OtherError ''body''), db2)
                  else (Inr (Some pos), db2))"

section \<open>The state before the event\<close>

definition get_room_version_id :: "'v codec \<Rightarrow> event \<Rightarrow> room_version_id ires" where
  "get_room_version_id c create_event =
     try_res (ok_or (c_create c (ev_content create_event)) (OtherError ''create content'')) (\<lambda>content.
     Inr (cc_room_version content))"

definition to_room_version :: "room_version_id \<Rightarrow> room_version ires" where
  "to_room_version version =
     (case room_version_new version of Inl _ \<Rightarrow> Inl (Panic ''room version is supported'') | Inr rv \<Rightarrow> Inr rv)"

definition fetch_state ::
  "('r, 'k, 'v) incoming_env \<Rightarrow> event \<Rightarrow> event_id \<Rightarrow> 'r room_db \<Rightarrow> 'k short_state option ires \<times> 'r room_db" where
  "fetch_state env create_event eid db =
     (case ie_fetch env eid db of
        (Inl e, db1) \<Rightarrow> (Inl e, db1)
      | (Inr state_pdu_ids, db1) \<Rightarrow> (fetched_state (ie_codec env) (ie_lib env) db1 create_event state_pdu_ids, db1))"

definition snapshot_lacks_sender :: "bool \<Rightarrow> bool \<Rightarrow> bool \<Rightarrow> bool" where
  "snapshot_lacks_sender exempt partial sender_present \<longleftrightarrow> \<not> exempt \<and> \<not> partial \<and> \<not> sender_present"

definition own_membership :: "'v codec \<Rightarrow> event \<Rightarrow> membership option" where
  "own_membership c pdu =
     (if ev_kind pdu = RoomMember \<and> ev_state_key pdu = Some (ev_sender pdu) then c_member c (ev_content pdu) else None)"

definition lacks_sender_membership ::
  "('r, 'k, 'v) incoming_env \<Rightarrow> 'r room_db \<Rightarrow> event \<Rightarrow> 'k short_state \<Rightarrow> bool" where
  "lacks_sender_membership env db pdu st =
     snapshot_lacks_sender
       (ev_kind pdu = RoomCreate \<or> own_membership (ie_codec env) pdu \<in> {Some Join, Some Knock})
       (rd_partial db) (map_of st (sl_short (ie_lib env) (RoomMember, ev_sender pdu)) \<noteq> None)"

text \<open>The state from what is stored; \<open>None\<close> outside is the walk that does not end.\<close>

definition reused_state ::
  "('r, 'k, 'v) incoming_env \<Rightarrow> 'r room_db \<Rightarrow> room_version_id \<Rightarrow> event \<Rightarrow> 'k short_state option ires option" where
  "reused_state env db version incoming =
     map_option (\<lambda>r. try_res r (\<lambda>st.
         Inr (case st of
                Some reused \<Rightarrow> if lacks_sender_membership env db incoming reused then None else Some reused
              | None \<Rightarrow> None)))
       (if length (ev_prev incoming) = 1
        then state_at_incoming_degree_one (ie_codec env) (ie_lib env) db incoming
        else Some (state_at_incoming_resolved (ie_codec env) (ie_lib env) db version incoming))"

definition anchored_state ::
  "('r, 'k, 'v) incoming_env \<Rightarrow> room_version_id \<Rightarrow> event \<Rightarrow> event \<Rightarrow> event_id option \<Rightarrow> 'r room_db
   \<Rightarrow> 'k short_state option ires \<times> 'r room_db" where
  "anchored_state env version create_event incoming anchor db =
     (case anchor of
        None \<Rightarrow> (Inr None, db)
      | Some a \<Rightarrow>
          (case fetch_state env create_event a db of
             (Inl _, db1) \<Rightarrow> (Inr None, db1)
           | (Inr st, db1) \<Rightarrow>
               if ev_prev incoming = [a] then (Inr st, db1)
               else (case st of
                       None \<Rightarrow> (Inr None, db1)
                     | Some fetched \<Rightarrow>
                         if 1 < length (ev_prev incoming) \<and> a \<in> set (ev_prev incoming)
                         then (state_at_incoming_with_fetched_prev (ie_codec env) (ie_lib env) db1 version incoming a fetched, db1)
                         else (Inr None, db1))))"

definition recovered_state ::
  "('r, 'k, 'v) incoming_env \<Rightarrow> room_version_id \<Rightarrow> event \<Rightarrow> event \<Rightarrow> event_id option \<Rightarrow> 'r room_db
   \<Rightarrow> 'k short_state option ires \<times> 'r room_db" where
  "recovered_state env version create_event incoming anchor db =
     (case anchored_state env version create_event incoming anchor db of
        (Inl e, db1) \<Rightarrow> (Inl e, db1)
      | (Inr (Some st), db1) \<Rightarrow> (Inr (Some st), db1)
      | (Inr None, db1) \<Rightarrow> fetch_state env create_event (ev_id incoming) db1)"

text \<open>The state before the event and whether it had to be recovered from another server.\<close>

definition state_at_event ::
  "('r, 'k, 'v) incoming_env \<Rightarrow> room_version_id \<Rightarrow> event \<Rightarrow> event \<Rightarrow> event_id option \<Rightarrow> 'r room_db
   \<Rightarrow> (('k short_state \<times> bool) ires \<times> 'r room_db) option" where
  "state_at_event env version create_event incoming anchor db =
     (case reused_state env db version incoming of
        None \<Rightarrow> None
      | Some (Inl e) \<Rightarrow> Some (Inl e, db)
      | Some (Inr (Some st)) \<Rightarrow> Some (Inr (st, False), db)
      | Some (Inr None) \<Rightarrow>
          (case recovered_state env version create_event incoming anchor db of
             (Inl e, db1) \<Rightarrow> Some (Inl e, db1)
           | (Inr None, db1) \<Rightarrow> Some (Inl (Panic ''we always set this to some above''), db1)
           | (Inr (Some st), db1) \<Rightarrow> Some (Inr (st, True), db1)))"

section \<open>The check at the event\<close>

record 'k at_event =
  ae_state :: "'k short_state"
  ae_recovered :: bool
  ae_partial :: bool
  ae_claimed_first :: bool
  ae_claims :: "event list"

datatype 'k checked = Already nat | Proceed "'k at_event"

definition claimed_event :: "event list \<Rightarrow> event_type \<Rightarrow> string \<Rightarrow> event option" where
  "claimed_event claims k s = find (\<lambda>p. ev_kind p = k \<and> ev_state_key p = Some s) claims"

text \<open>The claimed event or the one of the state, in the order that the room asks for.\<close>

definition claimed_or :: "'k at_event \<Rightarrow> (event_type \<Rightarrow> string \<Rightarrow> event option) \<Rightarrow> event_type \<Rightarrow> string \<Rightarrow> event option" where
  "claimed_or ae from_state k s =
     (case (ae_claimed_first ae, claimed_event (ae_claims ae) k s, from_state k s) of
        (True, Some claimed, _) \<Rightarrow> Some claimed
      | (_, claimed, Some ev) \<Rightarrow> Some ev
      | (_, claimed, None) \<Rightarrow> claimed)"

definition fetch_at_event ::
  "('r, 'k, 'v) incoming_env \<Rightarrow> 'r room_db \<Rightarrow> 'k at_event \<Rightarrow> event_type \<Rightarrow> string \<Rightarrow> event option" where
  "fetch_at_event env db ae =
     claimed_or ae (\<lambda>k s. Option.bind (map_of (ae_state ae) (sl_short (ie_lib env) (k, s))) (rd_pdus db))"

definition at_event_of ::
  "('r, 'k, 'v) incoming_env \<Rightarrow> 'r room_db \<Rightarrow> event \<Rightarrow> 'k short_state \<Rightarrow> bool \<Rightarrow> 'k at_event" where
  "at_event_of env db incoming st was_recovered =
     \<lparr>ae_state = st, ae_recovered = was_recovered, ae_partial = rd_partial db,
      ae_claimed_first = (rd_partial db \<and> own_membership (ie_codec env) incoming = Some Leave),
      ae_claims = (if rd_partial db then List.map_filter (rd_pdus db) (ev_auth incoming) else [])\<rparr>"

definition checked_auth ::
  "'v codec \<Rightarrow> room_version \<Rightarrow> event \<Rightarrow> (event_type \<Rightarrow> string \<Rightarrow> event option) \<Rightarrow> event \<Rightarrow> bool ires" where
  "checked_auth c rv incoming fetch create_event =
     (case auth_check c rv incoming None fetch create_event of
        Inl _ \<Rightarrow> Inl (Forbidden ''Auth check failed'')
      | Inr verdict \<Rightarrow> Inr verdict)"

definition check_at_event ::
  "('r, 'k, 'v) incoming_env \<Rightarrow> event \<Rightarrow> event \<Rightarrow> event_id option \<Rightarrow> 'r room_db
   \<Rightarrow> ('k checked ires \<times> 'r room_db) option" where
  "check_at_event env create_event incoming anchor db =
     (case rd_timeline db (ev_id incoming) of
        Some pos \<Rightarrow> Some (Inr (Already pos), db)
      | None \<Rightarrow>
          if rd_soft_fail db (ev_id incoming) \<noteq> None then Some (Inl EventSoftFailed, db)
          else case get_room_version_id (ie_codec env) create_event of
            Inl e \<Rightarrow> Some (Inl e, db)
          | Inr version \<Rightarrow>
              (case state_at_event env version create_event incoming anchor db of
                 None \<Rightarrow> None
               | Some (Inl e, db1) \<Rightarrow> Some (Inl e, db1)
               | Some (Inr (st, was_recovered), db1) \<Rightarrow>
                   (case to_room_version version of
                      Inl e \<Rightarrow> Some (Inl e, db1)
                    | Inr rv \<Rightarrow>
                        let ae = at_event_of env db1 incoming st was_recovered
                        in case checked_auth (ie_codec env) rv incoming (fetch_at_event env db1 ae) create_event of
                             Inl e \<Rightarrow> Some (Inl e, db1)
                           | Inr False \<Rightarrow>
                               Some (Inl (Forbidden ''Event has failed auth check with state at the event.''),
                                     mark_rejected (ev_id incoming) AuthCheckFailed db1)
                           | Inr True \<Rightarrow> Some (Inr (Proceed ae), db1))))"

section \<open>Under the lock of the room\<close>

definition get_auth_events ::
  "('r, 'k, 'v) incoming_env \<Rightarrow> 'r room_db \<Rightarrow> event \<Rightarrow> room_version \<Rightarrow> room_version_id \<Rightarrow> event_type \<Rightarrow> string \<Rightarrow> event option" where
  "get_auth_events env db pdu rv version k s =
     Option.bind (rd_room_root db) (\<lambda>root.
     Option.bind (sl_full (ie_lib env) root) (\<lambda>st.
     if (k, s) \<in> set (ie_auth_types env (ev_kind pdu) (ev_sender pdu) (ev_state_key pdu) (ev_content pdu)
                       (room_ids_as_hashes rv) version)
     then Option.bind (map_of st (sl_short (ie_lib env) (k, s))) (rd_pdus db)
     else None))"

definition current_soft_fail ::
  "('r, 'k, 'v) incoming_env \<Rightarrow> 'r room_db \<Rightarrow> room_version_id \<Rightarrow> room_version \<Rightarrow> event \<Rightarrow> event \<Rightarrow> 'k at_event
   \<Rightarrow> bool \<Rightarrow> bool ires" where
  "current_soft_fail env db version rv create_event incoming ae is_timeline_event =
     (if \<not> is_timeline_event then Inr False
      else try_res (checked_auth (ie_codec env) rv incoming
                      (claimed_or ae (get_auth_events env db incoming rv version)) create_event) (\<lambda>verdict.
           if \<not> verdict then Inr True
           else case redacts_id incoming version of
                  None \<Rightarrow> Inr False
                | Some redact_id \<Rightarrow>
                    if rd_pdus db redact_id = None then Inr False
                    else (case user_can_redact (db_view env db) redact_id (ev_sender incoming) (rd_room db) True of
                            Inl _ \<Rightarrow> Inl (Forbidden ''redaction'')
                          | Inr allowed \<Rightarrow> Inr (\<not> allowed))))"

text \<open>The tree before the event where the append needs it, and the tree that the append stores.\<close>

definition predecessor_root ::
  "('r, 'k, 'v) incoming_env \<Rightarrow> 'r room_db \<Rightarrow> event \<Rightarrow> 'k at_event \<Rightarrow> 'r ires" where
  "predecessor_root env db incoming ae =
     try_res (reusable_predecessor_root_handle (ie_codec env) (ie_lib env) db incoming) (\<lambda>root.
     Inr (case root of Some r \<Rightarrow> r | None \<Rightarrow> state_map_to_root_handle (ie_lib env) (ae_state ae)))"

definition derive_state ::
  "('r, 'k, 'v) incoming_env \<Rightarrow> 'r room_db \<Rightarrow> room_version_id \<Rightarrow> event \<Rightarrow> 'k at_event \<Rightarrow> bool \<Rightarrow> bool
   \<Rightarrow> ('r option \<times> 'r option) ires" where
  "derive_state env db version incoming ae is_timeline_event recovered =
     (let lib = ie_lib env
      in case ev_state_key incoming of
           Some state_key \<Rightarrow>
             let shortstatekey = sl_short lib (ev_kind incoming, state_key);
                 state_after = AList.update shortstatekey (ev_id incoming) (ae_state ae);
                 partial_current = (if ae_partial ae then Option.bind (rd_room_root db) (sl_full lib) else None)
             in try_res (predecessor_root env db incoming ae) (\<lambda>prev_root.
                try_res (case partial_current of
                           Some current \<Rightarrow>
                             Inr (state_map_to_root_handle lib (AList.update shortstatekey (ev_id incoming) current))
                         | None \<Rightarrow> resolve_state lib db version state_after) (\<lambda>new_root.
                Inr (Some prev_root, Some new_root)))
         | None \<Rightarrow>
             if is_timeline_event \<and> recovered
             then try_res (resolve_state lib db version (ae_state ae)) (\<lambda>new_root.
                  Inr (rd_room_root db, Some new_root))
             else if is_timeline_event
             then try_res (predecessor_root env db incoming ae) (\<lambda>root. Inr (None, Some root))
             else Inr (None, Some (state_map_to_root_handle lib (ae_state ae))))"

text \<open>Spam according to the policy server, or the redaction of a soft-failed event.\<close>

definition late_soft_fail :: "('r, 'k, 'v) incoming_env \<Rightarrow> 'r room_db \<Rightarrow> room_version_id \<Rightarrow> event \<Rightarrow> bool" where
  "late_soft_fail env db version incoming \<longleftrightarrow>
     ev_state_key incoming = None \<and> ie_policy env incoming = Inr False \<or>
     (case redacts_id incoming version of None \<Rightarrow> False | Some redact_id \<Rightarrow> rd_soft_fail db redact_id \<noteq> None)"

definition mark_soft_failed :: "event_id \<Rightarrow> 'r room_db \<Rightarrow> 'r room_db" where
  "mark_soft_failed eid db = db\<lparr>rd_soft_fail := (rd_soft_fail db)(eid \<mapsto> SoftAuthCheckFailed)\<rparr>"

definition apply_decision ::
  "('r, 'k, 'v) incoming_env \<Rightarrow> 'r room_db \<Rightarrow> event \<Rightarrow> bool \<Rightarrow> bool \<Rightarrow> bool \<Rightarrow> 'r option \<Rightarrow> 'r option
   \<Rightarrow> (nat option \<times> bool) ires \<times> 'r room_db" where
  "apply_decision env db incoming soft_fail is_timeline_event recovered prev_root new_root =
     (let extremities = calculate_forward_extremities (rd_leaves db) (ev_id incoming) (ev_prev incoming) soft_fail
            (\<lambda>eid. eid \<in> rd_referenced db) is_timeline_event;
          ctx = \<lparr>ac_root = new_root, ac_prev_root = prev_root,
                 ac_advance = (is_timeline_event \<and> (is_state_event incoming \<or> recovered) \<and> new_root \<noteq> None)\<rparr>
      in case append_incoming_pdu env db incoming extremities soft_fail ctx of
           (Inl e, db1) \<Rightarrow> (Inl e, db1)
         | (Inr pos, db1) \<Rightarrow>
             if soft_fail then (Inl EventSoftFailed, mark_soft_failed (ev_id incoming) db1)
             else (Inr (pos, recovered), db1))"

definition apply_under_lock ::
  "('r, 'k, 'v) incoming_env \<Rightarrow> event \<Rightarrow> event \<Rightarrow> bool \<Rightarrow> bool \<Rightarrow> 'k at_event \<Rightarrow> 'r room_db
   \<Rightarrow> (nat option \<times> bool) ires \<times> 'r room_db" where
  "apply_under_lock env create_event incoming is_timeline_event predecessors_were_recovered ae db =
     (case rd_timeline db (ev_id incoming) of
        Some pos \<Rightarrow> (Inr (Some pos, False), db)
      | None \<Rightarrow>
          let recovered = (ae_recovered ae \<or> predecessors_were_recovered)
          in case try_res (get_room_version_id (ie_codec env) create_event) (\<lambda>version.
                  try_res (to_room_version version) (\<lambda>rv.
                  try_res (current_soft_fail env db version rv create_event incoming ae is_timeline_event) (\<lambda>soft_fail.
                  try_res (derive_state env db version incoming ae is_timeline_event recovered) (\<lambda>roots.
                  Inr (soft_fail \<or> late_soft_fail env db version incoming, roots))))) of
               Inl e \<Rightarrow> (Inl e, db)
             | Inr (soft_fail, prev_root, new_root) \<Rightarrow>
                 apply_decision env db incoming soft_fail is_timeline_event recovered prev_root new_root)"

text \<open>
  The whole pipeline; \<open>others\<close> is what other tasks do before the lock of the room is taken.
\<close>

definition upgrade_outlier_to_timeline_pdu ::
  "('r, 'k, 'v) incoming_env \<Rightarrow> ('r room_db \<Rightarrow> 'r room_db) \<Rightarrow> event \<Rightarrow> event \<Rightarrow> bool \<Rightarrow> bool \<Rightarrow> event_id option
   \<Rightarrow> 'r room_db \<Rightarrow> ((nat option \<times> bool) ires \<times> 'r room_db) option" where
  "upgrade_outlier_to_timeline_pdu env others create_event incoming is_timeline_event predecessors_were_recovered anchor db =
     (case check_at_event env create_event incoming anchor db of
        None \<Rightarrow> None
      | Some (Inl e, db1) \<Rightarrow> Some (Inl e, db1)
      | Some (Inr (Already pos), db1) \<Rightarrow> Some (Inr (Some pos, False), db1)
      | Some (Inr (Proceed ae), db1) \<Rightarrow>
          Some (apply_under_lock env create_event incoming is_timeline_event predecessors_were_recovered ae (others db1)))"

section \<open>Tips\<close>

lemma set_calculate_forward_extremities:
  "eid \<in> set (calculate_forward_extremities current incoming prevs False is_referenced is_forward) \<Longrightarrow>
     eid = incoming \<or> eid \<in> set current \<and> eid \<notin> set prevs \<and> \<not> is_referenced eid"
  by (auto simp: calculate_forward_extremities_def Let_def split: if_splits)

lemma calculate_forward_extremities_nonempty:
  "current \<noteq> [] \<or> \<not> soft_fail \<Longrightarrow>
     calculate_forward_extremities current incoming prevs soft_fail is_referenced is_forward \<noteq> []"
  by (auto simp: calculate_forward_extremities_def Let_def)

lemma drop_last_kept: "0 < n \<Longrightarrow> xs \<noteq> [] \<Longrightarrow> last xs \<in> set (drop (length xs - n) xs)"
  by (metis drop_eq_Nil diff_less last_drop last_in_set length_greater_0_conv not_less)

text \<open>Only the tips of a room change.\<close>

lemma set_forward_extremities_fields [simp]:
  "rd_room (set_forward_extremities n db eids t) = rd_room db"
  "rd_exists (set_forward_extremities n db eids t) = rd_exists db"
  "rd_version (set_forward_extremities n db eids t) = rd_version db"
  "rd_pdus (set_forward_extremities n db eids t) = rd_pdus db"
  "rd_timeline (set_forward_extremities n db eids t) = rd_timeline db"
  "rd_next_count (set_forward_extremities n db eids t) = rd_next_count db"
  "rd_metadata (set_forward_extremities n db eids t) = rd_metadata db"
  "rd_referenced (set_forward_extremities n db eids t) = rd_referenced db"
  "rd_roots (set_forward_extremities n db eids t) = rd_roots db"
  "rd_room_root (set_forward_extremities n db eids t) = rd_room_root db"
  "rd_rejection (set_forward_extremities n db eids t) = rd_rejection db"
  "rd_soft_fail (set_forward_extremities n db eids t) = rd_soft_fail db"
  "rd_partial (set_forward_extremities n db eids t) = rd_partial db"
  "rd_pending (set_forward_extremities n db eids t) = rd_pending db"
  by (simp_all add: set_forward_extremities_def Let_def)

lemma set_forward_extremities_kept:
  assumes "eid \<in> set (rd_leaves (set_forward_extremities n db eids t))"
  shows "eid \<in> set (rd_leaves db) \<and> filter (eligible_extremity db t) eids = [] \<or> eid \<in> set eids \<and> eligible_extremity db t eid"
  using assms by (auto simp: set_forward_extremities_def Let_def dest!: in_set_dropD split: if_splits)

lemma set_forward_extremities_sorted:
  "sorted (rd_leaves db) \<and> distinct (rd_leaves db) \<Longrightarrow>
     sorted (rd_leaves (set_forward_extremities n db eids t)) \<and> distinct (rd_leaves (set_forward_extremities n db eids t))"
  by (auto simp: set_forward_extremities_def Let_def)

lemma set_forward_extremities_length:
  assumes "length (rd_leaves db) \<le> n"
  shows "length (rd_leaves (set_forward_extremities n db eids t)) \<le> n"
proof -
  have "length (remdups (drop (length xs - n) xs)) \<le> n" for xs :: "event_id list"
    by (rule order_trans [OF length_remdups_leq]) simp
  with assms show ?thesis
    by (simp add: set_forward_extremities_def Let_def)
qed

text \<open>Whether the tree of the room is changed on one leaf or rebuilt, it holds the same state.\<close>

lemma append_to_state_exact:
  assumes "state_lib_ok (ie_lib env)" and "ev_state_key pdu = Some sk" and "append_to_state env db pdu = Inr root"
  shows "\<exists>st. sl_full (ie_lib env) root = Some st \<and>
           map_of st = (case rd_room_root db of
                          Some base \<Rightarrow> map_of (the (sl_full (ie_lib env) base))
                        | None \<Rightarrow> Map.empty)(sl_short (ie_lib env) (ev_kind pdu, sk) \<mapsto> ev_id pdu)"
proof (cases "rd_room_root db")
  case None
  let ?st = "[(sl_short (ie_lib env) (ev_kind pdu, sk), ev_id pdu)]"
  have "root = sl_build (ie_lib env) ?st"
    using assms(2,3) None by (simp add: append_to_state_def Let_def)
  moreover obtain st where "sl_full (ie_lib env) (sl_build (ie_lib env) ?st) = Some st" "map_of st = map_of ?st"
    using assms(1) unfolding state_lib_ok_def by (metis (no_types, lifting) distinct_singleton list.map(1,2))
  ultimately show ?thesis
    using None by simp
next
  case (Some base)
  then obtain current where current: "sl_full (ie_lib env) base = Some current"
    using assms(2,3) by (auto simp: append_to_state_def full_state_def Let_def try_res_eq_Inr)
  let ?k = "sl_short (ie_lib env) (ev_kind pdu, sk)"
  have distinct: "distinct (map fst (AList.update ?k (ev_id pdu) current))"
    using assms(1) current unfolding state_lib_ok_def by (blast intro: distinct_update)
  show ?thesis
  proof (cases "ie_lattice env base")
    case True
    then have "root = sl_mutate (ie_lib env) base [(?k, Some (ev_id pdu))]"
      using assms(2,3) Some current by (simp add: append_to_state_def full_state_def Let_def)
    moreover obtain st where "sl_full (ie_lib env) (sl_mutate (ie_lib env) base [(?k, Some (ev_id pdu))]) = Some st"
      "map_of st = apply_mutations [(?k, Some (ev_id pdu))] (map_of current)"
      using assms(1) current unfolding state_lib_ok_def by blast
    ultimately show ?thesis
      using Some current by simp
  next
    case False
    then have "root = sl_build (ie_lib env) (AList.update ?k (ev_id pdu) current)"
      using assms(2,3) Some current by (simp add: append_to_state_def full_state_def Let_def)
    moreover obtain st where "sl_full (ie_lib env) (sl_build (ie_lib env) (AList.update ?k (ev_id pdu) current)) = Some st"
      "map_of st = map_of (AList.update ?k (ev_id pdu) current)"
      using assms(1) distinct unfolding state_lib_ok_def by blast
    ultimately show ?thesis
      using Some current by (simp add: update_conv')
  qed
qed

end
