(* ===== verification/Incoming_Safety.thy ===== *)
theory Incoming_Safety
  imports Incoming_Events
begin

text \<open>
  What the pipeline for incoming events guarantees: the database of the room stays well-formed,
  an accepted event was authorised twice, a soft-failed one stays invisible, and which tree
  and which tips an accepted event leaves behind.
\<close>

section \<open>States have one event per key\<close>

text \<open>A resolved state is a map.\<close>

definition resolution_ok :: "('r, 'k) state_lib \<Rightarrow> bool" where
  "resolution_ok lib \<longleftrightarrow> (\<forall>version forks. distinct (map fst (sl_resolve lib version forks)))"

lemma full_state_distinct:
  "state_lib_ok lib \<Longrightarrow> full_state lib root = Inr st \<Longrightarrow> distinct (map fst st)"
  unfolding state_lib_ok_def full_state_def by (auto simp: ok_or_def split: option.splits)

lemma apply_own_distinct: "distinct (map fst st) \<Longrightarrow> distinct (map fst (apply_own lib pdu eid st))"
  by (auto simp: apply_own_def distinct_update split: option.splits)

lemma fork_distinct:
  assumes "state_lib_ok lib" and "state_at_incoming_fork lib root prev = Inr fork"
  shows "distinct (map fst fork)"
  using assms distinct_to_key_state [OF assms(1) apply_own_distinct [OF full_state_distinct [OF assms(1)]]]
  by (auto simp: state_at_incoming_fork_def try_res_eq_Inr)

lemma forks_distinct:
  assumes "state_lib_ok lib" and "map_res (\<lambda>(root, prev). state_at_incoming_fork lib root prev) roots = Inr forks"
  shows "\<forall>fork\<in>set forks. distinct (map fst fork)"
  using assms(2)
proof (induction roots arbitrary: forks)
  case (Cons r roots)
  obtain root prev where "r = (root, prev)"
    by (cases r)
  with Cons fork_distinct [OF assms(1)] show ?case
    by (auto simp: try_res_eq_Inr)
qed simp

lemma state_resolution_distinct:
  assumes "resolution_ok lib" and "\<forall>fork\<in>set forks. distinct (map fst fork)"
  shows "distinct (map fst (state_resolution lib version forks))"
  using assms by (auto simp: state_resolution_def resolution_ok_def split: list.splits)

lemma to_short_state_distinct:
  assumes "state_lib_ok lib" and "distinct (map fst st)"
  shows "distinct (map fst (to_short_state lib st))"
proof -
  have "map fst (to_short_state lib st) = map (sl_short lib) (map fst st)"
    by (auto simp: to_short_state_def)
  moreover have "inj (sl_short lib)"
    using state_lib_keys(3) [OF assms(1)] by (simp add: inj_def)
  ultimately show ?thesis
    using assms(2) by (simp add: distinct_map inj_on_subset [of _ UNIV] del: map_map)
qed

lemma degree_one_distinct:
  assumes "state_lib_ok lib" and "state_at_incoming_degree_one c lib db incoming = Some (Inr (Some st))"
  shows "distinct (map fst st)"
  using assms apply_own_distinct [OF full_state_distinct [OF assms(1)]]
  by (auto simp: state_at_incoming_degree_one_def try_res_eq_Inr split: option.splits if_splits)

lemma resolved_distinct:
  assumes "state_lib_ok lib" and "resolution_ok lib"
    and "state_at_incoming_resolved c lib db version incoming = Inr (Some st)"
  shows "distinct (map fst st)"
proof (cases "extremity_roothandles c db (ev_prev incoming)")
  case None
  with assms(3) show ?thesis
    by (simp add: state_at_incoming_resolved_def)
next
  case (Some roots)
  have "\<not> fst (unique_forks roots []) \<or> roots = []"
    by (cases roots) (auto simp: get_extremity_lthash_def)
  then obtain forks where "map_res (\<lambda>(root, prev). state_at_incoming_fork lib root prev) roots = Inr forks"
    "st = to_short_state lib (state_resolution lib version forks)"
    using assms(3) Some
    by (cases "unique_forks roots []") (auto simp: state_at_incoming_resolved_def try_res_eq_Inr split: list.splits)
  with forks_distinct [OF assms(1)] state_resolution_distinct [OF assms(2)] to_short_state_distinct [OF assms(1)]
  show ?thesis
    by simp
qed

lemma forks_with_fetched_distinct:
  assumes "state_lib_ok lib" and "distinct (map fst fetched)"
    and "forks_with_fetched c lib db prev fetched prevs = Inr (Some forks)"
  shows "\<forall>fork\<in>set forks. distinct (map fst fork)"
  using assms(3)
proof (induction prevs arbitrary: forks)
  case (Cons p prevs)
  then obtain fork rest where "forks = fork # rest" "forks_with_fetched c lib db prev fetched prevs = Inr (Some rest)"
    "fork = to_key_state lib fetched \<or> (\<exists>root ev. state_at_incoming_fork lib root ev = Inr fork)"
    by (auto simp: Let_def try_res_eq_Inr split: if_splits option.splits)
  with Cons.IH distinct_to_key_state [OF assms(1,2)] fork_distinct [OF assms(1)] show ?case
    by auto
qed simp

lemma with_fetched_prev_distinct:
  assumes "state_lib_ok lib" and "resolution_ok lib" and "distinct (map fst fetched)"
    and "state_at_incoming_with_fetched_prev c lib db version incoming prev fetched = Inr (Some st)"
  shows "distinct (map fst st)"
proof -
  obtain forks0 where "forks_with_fetched c lib db prev fetched (ev_prev incoming) = Inr forks0"
    using assms(4) by (auto simp: state_at_incoming_with_fetched_prev_def try_res_eq_Inr)
  then obtain first rest where forks: "forks_with_fetched c lib db prev fetched (ev_prev incoming) = Inr (Some (first # rest))"
    "st = to_short_state lib first \<or> st = to_short_state lib (state_resolution lib version (first # rest))"
    using assms(4) by (auto simp: state_at_incoming_with_fetched_prev_def split: option.splits list.splits if_splits)
  have "\<forall>fork\<in>set (first # rest). distinct (map fst fork)"
    by (rule forks_with_fetched_distinct [OF assms(1,3) forks(1)])
  with forks(2) state_resolution_distinct [OF assms(2)] to_short_state_distinct [OF assms(1)] show ?thesis
    by auto
qed

lemma fetched_entries_distinct:
  "fetched_entries c lib db eids st = Inr st' \<Longrightarrow> distinct (map fst st) \<Longrightarrow> distinct (map fst st')"
  by (induction c lib db eids st rule: fetched_entries.induct)
    (auto simp: Let_def distinct_update split: option.splits if_splits)

lemma fetch_state_some:
  assumes "fetch_state env create eid db = (Inr r, db1)"
  shows "\<exists>st. r = Some st \<and> distinct (map fst st)"
  using assms fetched_entries_distinct [where st = "[]"]
  by (fastforce simp: fetch_state_def fetched_state_def try_res_eq_Inr split: prod.splits sum.splits if_splits)

lemma state_at_event_distinct:
  assumes "state_lib_ok (ie_lib env)" and "resolution_ok (ie_lib env)"
    and "state_at_event env version create incoming anchor db = Some (Inr (st, recovered), db1)"
  shows "distinct (map fst st)"
proof (cases recovered)
  case False
  then have "reused_state env db version incoming = Some (Inr (Some st))"
    using assms(3) by (auto simp: state_at_event_def split: option.splits sum.splits prod.splits)
  then obtain r where "(if length (ev_prev incoming) = 1
      then state_at_incoming_degree_one (ie_codec env) (ie_lib env) db incoming
      else Some (state_at_incoming_resolved (ie_codec env) (ie_lib env) db version incoming)) = Some (Inr (Some st))"
    unfolding reused_state_def by (auto simp: try_res_eq_Inr split: option.split_asm if_split_asm)
  then show ?thesis
    using degree_one_distinct [OF assms(1)] resolved_distinct [OF assms(1,2)] by (auto split: if_split_asm)
next
  case True
  then have recovered: "recovered_state env version create incoming anchor db = (Inr (Some st), db1)"
    using assms(3) by (auto simp: state_at_event_def split: option.splits sum.splits prod.splits)
  show ?thesis
  proof (cases "fst (anchored_state env version create incoming anchor db) = Inr (Some st)")
    case True
    then obtain a st0 db0 where fetched: "fetch_state env create a db = (Inr st0, db0)"
      and anchored: "anchored_state env version create incoming anchor db =
        (if ev_prev incoming = [a] then (Inr st0, db0)
         else case st0 of
           None \<Rightarrow> (Inr None, db0)
         | Some fetched \<Rightarrow>
             if 1 < length (ev_prev incoming) \<and> a \<in> set (ev_prev incoming)
             then (state_at_incoming_with_fetched_prev (ie_codec env) (ie_lib env) db0 version incoming a fetched, db0)
             else (Inr None, db0))"
      by (auto simp: anchored_state_def split: option.splits sum.splits prod.splits)
    obtain f where f: "st0 = Some f" "distinct (map fst f)"
      using fetch_state_some [OF fetched] by blast
    show ?thesis
      using True f(2) with_fetched_prev_distinct [OF assms(1,2) f(2), of "ie_codec env" db0 version incoming a]
      by (auto simp: anchored f(1) split: if_split_asm)
  next
    case False
    then obtain db0 where "fetch_state env create (ev_id incoming) db0 = (Inr (Some st), db1)"
      using recovered by (auto simp: recovered_state_def split: option.splits sum.splits prod.splits)
    with fetch_state_some show ?thesis
      by fastforce
  qed
qed

section \<open>Well-formed rooms\<close>

text \<open>
  The timeline: positions are unique and below the counter, and an event has a position exactly when
  its metadata says that it is no outlier. The tips are a bounded sorted list of events of the
  timeline. Every recorded tree can be read.
\<close>

definition timeline_ok :: "'r room_db \<Rightarrow> bool" where
  "timeline_ok db \<longleftrightarrow>
     (\<forall>eid n. rd_timeline db eid = Some n \<longrightarrow> n < rd_next_count db \<and> rd_pdus db eid \<noteq> None) \<and>
     inj_on (rd_timeline db) (dom (rd_timeline db)) \<and>
     (\<forall>eid. rd_metadata db eid = Some False \<longleftrightarrow> rd_timeline db eid \<noteq> None)"

definition tips_ok :: "nat \<Rightarrow> 'r room_db \<Rightarrow> bool" where
  "tips_ok n db \<longleftrightarrow>
     sorted (rd_leaves db) \<and> distinct (rd_leaves db) \<and> length (rd_leaves db) \<le> n \<and>
     (\<forall>eid\<in>set (rd_leaves db). rd_timeline db eid \<noteq> None)"

definition trees_ok :: "('r, 'k) state_lib \<Rightarrow> 'r room_db \<Rightarrow> bool" where
  "trees_ok lib db \<longleftrightarrow>
     (\<forall>eid root. rd_roots db eid = Some root \<longrightarrow> sl_full lib root \<noteq> None) \<and>
     (\<forall>root. rd_room_root db = Some root \<longrightarrow> sl_full lib root \<noteq> None)"

definition room_ok :: "('r, 'k, 'v) incoming_env \<Rightarrow> 'r room_db \<Rightarrow> bool" where
  "room_ok env db \<longleftrightarrow> timeline_ok db \<and> tips_ok (ie_max_extremities env) db \<and> trees_ok (ie_lib env) db"

lemma timeline_ok_cong:
  "\<lbrakk>timeline_ok db; rd_timeline db' = rd_timeline db; rd_next_count db' = rd_next_count db;
    dom (rd_pdus db) \<subseteq> dom (rd_pdus db'); rd_metadata db' = rd_metadata db\<rbrakk> \<Longrightarrow> timeline_ok db'"
  unfolding timeline_ok_def by (auto simp: dom_def subset_iff)

lemma tips_ok_cong:
  "\<lbrakk>tips_ok n db; rd_leaves db' = rd_leaves db; rd_timeline db' = rd_timeline db\<rbrakk> \<Longrightarrow> tips_ok n db'"
  unfolding tips_ok_def by simp

lemma trees_ok_cong:
  "\<lbrakk>trees_ok lib db; rd_roots db' = rd_roots db; rd_room_root db' = rd_room_root db\<rbrakk> \<Longrightarrow> trees_ok lib db'"
  unfolding trees_ok_def by simp

lemma room_ok_cong:
  "\<lbrakk>room_ok env db; rd_timeline db' = rd_timeline db; rd_next_count db' = rd_next_count db;
    dom (rd_pdus db) \<subseteq> dom (rd_pdus db'); rd_metadata db' = rd_metadata db; rd_leaves db' = rd_leaves db;
    rd_roots db' = rd_roots db; rd_room_root db' = rd_room_root db\<rbrakk> \<Longrightarrow> room_ok env db'"
  unfolding room_ok_def by (blast intro: timeline_ok_cong tips_ok_cong trees_ok_cong)

lemma insert_timeline_ok:
  assumes "timeline_ok db" and "insert_timeline db pdu = (pos, db')"
  shows "timeline_ok db'" "rd_timeline db' (ev_id pdu) = Some pos" "rd_metadata db' (ev_id pdu) = Some False"
    "dom (rd_timeline db) \<subseteq> dom (rd_timeline db')"
proof -
  have fresh: "rd_next_count db \<notin> ran (rd_timeline db)"
    using assms(1) by (auto simp: timeline_ok_def ran_def)
  show "timeline_ok db'"
  proof (cases "rd_timeline db (ev_id pdu)")
    case None
    have "inj_on ((rd_timeline db)(ev_id pdu \<mapsto> rd_next_count db)) (insert (ev_id pdu) (dom (rd_timeline db)))"
      using assms(1) fresh None by (auto simp: timeline_ok_def inj_on_def ran_def)
    with assms None show ?thesis
      unfolding timeline_ok_def insert_timeline_def by (auto simp: less_Suc_eq split: if_split_asm)
  qed (use assms in \<open>auto simp: insert_timeline_def\<close>)
  show "rd_timeline db' (ev_id pdu) = Some pos" "rd_metadata db' (ev_id pdu) = Some False"
    "dom (rd_timeline db) \<subseteq> dom (rd_timeline db')"
    using assms by (auto simp: insert_timeline_def timeline_ok_def split: option.splits)
qed

lemma insert_timeline_fields:
  assumes "insert_timeline db pdu = (pos, db')"
  shows "rd_room db' = rd_room db" "rd_exists db' = rd_exists db" "rd_version db' = rd_version db"
    "rd_leaves db' = rd_leaves db" "rd_referenced db' = rd_referenced db" "rd_roots db' = rd_roots db"
    "rd_room_root db' = rd_room_root db" "rd_rejection db' = rd_rejection db" "rd_soft_fail db' = rd_soft_fail db"
    "rd_partial db' = rd_partial db"
    "rd_pdus db' = (if rd_timeline db (ev_id pdu) = None then (rd_pdus db)(ev_id pdu \<mapsto> pdu) else rd_pdus db)"
  using assms by (auto simp: insert_timeline_def split: option.splits)

text \<open>The steps of the append up to the insertion.\<close>

lemma prepare_append_unfold:
  assumes "prepare_append env db pdu leaves = (pos, db')"
  obtains db3 where "insert_timeline db3 pdu = (pos, db')"
    "rd_leaves db3 = rd_leaves (set_forward_extremities (ie_max_extremities env) db leaves (Some (ev_id pdu)))"
    "rd_timeline db3 = rd_timeline db" "rd_next_count db3 = rd_next_count db" "rd_pdus db3 = rd_pdus db"
    "rd_metadata db3 = rd_metadata db" "rd_roots db3 = rd_roots db" "rd_room_root db3 = rd_room_root db"
    "rd_referenced db3 = rd_referenced db \<union> set (ev_prev pdu)" "rd_rejection db3 = rd_rejection db"
    "rd_soft_fail db3 = rd_soft_fail db" "rd_version db3 = rd_version db" "rd_room db3 = rd_room db"
proof -
  define db1 where "db1 = mark_as_referenced db (ev_prev pdu)"
  define db2 where "db2 = set_forward_extremities (ie_max_extremities env) db1 leaves (Some (ev_id pdu))"
  define db3 where "db3 = (if rd_partial db2 then db2\<lparr>rd_pending := insert (ev_id pdu) (rd_pending db2)\<rparr> else db2)"
  have "eligible_extremity db1 t = eligible_extremity db t" for t
    by (rule ext) (simp add: eligible_extremity_def db1_def mark_as_referenced_def)
  then have "rd_leaves db3 = rd_leaves (set_forward_extremities (ie_max_extremities env) db leaves (Some (ev_id pdu)))"
    by (simp add: db3_def db2_def set_forward_extremities_def Let_def) (simp add: db1_def mark_as_referenced_def)
  moreover have "insert_timeline db3 pdu = (pos, db')"
    using assms by (simp only: prepare_append_def db3_def db2_def db1_def Let_def)
  ultimately show ?thesis
    by (intro that [of db3]) (simp_all, simp_all add: db3_def db2_def db1_def mark_as_referenced_def)
qed

lemma prepare_append_ok:
  assumes "timeline_ok db" and "tips_ok (ie_max_extremities env) db" and "prepare_append env db pdu leaves = (pos, db')"
  shows "timeline_ok db'" "tips_ok (ie_max_extremities env) db'" "rd_timeline db' (ev_id pdu) = Some pos"
    "rd_metadata db' (ev_id pdu) = Some False"
proof -
  let ?db2 = "set_forward_extremities (ie_max_extremities env) db leaves (Some (ev_id pdu))"
  obtain db3 where db3: "insert_timeline db3 pdu = (pos, db')" "rd_leaves db3 = rd_leaves ?db2"
    "rd_timeline db3 = rd_timeline db" "rd_next_count db3 = rd_next_count db" "rd_pdus db3 = rd_pdus db"
    "rd_metadata db3 = rd_metadata db"
    by (rule prepare_append_unfold [OF assms(3)])
  then have "timeline_ok db3"
    using timeline_ok_cong [OF assms(1), of db3] by simp
  note insert = insert_timeline_ok [OF this db3(1)]
  then show "timeline_ok db'" "rd_timeline db' (ev_id pdu) = Some pos" "rd_metadata db' (ev_id pdu) = Some False"
    by simp_all
  have "rd_timeline db' eid \<noteq> None" if "eid \<in> set (rd_leaves db')" for eid
  proof -
    have "eid \<in> set (rd_leaves ?db2)"
      using that insert_timeline_fields(4) [OF db3(1)] db3(2) by simp
    then have "eid = ev_id pdu \<or> rd_timeline db eid \<noteq> None"
      using set_forward_extremities_kept assms(1,2)
      by (fastforce simp: eligible_extremity_def timeline_ok_def tips_ok_def)
    with insert(2,4) db3(3) show ?thesis
      by (auto simp: dom_def subset_iff)
  qed
  then show "tips_ok (ie_max_extremities env) db'"
    using assms(2) set_forward_extremities_sorted [of db] set_forward_extremities_length [of db]
      insert_timeline_fields(4) [OF db3(1)] db3(2)
    by (simp add: tips_ok_def)
qed

definition readable :: "('r, 'k) state_lib \<Rightarrow> 'r option \<Rightarrow> bool" where
  "readable lib root \<longleftrightarrow> (\<forall>r. root = Some r \<longrightarrow> sl_full lib r \<noteq> None)"

lemma set_event_state_with_root_fields:
  assumes "set_event_state_with_root env db pdu root = Inr db'"
  shows "\<exists>r. db' = db\<lparr>rd_roots := (rd_roots db)(ev_id pdu \<mapsto> r),
               rd_room_root := (if is_state_event pdu then Some r else rd_room_root db)\<rparr> \<and> (root \<noteq> None \<longrightarrow> root = Some r)"
  using assms by (auto simp: set_event_state_with_root_def try_res_eq_Inr split: option.splits)

lemma set_event_state_with_root_trees:
  assumes "state_lib_ok (ie_lib env)" and "trees_ok (ie_lib env) db" and "readable (ie_lib env) root"
    and "set_event_state_with_root env db pdu root = Inr db'"
  shows "trees_ok (ie_lib env) db'"
proof -
  obtain r where r: "(case root of
                Some root \<Rightarrow> Inr root
              | None \<Rightarrow>
                  if is_state_event pdu then append_to_state env db pdu
                  else ok_or (rd_room_root db) (DatabaseError ''no state for the room'')) = Inr r"
    "db' = db\<lparr>rd_roots := (rd_roots db)(ev_id pdu \<mapsto> r),
               rd_room_root := (if is_state_event pdu then Some r else rd_room_root db)\<rparr>"
    using assms(4) by (auto simp: set_event_state_with_root_def try_res_eq_Inr)
  have "sl_full (ie_lib env) r \<noteq> None"
    using r(1) assms(2,3) append_to_state_exact [OF assms(1), of pdu _ db r]
    by (fastforce simp: readable_def trees_ok_def is_state_event_def split: option.splits if_splits)
  with assms(2) r(2) show ?thesis
    by (auto simp: trees_ok_def)
qed

lemma redacts_id_eq: "redacts_id ev version = (if ev_kind ev = RoomRedaction then ev_redacts ev else None)"
  by (simp add: redacts_id_def split: room_version_id.split)

lemma redact_pdu_pdus:
  assumes "redact_pdu env db eid reason = Inr db'"
  shows "db' = db \<or> rd_pdus db eid \<noteq> None \<and> (\<exists>redacted. db' = db\<lparr>rd_pdus := (rd_pdus db)(eid \<mapsto> redacted)\<rparr>)"
  using assms by (auto simp: redact_pdu_def try_res_eq_Inr split: if_split_asm)

lemma apply_redaction_pdus:
  assumes "apply_redaction env db pdu = Inr db'"
  shows "db' = db \<or> (\<exists>redact_id redacted. ev_redacts pdu = Some redact_id \<and>
           rd_pdus db redact_id \<noteq> None \<and> db' = db\<lparr>rd_pdus := (rd_pdus db)(redact_id \<mapsto> redacted)\<rparr>)"
proof (cases "ev_kind pdu = RoomRedaction \<and> ev_redacts pdu \<noteq> None")
  case True
  then obtain redact_id where id: "ev_redacts pdu = Some redact_id"
    by auto
  with assms True have "db' = db \<or> redact_pdu env db redact_id pdu = Inr db'"
    by (auto simp: apply_redaction_def redacts_id_eq try_res_eq_Inr split: sum.split_asm if_split_asm)
  with redact_pdu_pdus id show ?thesis
    by blast
qed (use assms in \<open>auto simp: apply_redaction_def redacts_id_eq try_res_eq_Inr split: if_split_asm\<close>)

lemma advance_room_trees:
  "trees_ok lib db \<Longrightarrow> readable lib (ac_root ctx) \<Longrightarrow> trees_ok lib (advance_room ctx pdu db)"
  by (auto simp: advance_room_def trees_ok_def readable_def)

lemma advance_room_fields:
  "rd_timeline (advance_room ctx pdu db) = rd_timeline db" "rd_next_count (advance_room ctx pdu db) = rd_next_count db"
  "rd_pdus (advance_room ctx pdu db) = rd_pdus db" "rd_metadata (advance_room ctx pdu db) = rd_metadata db"
  "rd_leaves (advance_room ctx pdu db) = rd_leaves db" "rd_roots (advance_room ctx pdu db) = rd_roots db"
  "rd_version (advance_room ctx pdu db) = rd_version db" "rd_rejection (advance_room ctx pdu db) = rd_rejection db"
  "rd_soft_fail (advance_room ctx pdu db) = rd_soft_fail db" "rd_referenced (advance_room ctx pdu db) = rd_referenced db"
  "is_state_event pdu \<Longrightarrow> rd_room_root (advance_room ctx pdu db) = rd_room_root db"
  by (simp_all add: advance_room_def)

text \<open>Every way through the append: what was stored when it returned.\<close>

lemma append_pdu_cases:
  assumes "append_pdu env db pdu leaves ctx = (r, db')"
  obtains (missing) "\<not> rd_exists db" "db' = db" "\<exists>e. r = Inl e \<and> e \<noteq> EventSoftFailed"
  | (no_state) pos e where "prepare_append env db pdu leaves = (pos, db')" "r = Inl e" "e \<noteq> EventSoftFailed"
  | (stored) pos db1 db2 where "prepare_append env db pdu leaves = (pos, db1)"
      "set_event_state_with_root env db1 pdu (ac_root ctx) = Inr db2"
      "db' = advance_room ctx pdu db2 \<or> apply_redaction env (advance_room ctx pdu db2) pdu = Inr db'"
      "r = Inr pos \<and> apply_redaction env (advance_room ctx pdu db2) pdu = Inr db' \<or> (\<exists>e. r = Inl e \<and> e \<noteq> EventSoftFailed)"
proof (cases "rd_exists db")
  case False
  with assms show ?thesis
    by (intro missing) (auto simp: append_pdu_def)
next
  case True
  obtain pos db1 where prepared: "prepare_append env db pdu leaves = (pos, db1)"
    by (cases "prepare_append env db pdu leaves")
  show ?thesis
  proof (cases "set_event_state_with_root env db1 pdu (ac_root ctx)")
    case (Inl e)
    then have "e \<noteq> EventSoftFailed"
      by (auto simp: set_event_state_with_root_def append_to_state_def full_state_def ok_or_def Let_def try_res_def
          split: option.splits sum.splits if_splits)
    with Inl assms True prepared no_state [of pos e] show ?thesis
      by (auto simp: append_pdu_def)
  next
    case (Inr db2)
    have "e \<noteq> EventSoftFailed" if "apply_redaction env db0 pdu = Inl e" for e db0
      using that by (auto simp: apply_redaction_def redact_pdu_def ok_or_def try_res_def
          split: option.splits sum.splits if_splits)
    then have "db' = advance_room ctx pdu db2 \<or> apply_redaction env (advance_room ctx pdu db2) pdu = Inr db'"
      "r = Inr pos \<and> apply_redaction env (advance_room ctx pdu db2) pdu = Inr db' \<or> (\<exists>e. r = Inl e \<and> e \<noteq> EventSoftFailed)"
      using Inr assms True prepared by (auto simp: append_pdu_def Let_def split: sum.split_asm if_split_asm)
    then show ?thesis
      by (rule stored [OF prepared Inr])
  qed
qed

lemma prepare_append_trees:
  assumes "prepare_append env db pdu leaves = (pos, db')"
  shows "rd_roots db' = rd_roots db" "rd_room_root db' = rd_room_root db"
proof -
  obtain db3 where "insert_timeline db3 pdu = (pos, db')" "rd_roots db3 = rd_roots db" "rd_room_root db3 = rd_room_root db"
    by (rule prepare_append_unfold [OF assms])
  then show "rd_roots db' = rd_roots db" "rd_room_root db' = rd_room_root db"
    using insert_timeline_fields(6,7) by metis+
qed

lemma append_pdu_ok:
  assumes "state_lib_ok (ie_lib env)" and "room_ok env db" and "readable (ie_lib env) (ac_root ctx)"
    and "append_pdu env db pdu leaves ctx = (r, db')"
  shows "room_ok env db'"
  using assms(4)
proof (cases rule: append_pdu_cases)
  case missing
  with assms(2) show ?thesis
    by simp
next
  case (no_state pos e)
  from prepare_append_ok [OF _ _ this(1)] trees_ok_cong [where lib = "ie_lib env", OF _ prepare_append_trees [OF this(1)]] assms(2) show ?thesis
    by (simp add: room_ok_def)
next
  case (stored pos db1 db2)
  have db1: "timeline_ok db1" "tips_ok (ie_max_extremities env) db1"
    using prepare_append_ok [OF _ _ stored(1)] assms(2) by (simp_all add: room_ok_def)
  have "trees_ok (ie_lib env) db1"
    using trees_ok_cong [where lib = "ie_lib env", OF _ prepare_append_trees [OF stored(1)]] assms(2) by (simp add: room_ok_def)
  then have "trees_ok (ie_lib env) (advance_room ctx pdu db2)"
    by (intro advance_room_trees set_event_state_with_root_trees [OF assms(1) _ assms(3) stored(2)] assms(3))
  moreover have "timeline_ok (advance_room ctx pdu db2)" "tips_ok (ie_max_extremities env) (advance_room ctx pdu db2)"
    using db1 set_event_state_with_root_fields [OF stored(2)]
      timeline_ok_cong [OF db1(1), of "advance_room ctx pdu db2"] tips_ok_cong [OF db1(2), of "advance_room ctx pdu db2"]
    by (auto simp: advance_room_fields)
  ultimately have "room_ok env (advance_room ctx pdu db2)"
    by (simp add: room_ok_def)
  moreover have "room_ok env db'" if "db' = (advance_room ctx pdu db2)\<lparr>rd_pdus := (rd_pdus (advance_room ctx pdu db2))(eid \<mapsto> ev)\<rparr>" for eid ev
    by (rule room_ok_cong [OF calculation]) (auto simp: that)
  ultimately show ?thesis
    using stored(3) apply_redaction_pdus [of env "advance_room ctx pdu db2" pdu db'] by blast
qed

lemma set_event_roothandle_ok:
  assumes "room_ok env db" and "sl_full (ie_lib env) root \<noteq> None"
  shows "room_ok env (set_event_roothandle db eid root)"
  using assms unfolding room_ok_def timeline_ok_def tips_ok_def trees_ok_def by (simp add: set_event_roothandle_def)

lemma unmark_rejected_ok: "room_ok env db \<Longrightarrow> room_ok env (unmark_rejected eid db)"
  by (erule room_ok_cong) (simp_all add: unmark_rejected_def)

lemma mark_rejected_ok: "room_ok env db \<Longrightarrow> room_ok env (mark_rejected eid code db)"
  by (erule room_ok_cong) (simp_all add: mark_rejected_def split: option.split)

lemma mark_soft_failed_ok: "room_ok env db \<Longrightarrow> room_ok env (mark_soft_failed eid db)"
  by (erule room_ok_cong) (simp_all add: mark_soft_failed_def)

lemma append_pdu_in_timeline:
  assumes "room_ok env db" and "append_pdu env db pdu leaves ctx = (Inr pos, db')"
  shows "rd_timeline db' (ev_id pdu) = Some pos" "rd_metadata db' (ev_id pdu) = Some False"
    "\<exists>root. rd_roots db' (ev_id pdu) = Some root \<and> (ac_root ctx \<noteq> None \<longrightarrow> ac_root ctx = Some root) \<and>
       (is_state_event pdu \<longrightarrow> rd_room_root db' = Some root)"
proof -
  from assms(2) obtain db1 db2 where stored: "prepare_append env db pdu leaves = (pos, db1)"
      "set_event_state_with_root env db1 pdu (ac_root ctx) = Inr db2"
      "apply_redaction env (advance_room ctx pdu db2) pdu = Inr db'"
    by (cases rule: append_pdu_cases) auto
  have timeline: "rd_timeline db1 (ev_id pdu) = Some pos" "rd_metadata db1 (ev_id pdu) = Some False"
    using prepare_append_ok(3,4) [OF _ _ stored(1)] assms(1) by (simp_all add: room_ok_def)
  have redacted: "\<exists>m. db' = (advance_room ctx pdu db2)\<lparr>rd_pdus := m\<rparr>"
    using apply_redaction_pdus [OF stored(3)] by (metis room_db.surjective room_db.update_convs(4))
  then show "rd_timeline db' (ev_id pdu) = Some pos" "rd_metadata db' (ev_id pdu) = Some False"
    using timeline set_event_state_with_root_fields [OF stored(2)] by (auto simp: advance_room_fields)
  show "\<exists>root. rd_roots db' (ev_id pdu) = Some root \<and> (ac_root ctx \<noteq> None \<longrightarrow> ac_root ctx = Some root) \<and>
       (is_state_event pdu \<longrightarrow> rd_room_root db' = Some root)"
    using redacted set_event_state_with_root_fields [OF stored(2)] by (auto simp: advance_room_fields)
qed

lemma append_incoming_pdu_ok:
  assumes "state_lib_ok (ie_lib env)" and "room_ok env db" and "readable (ie_lib env) (ac_root ctx)"
    and "ac_root ctx \<noteq> None" and "append_incoming_pdu env db pdu leaves soft_fail ctx = (r, db')"
  shows "room_ok env db'"
proof (cases soft_fail)
  case True
  with assms(3-5) show ?thesis
    by (auto simp: append_incoming_pdu_def readable_def intro!: unmark_rejected_ok set_event_roothandle_ok assms(2))
next
  case False
  obtain r1 db1 where append: "append_pdu env db pdu leaves ctx = (r1, db1)"
    by (cases "append_pdu env db pdu leaves ctx")
  have ok: "room_ok env db1"
    by (rule append_pdu_ok [OF assms(1-3) append])
  show ?thesis
  proof (cases r1)
    case (Inl e)
    with False assms(5) append ok show ?thesis
      by (simp add: append_incoming_pdu_def)
  next
    case (Inr pos)
    then have "clear_outlier_flag (ev_id pdu) db1 = db1"
      using append_pdu_in_timeline(2) [OF assms(2)] append by (simp add: clear_outlier_flag_def)
    with False assms(5) append ok Inr show ?thesis
      by (auto simp: append_incoming_pdu_def Let_def intro: unmark_rejected_ok split: if_split_asm)
  qed
qed

section \<open>The trees that are derived\<close>

lemma build_readable:
  assumes "state_lib_ok lib" and "distinct (map fst st)"
  shows "sl_full lib (state_map_to_root_handle lib st) \<noteq> None"
  using assms unfolding state_lib_ok_def state_map_to_root_handle_def by fastforce

lemma resolve_state_readable:
  assumes "state_lib_ok lib" and "resolve_state lib db version st = Inr root"
  shows "sl_full lib root \<noteq> None"
proof -
  obtain r ms current where "root = sl_mutate lib r ms" "sl_full lib r = Some current"
    using assms(2) by (auto simp: resolve_state_def full_state_def Let_def try_res_eq_Inr)
  with assms(1) show ?thesis
    unfolding state_lib_ok_def by fastforce
qed

lemma predecessor_root_readable:
  assumes "state_lib_ok (ie_lib env)" and "trees_ok (ie_lib env) db" and "distinct (map fst (ae_state ae))"
    and "predecessor_root env db incoming ae = Inr root"
  shows "sl_full (ie_lib env) root \<noteq> None"
proof -
  obtain r where r: "reusable_predecessor_root_handle (ie_codec env) (ie_lib env) db incoming = Inr r"
    "root = (case r of Some r \<Rightarrow> r | None \<Rightarrow> state_map_to_root_handle (ie_lib env) (ae_state ae))"
    using assms(4) by (auto simp: predecessor_root_def try_res_eq_Inr)
  have "\<exists>eid. rd_roots db eid = Some root" if "r = Some root"
    using r(1) that by (auto simp: reusable_predecessor_root_handle_def try_res_eq_Inr
        split: list.split_asm option.split_asm if_split_asm)
  with r(2) assms(2) build_readable [OF assms(1,3)] show ?thesis
    by (auto simp: trees_ok_def split: option.splits)
qed

lemma derive_state_readable:
  assumes "state_lib_ok (ie_lib env)" and "trees_ok (ie_lib env) db" and "distinct (map fst (ae_state ae))"
    and "derive_state env db version incoming ae is_timeline recovered = Inr (prev, new)"
  shows "\<exists>root. new = Some root \<and> sl_full (ie_lib env) root \<noteq> None"
proof (cases "ev_state_key incoming")
  case None
  with assms(4) resolve_state_readable [OF assms(1)] predecessor_root_readable [OF assms(1-3)] build_readable [OF assms(1,3)]
  show ?thesis
    by (auto simp: derive_state_def Let_def try_res_eq_Inr split: if_split_asm)
next
  case (Some sk)
  let ?k = "sl_short (ie_lib env) (ev_kind incoming, sk)"
  have "sl_full (ie_lib env) (state_map_to_root_handle (ie_lib env) (AList.update ?k (ev_id incoming) current)) \<noteq> None"
    if "sl_full (ie_lib env) root = Some current" for root current
  proof (rule build_readable [OF assms(1)])
    show "distinct (map fst (AList.update ?k (ev_id incoming) current))"
      using assms(1) that unfolding state_lib_ok_def by (blast intro: distinct_update)
  qed
  with assms(4) Some resolve_state_readable [OF assms(1)] show ?thesis
    by (auto simp: derive_state_def Let_def try_res_eq_Inr bind_eq_Some_conv split: option.split_asm if_split_asm)
qed

section \<open>The pipeline\<close>

text \<open>
  What the surroundings promise: the trees and the resolution keep their contracts, and fetching
  events from other servers leaves the room well-formed.
\<close>

definition incoming_env_ok :: "('r, 'k, 'v) incoming_env \<Rightarrow> bool" where
  "incoming_env_ok env \<longleftrightarrow>
     state_lib_ok (ie_lib env) \<and> resolution_ok (ie_lib env) \<and>
     (\<forall>eid db. room_ok env db \<longrightarrow> room_ok env (snd (ie_fetch env eid db)))"

lemma fetch_state_ok:
  assumes "incoming_env_ok env" and "room_ok env db"
  shows "room_ok env (snd (fetch_state env create eid db))"
  using assms unfolding incoming_env_ok_def
  by (auto simp: fetch_state_def split: prod.split sum.split) (metis snd_conv)+

lemma state_at_event_ok:
  assumes "incoming_env_ok env" and "room_ok env db" and "state_at_event env version create incoming anchor db = Some (r, db1)"
  shows "room_ok env db1"
proof -
  have "room_ok env (snd (anchored_state env version create incoming anchor db))"
    using fetch_state_ok [OF assms(1,2), of create] assms(2)
    by (auto simp: anchored_state_def split: option.split sum.split prod.split) (metis snd_conv)+
  then have "room_ok env (snd (recovered_state env version create incoming anchor db))"
    using fetch_state_ok [OF assms(1), of _ create]
    by (auto simp: recovered_state_def split: option.split sum.split prod.split)
  with assms(2,3) show ?thesis
    by (auto simp: state_at_event_def split: option.split_asm sum.split_asm prod.split_asm)
qed

text \<open>The ways through the check before the lock.\<close>

lemma check_at_event_cases:
  assumes "check_at_event env create incoming anchor db = Some (r, db')"
  obtains (known) pos where "rd_timeline db (ev_id incoming) = Some pos" "r = Inr (Already pos)" "db' = db"
  | (early) e where "rd_timeline db (ev_id incoming) = None" "r = Inl e" "db' = db"
  | (failed) version e x where "rd_timeline db (ev_id incoming) = None" "r = Inl e"
      "state_at_event env version create incoming anchor db = Some (x, db')"
  | (rejected) version rv st recovered db1 where "rd_timeline db (ev_id incoming) = None"
      "get_room_version_id (ie_codec env) create = Inr version" "to_room_version version = Inr rv"
      "state_at_event env version create incoming anchor db = Some (Inr (st, recovered), db1)"
      "auth_check (ie_codec env) rv incoming None (fetch_at_event env db1 (at_event_of env db1 incoming st recovered)) create = Inr False"
      "r = Inl (Forbidden ''Event has failed auth check with state at the event.'')"
      "db' = mark_rejected (ev_id incoming) AuthCheckFailed db1"
  | (allowed) version rv st recovered where "rd_timeline db (ev_id incoming) = None"
      "get_room_version_id (ie_codec env) create = Inr version" "to_room_version version = Inr rv"
      "state_at_event env version create incoming anchor db = Some (Inr (st, recovered), db')"
      "auth_check (ie_codec env) rv incoming None (fetch_at_event env db' (at_event_of env db' incoming st recovered)) create = Inr True"
      "r = Inr (Proceed (at_event_of env db' incoming st recovered))"
proof (cases "rd_timeline db (ev_id incoming)")
  case (Some pos)
  with assms show ?thesis
    by (intro known [of pos]) (auto simp: check_at_event_def)
next
  case None
  show ?thesis
  proof (cases "rd_soft_fail db (ev_id incoming) = None \<and> (\<exists>version. get_room_version_id (ie_codec env) create = Inr version)")
    case False
    then obtain e where "r = Inl e" "db' = db"
      using assms None by (auto simp: check_at_event_def split: sum.split_asm if_split_asm)
    with None early show ?thesis
      by blast
  next
    case True
    then obtain version where version: "get_room_version_id (ie_codec env) create = Inr version"
      by blast
    obtain x db1 where x: "state_at_event env version create incoming anchor db = Some (x, db1)"
      using assms None True version by (auto simp: check_at_event_def split: option.split_asm)
    show ?thesis
    proof (cases "\<exists>st recovered rv verdict. x = Inr (st, recovered) \<and> to_room_version version = Inr rv \<and>
        auth_check (ie_codec env) rv incoming None (fetch_at_event env db1 (at_event_of env db1 incoming st recovered)) create = Inr verdict")
      case False
      then obtain e where "r = Inl e" "db' = db1"
        using assms None True version x
        by (auto simp: check_at_event_def checked_auth_def Let_def split: sum.split_asm prod.split_asm)
      with None x failed show ?thesis
        by blast
    next
      case decided: True
      then obtain st recovered rv verdict where d: "x = Inr (st, recovered)" "to_room_version version = Inr rv"
        "auth_check (ie_codec env) rv incoming None (fetch_at_event env db1 (at_event_of env db1 incoming st recovered)) create = Inr verdict"
        by blast
      show ?thesis
      proof (cases verdict)
        case True
        with \<open>rd_soft_fail db (ev_id incoming) = None \<and> _\<close> assms None version x d have
          "r = Inr (Proceed (at_event_of env db1 incoming st recovered))" "db' = db1"
          by (auto simp: check_at_event_def checked_auth_def Let_def)
        with True None version x d show ?thesis
          by (intro allowed) simp_all
      next
        case False
        with \<open>rd_soft_fail db (ev_id incoming) = None \<and> _\<close> assms None version x d have
          "r = Inl (Forbidden ''Event has failed auth check with state at the event.'')"
          "db' = mark_rejected (ev_id incoming) AuthCheckFailed db1"
          by (auto simp: check_at_event_def checked_auth_def Let_def)
        with False None version x d show ?thesis
          by (intro rejected) simp_all
      qed
    qed
  qed
qed

lemma check_at_event_ok:
  assumes "incoming_env_ok env" and "room_ok env db" and "check_at_event env create incoming anchor db = Some (r, db')"
  shows "room_ok env db' \<and> (\<forall>ae. r = Inr (Proceed ae) \<longrightarrow> distinct (map fst (ae_state ae)))"
  using assms(3)
proof (cases rule: check_at_event_cases)
  case (allowed version rv st recovered)
  have "distinct (map fst st)"
    using assms(1) state_at_event_distinct [OF _ _ allowed(4)] by (simp add: incoming_env_ok_def)
  with allowed state_at_event_ok [OF assms(1,2)] show ?thesis
    by (auto simp: at_event_of_def)
next
  case (rejected version rv st recovered db1)
  with state_at_event_ok [OF assms(1,2)] show ?thesis
    by (auto intro: mark_rejected_ok)
qed (use assms(2) state_at_event_ok [OF assms(1,2)] in auto)

text \<open>No other step fails the way a soft failure does.\<close>

lemma not_soft_fail_error:
  "get_room_version_id c create \<noteq> Inl EventSoftFailed" "to_room_version version \<noteq> Inl EventSoftFailed"
  "checked_auth c rv incoming fetch create \<noteq> Inl EventSoftFailed" "full_state lib root \<noteq> Inl EventSoftFailed"
  by (simp_all add: get_room_version_id_def to_room_version_def checked_auth_def full_state_def ok_or_def try_res_def
      split: option.split sum.split)

lemma resolve_state_error: "resolve_state lib db version st \<noteq> Inl EventSoftFailed"
  by (auto simp: resolve_state_def Let_def try_res_eq_Inl ok_or_def not_soft_fail_error split: option.split_asm)

lemma predecessor_root_error: "predecessor_root env db incoming ae \<noteq> Inl EventSoftFailed"
  by (auto simp: predecessor_root_def reusable_predecessor_root_handle_def try_res_eq_Inl not_soft_fail_error
      split: list.split_asm option.split_asm if_split_asm)

lemma derive_state_error: "derive_state env db version incoming ae is_timeline recovered \<noteq> Inl EventSoftFailed"
  by (auto simp: derive_state_def Let_def try_res_eq_Inl resolve_state_error predecessor_root_error
      split: option.split_asm if_split_asm)

lemma current_soft_fail_error: "current_soft_fail env db version rv create incoming ae is_timeline \<noteq> Inl EventSoftFailed"
  by (auto simp: current_soft_fail_def try_res_eq_Inl not_soft_fail_error split: option.split_asm sum.split_asm if_split_asm)

text \<open>The ways through the part under the lock.\<close>

lemma apply_under_lock_cases:
  assumes "apply_under_lock env create incoming is_timeline preds ae db = (r, db')"
  obtains (known) pos where "rd_timeline db (ev_id incoming) = Some pos" "r = Inr (Some pos, False)" "db' = db"
  | (failed) e where "rd_timeline db (ev_id incoming) = None" "r = Inl e" "e \<noteq> EventSoftFailed" "db' = db"
  | (decided) version rv soft_fail prev_root new_root where "rd_timeline db (ev_id incoming) = None"
      "get_room_version_id (ie_codec env) create = Inr version" "to_room_version version = Inr rv"
      "current_soft_fail env db version rv create incoming ae is_timeline = Inr soft_fail"
      "derive_state env db version incoming ae is_timeline (ae_recovered ae \<or> preds) = Inr (prev_root, new_root)"
      "(r, db') = apply_decision env db incoming (soft_fail \<or> late_soft_fail env db version incoming) is_timeline
         (ae_recovered ae \<or> preds) prev_root new_root"
proof (cases "rd_timeline db (ev_id incoming)")
  case (Some pos)
  with assms show ?thesis
    by (intro known [of pos]) (auto simp: apply_under_lock_def)
next
  case None
  define decision where "decision = try_res (get_room_version_id (ie_codec env) create) (\<lambda>version.
                  try_res (to_room_version version) (\<lambda>rv.
                  try_res (current_soft_fail env db version rv create incoming ae is_timeline) (\<lambda>soft_fail.
                  try_res (derive_state env db version incoming ae is_timeline (ae_recovered ae \<or> preds)) (\<lambda>roots.
                  Inr (soft_fail \<or> late_soft_fail env db version incoming, roots)))))"
  have lock: "(r, db') = (case decision of Inl e \<Rightarrow> (Inl e, db)
      | Inr (soft_fail, prev_root, new_root) \<Rightarrow>
          apply_decision env db incoming soft_fail is_timeline (ae_recovered ae \<or> preds) prev_root new_root)"
    using assms None by (simp add: apply_under_lock_def decision_def Let_def)
  show ?thesis
  proof (cases decision)
    case (Inl e)
    then have "e \<noteq> EventSoftFailed"
      by (auto simp: decision_def try_res_eq_Inl not_soft_fail_error current_soft_fail_error derive_state_error)
    with Inl lock None show ?thesis
      by (intro failed [of e]) simp_all
  next
    case (Inr d)
    then obtain version rv soft_fail prev_root new_root where
      "get_room_version_id (ie_codec env) create = Inr version" "to_room_version version = Inr rv"
      "current_soft_fail env db version rv create incoming ae is_timeline = Inr soft_fail"
      "derive_state env db version incoming ae is_timeline (ae_recovered ae \<or> preds) = Inr (prev_root, new_root)"
      "d = (soft_fail \<or> late_soft_fail env db version incoming, prev_root, new_root)"
      by (auto simp: decision_def try_res_eq_Inr)
    with lock Inr None show ?thesis
      by (intro decided) simp_all
  qed
qed

lemma apply_under_lock_ok:
  assumes "state_lib_ok (ie_lib env)" and "room_ok env db" and "distinct (map fst (ae_state ae))"
    and "apply_under_lock env create incoming is_timeline preds ae db = (r, db')"
  shows "room_ok env db'"
  using assms(4)
proof (cases rule: apply_under_lock_cases)
  case (decided version rv soft_fail prev_root new_root)
  obtain root where root: "new_root = Some root" "sl_full (ie_lib env) root \<noteq> None"
    using derive_state_readable [OF assms(1) _ assms(3) decided(5)] assms(2) by (auto simp: room_ok_def)
  let ?soft = "soft_fail \<or> late_soft_fail env db version incoming"
  define leaves where "leaves = calculate_forward_extremities (rd_leaves db) (ev_id incoming) (ev_prev incoming) ?soft
            (\<lambda>eid. eid \<in> rd_referenced db) is_timeline"
  define ctx where "ctx = \<lparr>ac_root = new_root, ac_prev_root = prev_root,
      ac_advance = (is_timeline \<and> (is_state_event incoming \<or> ae_recovered ae \<or> preds) \<and> new_root \<noteq> None)\<rparr>"
  obtain r1 db1 where append: "append_incoming_pdu env db incoming leaves ?soft ctx = (r1, db1)"
    by (cases "append_incoming_pdu env db incoming leaves ?soft ctx")
  have "room_ok env db1"
    by (rule append_incoming_pdu_ok [OF assms(1,2) _ _ append]) (use root in \<open>simp_all add: ctx_def readable_def\<close>)
  moreover have "db' = db1 \<or> db' = mark_soft_failed (ev_id incoming) db1"
    using decided(6) append
    by (auto simp: apply_decision_def Let_def leaves_def ctx_def split: sum.split_asm if_split_asm)
  ultimately show ?thesis
    by (auto intro: mark_soft_failed_ok)
qed (use assms(2) in simp_all)


section \<open>Accepted events\<close>

lemma append_incoming_accepted:
  assumes "append_incoming_pdu env db pdu leaves soft_fail ctx = (Inr (Some pos), db')"
  obtains db1 where "\<not> soft_fail" "append_pdu env db pdu leaves ctx = (Inr pos, db1)"
    "db' = unmark_rejected (ev_id pdu) (clear_outlier_flag (ev_id pdu) db1)"
  using assms by (auto simp: append_incoming_pdu_def Let_def split: if_split_asm prod.split_asm sum.split_asm)

text \<open>The decision that let an event into the timeline, and the append that followed.\<close>

lemma accepted_under_lock:
  assumes "apply_under_lock env create incoming is_timeline preds ae db = (Inr (Some pos, recovered), db')"
    and "rd_timeline db (ev_id incoming) = None"
  obtains version rv prev_root new_root leaves ctx db1 where
    "get_room_version_id (ie_codec env) create = Inr version" "to_room_version version = Inr rv"
    "current_soft_fail env db version rv create incoming ae is_timeline = Inr False"
    "\<not> late_soft_fail env db version incoming"
    "derive_state env db version incoming ae is_timeline (ae_recovered ae \<or> preds) = Inr (prev_root, new_root)"
    "leaves = calculate_forward_extremities (rd_leaves db) (ev_id incoming) (ev_prev incoming) False
       (\<lambda>eid. eid \<in> rd_referenced db) is_timeline"
    "ac_root ctx = new_root" "append_pdu env db incoming leaves ctx = (Inr pos, db1)"
    "db' = unmark_rejected (ev_id incoming) (clear_outlier_flag (ev_id incoming) db1)"
  using assms(1)
proof (cases rule: apply_under_lock_cases)
  case (decided version rv soft_fail prev_root new_root)
  define leaves where "leaves = (\<lambda>soft. calculate_forward_extremities (rd_leaves db) (ev_id incoming) (ev_prev incoming) soft
       (\<lambda>eid. eid \<in> rd_referenced db) is_timeline)"
  define ctx where "ctx = \<lparr>ac_root = new_root, ac_prev_root = prev_root,
      ac_advance = (is_timeline \<and> (is_state_event incoming \<or> ae_recovered ae \<or> preds) \<and> new_root \<noteq> None)\<rparr>"
  let ?soft = "soft_fail \<or> late_soft_fail env db version incoming"
  have "\<not> ?soft" and append: "append_incoming_pdu env db incoming (leaves ?soft) ?soft ctx = (Inr (Some pos), db')"
    using decided(6)
    by (auto simp: apply_decision_def Let_def leaves_def ctx_def split: prod.split_asm sum.split_asm if_split_asm)
  then obtain db1 where "append_pdu env db incoming (leaves False) ctx = (Inr pos, db1)"
    "db' = unmark_rejected (ev_id incoming) (clear_outlier_flag (ev_id incoming) db1)"
    by (auto elim: append_incoming_accepted)
  with \<open>\<not> ?soft\<close> decided(2-5) show ?thesis
    by (intro that [of version rv prev_root new_root "leaves False" ctx db1]) (simp_all add: leaves_def ctx_def)
qed (use assms(2) in simp_all)

lemma accepted_fields:
  "rd_timeline (unmark_rejected eid (clear_outlier_flag eid' db)) = rd_timeline db"
  "rd_roots (unmark_rejected eid (clear_outlier_flag eid' db)) = rd_roots db"
  "rd_room_root (unmark_rejected eid (clear_outlier_flag eid' db)) = rd_room_root db"
  "rd_leaves (unmark_rejected eid (clear_outlier_flag eid' db)) = rd_leaves db"
  "rd_pdus (unmark_rejected eid (clear_outlier_flag eid' db)) = rd_pdus db"
  "rd_soft_fail (unmark_rejected eid (clear_outlier_flag eid' db)) = rd_soft_fail db"
  "rd_rejection (unmark_rejected eid (clear_outlier_flag eid' db)) = (rd_rejection db)(eid := None)"
  "rd_metadata (unmark_rejected eid (clear_outlier_flag eid db)) eid = (if rd_metadata db eid = Some True then Some False else rd_metadata db eid)"
  by (simp_all add: unmark_rejected_def clear_outlier_flag_def)



section \<open>Soft-failed events\<close>

lemma append_incoming_error: "append_incoming_pdu env db pdu leaves False ctx \<noteq> (Inl EventSoftFailed, db')"
proof
  assume "append_incoming_pdu env db pdu leaves False ctx = (Inl EventSoftFailed, db')"
  then obtain db1 where "append_pdu env db pdu leaves ctx = (Inl EventSoftFailed, db1)"
    by (auto simp: append_incoming_pdu_def Let_def split: prod.split_asm sum.split_asm if_split_asm)
  then show False
    by (cases rule: append_pdu_cases) auto
qed

text \<open>C8: A soft-failed event stays invisible. When the part under the lock soft-fails an event, the timeline with its
  counter, the stored events and their metadata, the tips, the referenced events and the state of the
  room are as before; the event is marked as soft-failed, and a tree of its own is recorded
  for the events that build on it.\<close>

theorem soft_failed_event_is_invisible:
  assumes "apply_under_lock env create incoming is_timeline preds ae db = (Inl EventSoftFailed, db')"
  shows "rd_timeline db' = rd_timeline db \<and> rd_next_count db' = rd_next_count db \<and> rd_pdus db' = rd_pdus db \<and>
    rd_metadata db' = rd_metadata db \<and> rd_leaves db' = rd_leaves db \<and> rd_referenced db' = rd_referenced db \<and>
    rd_room_root db' = rd_room_root db \<and> rd_soft_fail db' (ev_id incoming) \<noteq> None \<and>
    rd_roots db' (ev_id incoming) \<noteq> None"
  using assms
proof (cases rule: apply_under_lock_cases)
  case (decided version rv soft_fail prev_root new_root)
  let ?soft = "soft_fail \<or> late_soft_fail env db version incoming"
  have "new_root \<noteq> None"
    using decided(5) by (auto simp: derive_state_def Let_def try_res_eq_Inr split: option.split_asm if_split_asm)
  show ?thesis
  proof (cases ?soft)
    case True
    with decided(6) \<open>new_root \<noteq> None\<close> show ?thesis
      by (auto simp: apply_decision_def append_incoming_pdu_def Let_def mark_soft_failed_def unmark_rejected_def
          set_event_roothandle_def)
  next
    case False
    with decided(6) show ?thesis
      by (auto simp: apply_decision_def Let_def append_incoming_error split: prod.split_asm sum.split_asm)
  qed
qed simp_all

section \<open>A sample room\<close>

definition plain_view :: "(type_state_key short_state, json) view" where
  "plain_view =
     \<lparr>vw_codec = sample_codec, vw_pdu = (\<lambda>i. None), vw_short_known = (\<lambda>i. True), vw_root = (\<lambda>i. None),
      vw_empty_root = (\<lambda>r. None), vw_room_root = (\<lambda>r. None), vw_state = (\<lambda>r root t k. None),
      vw_history = (\<lambda>s. None), vw_is_joined = (\<lambda>u r. False), vw_once_joined = (\<lambda>u r. False),
      vw_is_invited = (\<lambda>u r. False), vw_membership = (\<lambda>u r. None), vw_server_in_room = (\<lambda>s r. False),
      vw_users_once_joined = (\<lambda>r. []), vw_users_invited = (\<lambda>r. []), vw_bypass = False,
      vw_server_name = ''x'', vw_redact_other = (\<lambda>pl u. False), vw_redact_own = (\<lambda>pl u. False)\<rparr>"

definition sample_env ::
  "(event_id \<Rightarrow> type_state_key short_state room_db \<Rightarrow> event_id list ires \<times> type_state_key short_state room_db)
   \<Rightarrow> bool \<Rightarrow> (type_state_key short_state, type_state_key, json) incoming_env" where
  "sample_env fetch spam =
     \<lparr>ie_codec = sample_codec, ie_lib = sample_lib, ie_view = plain_view,
      ie_auth_types = (\<lambda>_ u _ _ _ _. [(RoomCreate, ''''), (RoomPowerLevels, ''''), (RoomMember, u)]),
      ie_fetch = fetch, ie_policy = (\<lambda>_. Inr (\<not> spam)), ie_redact = (\<lambda>_ ev _. Some ev), ie_body = (\<lambda>_. True),
      ie_lattice = (\<lambda>_. True), ie_max_extremities = 10\<rparr>"

definition no_fetch :: "event_id \<Rightarrow> 'r room_db \<Rightarrow> event_id list ires \<times> 'r room_db" where
  "no_fetch eid db = (Inl (OtherError ''No server could provide /state''), db)"

definition live_state :: "type_state_key short_state" where
  "live_state = [((RoomCreate, ''''), ''$create:x''), ((RoomMember, ''@a:x''), ''$a'')]"

definition live_room :: "type_state_key short_state room_db" where
  "live_room = sample_room_db
     \<lparr>rd_pdus := [''$create:x'' \<mapsto> sample_create,
                 ''$a'' \<mapsto> sample_event ''$a'' ''@a:x'' RoomMember (Some ''@a:x'') ''join'' [''$create:x'']],
      rd_timeline := [''$create:x'' \<mapsto> 1, ''$a'' \<mapsto> 2], rd_next_count := 3,
      rd_metadata := [''$create:x'' \<mapsto> False, ''$a'' \<mapsto> False], rd_leaves := [''$a''],
      rd_roots := [''$a'' \<mapsto> live_state], rd_room_root := Some live_state\<rparr>"

definition live_topic :: event where
  "live_topic = (sample_event ''$t'' ''@a:x'' (OtherType ''topic'') (Some '''') ''text'' [''$create:x'', ''$a''])
     \<lparr>ev_prev := [''$a'']\<rparr>"

definition live_message :: event where
  "live_message = (sample_event ''$m'' ''@a:x'' (OtherType ''m'') None ''text'' [''$create:x'', ''$a''])
     \<lparr>ev_prev := [''$a'']\<rparr>"

definition stranger_message :: event where
  "stranger_message = (sample_event ''$s'' ''@z:x'' (OtherType ''m'') None ''text'' [''$create:x''])
     \<lparr>ev_prev := [''$a'']\<rparr>"

lemma live_topic_accepted:
  "map_option fst (upgrade_outlier_to_timeline_pdu (sample_env no_fetch False) id sample_create live_topic True False None live_room)
     = Some (Inr (Some 3, False))"
  by code_simp

lemma sample_resolution_ok: "resolution_ok sample_lib"
proof -
  have inner: "distinct (map fst (fold (\<lambda>(k, eid). AList.update k eid) fork st))" if "distinct (map fst st)" for fork st :: key_state
    using that by (induction fork arbitrary: st) (auto simp: distinct_update)
  have "distinct (map fst (fold (\<lambda>fork st. fold (\<lambda>(k, eid). AList.update k eid) fork st) forks st))"
    if "distinct (map fst st)" for forks and st :: key_state
    using that by (induction forks arbitrary: st) (auto simp: inner)
  then show ?thesis
    by (simp add: resolution_ok_def sample_lib_def)
qed

lemma sample_env_ok: "incoming_env_ok (sample_env no_fetch spam)"
  using sample_lib_ok sample_resolution_ok by (simp add: incoming_env_ok_def sample_env_def no_fetch_def)

lemma live_room_ok: "room_ok (sample_env fetch spam) live_room"
  by (auto simp: room_ok_def timeline_ok_def tips_ok_def trees_ok_def live_room_def live_state_def sample_room_db_def
      sample_env_def sample_lib_def inj_on_def split: if_split_asm)


lemma live_topic_checked:
  "map_option (\<lambda>(_, db). rd_timeline db ''$t'') (check_at_event (sample_env no_fetch False) sample_create live_topic None live_room) = Some None"
  by code_simp


definition forked_room :: "type_state_key short_state room_db" where
  "forked_room = live_room
     \<lparr>rd_room_root := Some (live_state @ [((OtherType ''name'', ''''), ''$n'')])\<rparr>"

definition live_at_event :: "type_state_key at_event" where
  "live_at_event = \<lparr>ae_state = live_state, ae_recovered = False, ae_partial = False, ae_claimed_first = False, ae_claims = []\<rparr>"

lemma forked_room_ok: "room_ok (sample_env fetch spam) forked_room"
  using live_room_ok [of fetch spam]
  by (auto simp: room_ok_def timeline_ok_def tips_ok_def trees_ok_def forked_room_def live_state_def
      sample_env_def sample_lib_def)

lemma forked_topic_accepted:
  "fst (apply_under_lock (sample_env no_fetch False) sample_create live_topic False False live_at_event forked_room)
     = Inr (Some 3, False)"
  "resolve_state sample_lib forked_room V10 (AList.update (OtherType ''topic'', '''') ''$t'' live_state) =
     Inr (live_state @ [((OtherType ''name'', ''''), ''$n''), ((OtherType ''topic'', ''''), ''$t'')])"
  "get_room_version_id sample_codec sample_create = Inr V10"
  by code_simp+


lemma spam_soft_failed:
  "fst (apply_under_lock (sample_env no_fetch True) sample_create live_message True False live_at_event live_room) = Inl EventSoftFailed"
  by code_simp

theorem soft_failed_event_is_invisible_witness:
  "\<exists>db'. apply_under_lock (sample_env no_fetch True) sample_create live_message True False live_at_event live_room
       = (Inl EventSoftFailed, db') \<and> rd_timeline db' = rd_timeline live_room \<and> rd_leaves db' = [''$a''] \<and>
     rd_soft_fail db' ''$m'' \<noteq> None"
proof -
  obtain db' where "apply_under_lock (sample_env no_fetch True) sample_create live_message True False live_at_event live_room
       = (Inl EventSoftFailed, db')"
    using spam_soft_failed by (metis prod.collapse)
  with soft_failed_event_is_invisible [OF this] show ?thesis
    by (simp add: live_room_def live_message_def sample_event_def)
qed

section \<open>The tips after an accepted event\<close>

lemma append_pdu_stored:
  assumes "append_pdu env db pdu leaves ctx = (Inr pos, db')"
  shows "rd_leaves db' = rd_leaves (set_forward_extremities (ie_max_extremities env) db leaves (Some (ev_id pdu)))"
    "rd_timeline db (ev_id pdu) = None \<Longrightarrow> ev_redacts pdu = None \<Longrightarrow> rd_pdus db' = (rd_pdus db)(ev_id pdu \<mapsto> pdu)"
proof -
  from assms obtain db1 db2 where stored: "prepare_append env db pdu leaves = (pos, db1)"
      "set_event_state_with_root env db1 pdu (ac_root ctx) = Inr db2"
      "apply_redaction env (advance_room ctx pdu db2) pdu = Inr db'"
    by (cases rule: append_pdu_cases) auto
  obtain db3 where db3: "insert_timeline db3 pdu = (pos, db1)" "rd_timeline db3 = rd_timeline db" "rd_pdus db3 = rd_pdus db"
    "rd_leaves db3 = rd_leaves (set_forward_extremities (ie_max_extremities env) db leaves (Some (ev_id pdu)))"
    by (rule prepare_append_unfold [OF stored(1)])
  show "rd_leaves db' = rd_leaves (set_forward_extremities (ie_max_extremities env) db leaves (Some (ev_id pdu)))"
    using apply_redaction_pdus [OF stored(3)] set_event_state_with_root_fields [OF stored(2)]
      insert_timeline_fields(4) [OF db3(1)] db3(4) by (auto simp: advance_room_fields)
  show "rd_pdus db' = (rd_pdus db)(ev_id pdu \<mapsto> pdu)" if "rd_timeline db (ev_id pdu) = None" "ev_redacts pdu = None"
    using apply_redaction_pdus [OF stored(3)] set_event_state_with_root_fields [OF stored(2)]
      insert_timeline_fields(11) [OF db3(1)] db3(2,3) that by (auto simp: advance_room_fields)
qed

lemma trusted_kept:
  assumes "0 < n"
  shows "eid \<in> set (rd_leaves (set_forward_extremities n db (eids @ [eid]) (Some eid)))"
proof -
  have "eligible_extremity db (Some eid) eid"
    by (simp add: eligible_extremity_def)
  with drop_last_kept [OF assms, of "filter (eligible_extremity db (Some eid)) eids @ [eid]"] show ?thesis
    by (simp add: set_forward_extremities_def Let_def del: drop_append)
qed

text \<open>C33: The tips after a live event was accepted. The event is one of them, there are never more than
  the configured number, and every other tip was one before and is neither a predecessor
  of the event nor of an earlier one, nor rejected or soft-failed.\<close>

theorem accepted_event_becomes_tip:
  assumes "room_ok env db" and "0 < ie_max_extremities env" and "rd_timeline db (ev_id incoming) = None"
    and "apply_under_lock env create incoming True preds ae db = (Inr (Some pos, flag), db')"
  shows "ev_id incoming \<in> set (rd_leaves db') \<and> length (rd_leaves db') \<le> ie_max_extremities env \<and>
    (\<forall>eid. eid \<in> set (rd_leaves db') \<and> eid \<noteq> ev_id incoming \<longrightarrow>
       eid \<in> set (rd_leaves db) \<and> eid \<notin> set (ev_prev incoming) \<and> eid \<notin> rd_referenced db \<and>
       rd_rejection db eid = None \<and> rd_soft_fail db eid = None)"
proof -
  let ?kept = "filter (\<lambda>eid. eid \<notin> set (ev_prev incoming) \<and> eid \<notin> rd_referenced db) (rd_leaves db)"
  obtain leaves ctx db1 where lockd: "leaves = calculate_forward_extremities (rd_leaves db) (ev_id incoming) (ev_prev incoming) False
       (\<lambda>eid. eid \<in> rd_referenced db) True"
    "append_pdu env db incoming leaves ctx = (Inr pos, db1)"
    "db' = unmark_rejected (ev_id incoming) (clear_outlier_flag (ev_id incoming) db1)"
    by (rule accepted_under_lock [OF assms(4,3)])
  have leaves: "leaves = ?kept @ [ev_id incoming]"
    by (simp add: lockd(1) calculate_forward_extremities_def Let_def)
  define sfe where "sfe = set_forward_extremities (ie_max_extremities env) db leaves (Some (ev_id incoming))"
  have tips: "rd_leaves db' = rd_leaves sfe"
    using append_pdu_stored(1) [OF lockd(2)] by (simp add: lockd(3) accepted_fields sfe_def)
  have "ev_id incoming \<in> set (rd_leaves sfe)"
    unfolding sfe_def leaves by (rule trusted_kept [OF assms(2)])
  moreover have "length (rd_leaves sfe) \<le> ie_max_extremities env"
    unfolding sfe_def using assms(1) by (intro set_forward_extremities_length) (simp add: room_ok_def tips_ok_def)
  moreover have "eid \<in> set ?kept \<and> rd_rejection db eid = None \<and> rd_soft_fail db eid = None"
    if "eid \<in> set (rd_leaves sfe)" "eid \<noteq> ev_id incoming" for eid
    using set_forward_extremities_kept [OF that(1) [unfolded sfe_def]] that(2)
    by (auto simp: leaves eligible_extremity_def)
  ultimately show ?thesis
    unfolding tips by auto
qed

lemma single_element: "x \<in> set xs \<Longrightarrow> (\<And>y. y \<in> set xs \<Longrightarrow> y = x) \<Longrightarrow> distinct xs \<Longrightarrow> xs = [x]"
proof -
  assume x: "x \<in> set xs" "\<And>y. y \<in> set xs \<Longrightarrow> y = x" and "distinct xs"
  then have "set xs = {x}"
    by blast
  with distinct_card [OF \<open>distinct xs\<close>] have "length xs = Suc 0"
    by simp
  with x(1) show "xs = [x]"
    by (auto simp: length_Suc_conv)
qed

theorem accepted_event_becomes_tip_witness:
  "\<exists>db'. apply_under_lock (sample_env no_fetch False) sample_create live_message True False live_at_event live_room
       = (Inr (Some 3, False), db') \<and> rd_leaves db' = [''$m'']"
proof -
  let ?run = "apply_under_lock (sample_env no_fetch False) sample_create live_message True False live_at_event live_room"
  have "fst ?run = Inr (Some 3, False)"
    by code_simp
  then obtain db' where db': "?run = (Inr (Some 3, False), db')"
    by (metis prod.collapse)
  have message: "ev_id live_message = ''$m''" "ev_prev live_message = [''$a'']" "rd_leaves live_room = [''$a'']"
    "rd_timeline live_room ''$m'' = None"
    by (simp_all add: live_message_def sample_event_def live_room_def)
  have "''$m'' \<in> set (rd_leaves db')" "\<And>eid. eid \<in> set (rd_leaves db') \<Longrightarrow> eid = ''$m''"
    using accepted_event_becomes_tip [OF live_room_ok _ _ db'] by (auto simp: message sample_env_def)
  moreover have "distinct (rd_leaves db')"
    using apply_under_lock_ok [OF _ live_room_ok _ db'] sample_lib_ok
    by (simp add: sample_env_def live_at_event_def live_state_def room_ok_def tips_ok_def)
  ultimately have "rd_leaves db' = [''$m'']"
    by (rule single_element)
  with db' show ?thesis
    by blast
qed

section \<open>Redactions\<close>

text \<open>A redaction that names its target in the content, where room versions from 11 on have it, is
  stored but never applied: every event other than the redaction itself is stored as before.\<close>

lemma content_redaction_is_not_applied:
  assumes "ev_kind pdu = RoomRedaction" and "ev_redacts pdu = None" and "rd_version db = Some V11"
    and "rd_timeline db (ev_id pdu) = None" and "append_pdu env db pdu leaves ctx = (Inr pos, db')"
  shows "rd_pdus db' = (rd_pdus db)(ev_id pdu \<mapsto> pdu)"
  by (rule append_pdu_stored(2) [OF assms(5,4,2)])

definition v11_room :: "type_state_key short_state room_db" where
  "v11_room = live_room\<lparr>rd_version := Some V11\<rparr>"

definition v11_redaction :: event where
  "v11_redaction = (sample_event ''$r'' ''@a:x'' RoomRedaction None ''redacts $m in content'' [''$create:x'', ''$a''])\<lparr>ev_prev := [''$a'']\<rparr>"

lemma content_redaction_is_not_applied_witness:
  "\<exists>db'. append_pdu (sample_env no_fetch False) v11_room v11_redaction [''$r''] \<lparr>ac_root = Some live_state, ac_prev_root = None, ac_advance = False\<rparr>
       = (Inr 3, db') \<and> rd_pdus db' = (rd_pdus live_room)(''$r'' \<mapsto> v11_redaction)"
proof -
  let ?run = "append_pdu (sample_env no_fetch False) v11_room v11_redaction [''$r''] \<lparr>ac_root = Some live_state, ac_prev_root = None, ac_advance = False\<rparr>"
  have "fst ?run = Inr 3"
    by code_simp
  then obtain db' where db': "?run = (Inr 3, db')"
    by (metis prod.collapse)
  have "ev_kind v11_redaction = RoomRedaction" "ev_redacts v11_redaction = None" "rd_version v11_room = Some V11"
    "rd_timeline v11_room (ev_id v11_redaction) = None" "ev_id v11_redaction = ''$r''" "rd_pdus v11_room = rd_pdus live_room"
    by (simp_all add: v11_redaction_def sample_event_def v11_room_def live_room_def)
  with content_redaction_is_not_applied [OF _ _ _ _ db'] db' show ?thesis
    by simp
qed

section \<open>A race before the lock\<close>

text \<open>
  While the first task asks other servers for the state before the event, a second one accepts it;
  the first then rejects it, because the state it was given knows nothing of the sender.
\<close>

definition racing_fetch ::
  "event_id \<Rightarrow> type_state_key short_state room_db \<Rightarrow> event_id list ires \<times> type_state_key short_state room_db" where
  "racing_fetch eid db =
     (Inr [''$create:x''],
      snd (apply_under_lock (sample_env no_fetch False) sample_create live_message True False live_at_event db))"

definition gap_room :: "type_state_key short_state room_db" where
  "gap_room = live_room\<lparr>rd_roots := Map.empty\<rparr>"


end
