(* ===== verification/Outliers.thy ===== *)
theory Outliers
  imports Incoming_Safety
begin

text \<open>
  The first checks of an event from another server (\<^verbatim>\<open>event_handler/handle_outlier_pdu.rs\<close>,
  \<^verbatim>\<open>outlier/mod.rs\<close>): size, signatures and hashes, the events it cites for its authorisation, fetched
  from the other server where they are missing, and the authorisation rules on those events.
  An event that passes is stored outside the timeline; one that fails is stored with a
  rejection. Fetched auth chains are handled by the same function, to a depth that only the
  other server bounds; the model counts the depth down and is \<open>None\<close> when it is used up.
\<close>

section \<open>Interfaces\<close>

datatype verified = VerifiedAll | VerifiedSignatures | VerifyFailed

datatype auth_recovery_stage = BeforeStateIds | AfterStateIds

datatype outlier_error =
    KnownRejected
  | TooLarge
  | NoRoomVersion
  | SignatureFailed
  | RedactionFailed
  | NotAPdu
  | WrongRoom
  | DependsOnRejected event_id
  | AuthEventNotState
  | MissingAuthEvents "event_id list"
  | DuplicateAuthKey
  | CreateNotCited
  | ClaimedAuthFailed
  | UnsupportedVersionPanic

text \<open>
  The canonical JSON of an event is a value of the type \<open>'j\<close>. \<open>oe_refetch\<close> is the answer of the
  sender's own server to the first and to the second request for an event, with the identifier
  computed from it, if that server is not the one the event came from; \<open>oe_event_auth\<close> is the auth chain that
  the other server returns; \<open>oe_auth\<close> is the third-party authorisation check.
\<close>

record 'j outlier_env =
  oe_fits :: "'j \<Rightarrow> bool"
  oe_verify :: "'j \<Rightarrow> room_version_id \<Rightarrow> verified"
  oe_bypassed :: "event_id \<Rightarrow> bool"
  oe_refetch :: "bool \<Rightarrow> event_id \<Rightarrow> (event_id \<times> 'j) option"
  oe_redact :: "'j \<Rightarrow> room_version_id \<Rightarrow> 'j option"
  oe_parse :: "event_id \<Rightarrow> 'j \<Rightarrow> event option"
  oe_event_auth :: "event_id \<Rightarrow> (event_id \<times> 'j) list option"
  oe_auth :: "event \<Rightarrow> (type_state_key \<rightharpoonup> event) \<Rightarrow> state_resolution_version \<Rightarrow> bool"

type_synonym 'a outlier_res = "(outlier_error, 'a) result"
type_synonym ('a, 'r) outlier_run = "('a outlier_res \<times> 'r room_db) option"

definition check_room_id :: "'v codec \<Rightarrow> room_id \<Rightarrow> event \<Rightarrow> bool" where
  "check_room_id c room pdu = (case room_id_or_hash c pdu of Some r \<Rightarrow> r = room | None \<Rightarrow> True)"

text \<open>An event of the timeline is never overwritten; metadata is written for what can be parsed.\<close>

definition add_pdu_outlier :: "'j outlier_env \<Rightarrow> event_id \<Rightarrow> 'j \<Rightarrow> 'r room_db \<Rightarrow> 'r room_db" where
  "add_pdu_outlier env eid json db =
     (if rd_metadata db eid = Some False then db
      else case oe_parse env eid json of
             None \<Rightarrow> db\<lparr>rd_pdus := (rd_pdus db)(eid := None)\<rparr>
           | Some pdu \<Rightarrow> db\<lparr>rd_pdus := (rd_pdus db)(eid \<mapsto> pdu), rd_metadata := (rd_metadata db)(eid \<mapsto> True)\<rparr>)"

text \<open>The event is stored with a rejection.\<close>

definition reject_outlier :: "'j outlier_env \<Rightarrow> event_id \<Rightarrow> 'j \<Rightarrow> rejection_code \<Rightarrow> 'r room_db \<Rightarrow> 'r room_db" where
  "reject_outlier env eid json code db = add_pdu_outlier env eid json (mark_rejected eid code db)"

definition auth_event_poisons :: "'r room_db \<Rightarrow> event_id \<Rightarrow> bool" where
  "auth_event_poisons db eid =
     (case rd_rejection db eid of
        None \<Rightarrow> False
      | Some code \<Rightarrow> \<not> is_retryable code \<and> \<not> (code = AuthCheckFailed \<and> rd_partial db))"

section \<open>Signatures and hashes\<close>

text \<open>
  An event whose hash does not fit is replaced: by the copy that the sender's own server gives to a
  second request, when the copy it gave to a first one was intact, or else by its redacted form.
\<close>

definition redacted_copy :: "'j outlier_env \<Rightarrow> event_id \<Rightarrow> 'j \<Rightarrow> room_version_id \<Rightarrow> 'r room_db \<Rightarrow> 'j outlier_res \<times> 'r room_db" where
  "redacted_copy env eid json version db =
     (case oe_redact env json version of
        Some redacted \<Rightarrow> (Inr redacted, db)
      | None \<Rightarrow> (Inl RedactionFailed, mark_rejected eid InvalidPduFormat (add_pdu_outlier env eid json db)))"

definition pristine_copy :: "'j outlier_env \<Rightarrow> event_id \<Rightarrow> 'j \<Rightarrow> room_version_id \<Rightarrow> 'r room_db \<Rightarrow> 'j outlier_res \<times> 'r room_db" where
  "pristine_copy env eid json version db =
     (let recovered = (case oe_refetch env False eid of
                         Some (eid', clean) \<Rightarrow> eid' = eid \<and> oe_verify env clean version = VerifiedAll
                       | None \<Rightarrow> False)
      in if recovered
         then (case oe_refetch env True eid of
                 Some (_, clean) \<Rightarrow> (Inr clean, db)
               | None \<Rightarrow> redacted_copy env eid json version db)
         else redacted_copy env eid json version db)"

text \<open>The outcome: a known event to return at once, or the JSON to go on with.\<close>

definition verify_incoming ::
  "'j outlier_env \<Rightarrow> 'v codec \<Rightarrow> event_id \<Rightarrow> 'j \<Rightarrow> bool \<Rightarrow> room_version_id \<Rightarrow> 'r room_db
   \<Rightarrow> (event + 'j) outlier_res \<times> 'r room_db" where
  "verify_incoming env c eid json skip_sig_verify version db =
     (if skip_sig_verify \<or> oe_bypassed env eid then (Inr (Inr json), db)
      else case oe_verify env json version of
             VerifiedAll \<Rightarrow> (Inr (Inr json), db)
           | VerifiedSignatures \<Rightarrow>
               (case rd_pdus db eid of
                  Some known_pdu \<Rightarrow>
                    if check_room_id c (rd_room db) known_pdu then (Inr (Inl known_pdu), db) else (Inl WrongRoom, db)
                | None \<Rightarrow>
                    (case pristine_copy env eid json version db of
                       (Inl e, db1) \<Rightarrow> (Inl e, db1)
                     | (Inr json1, db1) \<Rightarrow> (Inr (Inr json1), db1)))
           | VerifyFailed \<Rightarrow>
               (Inl SignatureFailed, mark_rejected eid SignatureVerificationFailed (add_pdu_outlier env eid json db)))"

section \<open>The cited events\<close>

text \<open>The cited events that are stored; one that waits for its own auth events counts as missing.\<close>

fun local_auth_events ::
  "'j outlier_env \<Rightarrow> 'v codec \<Rightarrow> event_id \<Rightarrow> 'j \<Rightarrow> event_id list \<Rightarrow> (event_id \<rightharpoonup> event) \<Rightarrow> 'r room_db
   \<Rightarrow> (event_id \<rightharpoonup> event) outlier_res \<times> 'r room_db" where
  "local_auth_events env c eid json [] auth db = (Inr auth, db)"
| "local_auth_events env c eid json (aid # aids) auth db =
     (if auth_event_poisons db aid
      then (Inl (DependsOnRejected aid), reject_outlier env eid json DependsOnRejectedAuthEvent db)
      else if rd_rejection db aid = Some MissingAuthEvent then local_auth_events env c eid json aids auth db
      else case room_pdu c db aid of
             None \<Rightarrow> local_auth_events env c eid json aids auth db
           | Some auth_event \<Rightarrow>
               if ev_state_key auth_event = None
               then (Inl AuthEventNotState, reject_outlier env eid json InvalidPduFormat db)
               else local_auth_events env c eid json aids (auth(aid \<mapsto> auth_event)) db)"

definition chain_map :: "'j outlier_env \<Rightarrow> 'v codec \<Rightarrow> room_id \<Rightarrow> (event_id \<times> 'j) list \<Rightarrow> (event_id \<times> 'j \<times> event) list" where
  "chain_map env c room response =
     fold (\<lambda>(eid, json) m.
       case oe_parse env eid json of
         Some parsed \<Rightarrow> if check_room_id c room parsed then AList.update eid (json, parsed) m else m
       | None \<Rightarrow> m) response []"

definition chain_degree :: "(event_id \<times> 'j \<times> event) list \<Rightarrow> event \<Rightarrow> nat" where
  "chain_degree m pdu = length (filter (\<lambda>aid. aid \<in> fst ` set m) (ev_auth pdu))"

definition relax_chain ::
  "(event_id \<times> 'j \<times> event) list \<Rightarrow> event_id \<Rightarrow> (event_id \<Rightarrow> nat) \<times> event_id list \<Rightarrow> (event_id \<Rightarrow> nat) \<times> event_id list" where
  "relax_chain m eid =
     fold (\<lambda>(other, _, pdu) (deg, queue).
       if eid \<in> set (ev_auth pdu)
       then let d = deg other - 1
            in (deg(other := d), if d = 0 then queue @ [other] else queue)
       else (deg, queue)) m"

partial_function (option) sort_chain ::
  "(event_id \<times> 'j \<times> event) list \<Rightarrow> (event_id \<Rightarrow> nat) \<Rightarrow> event_id list \<Rightarrow> event_id list \<Rightarrow> event_id list option" where
  "sort_chain m deg queue out =
     (if queue = [] then Some out
      else case relax_chain m (last queue) (deg, butlast queue) of
             (deg', queue') \<Rightarrow> sort_chain m deg' queue' (out @ [last queue]))"

declare sort_chain.simps [code]

definition sorted_auth_chain :: "(event_id \<times> 'j \<times> event) list \<Rightarrow> event_id list option" where
  "sorted_auth_chain m =
     (let deg = (\<lambda>eid. case map_of m eid of Some (_, pdu) \<Rightarrow> chain_degree m pdu | None \<Rightarrow> 0)
      in sort_chain m deg (filter (\<lambda>eid. deg eid = 0) (map fst m)) [])"

text \<open>Each event of the chain is handled as an outlier; one that fails is left out.\<close>

fun process_chain ::
  "(event_id \<Rightarrow> 'j \<Rightarrow> 'r room_db \<Rightarrow> (event, 'r) outlier_run) \<Rightarrow> 'j outlier_env \<Rightarrow> event_id \<Rightarrow> 'j
   \<Rightarrow> (event_id \<times> 'j \<times> event) list \<Rightarrow> event_id list \<Rightarrow> (event_id \<rightharpoonup> event) \<Rightarrow> 'r room_db
   \<Rightarrow> (event_id \<rightharpoonup> event, 'r) outlier_run" where
  "process_chain handle env eid json m [] auth db = Some (Inr auth, db)"
| "process_chain handle env eid json m (auth_eid # order) auth db =
     (case (map_of m auth_eid, auth auth_eid) of
        (Some (auth_json, _), None) \<Rightarrow>
          (case handle auth_eid auth_json db of
             None \<Rightarrow> None
           | Some (Inl _, db1) \<Rightarrow> process_chain handle env eid json (AList.delete auth_eid m) order auth db1
           | Some (Inr pdu, db1) \<Rightarrow>
               if ev_state_key pdu = None
               then Some (Inl AuthEventNotState, reject_outlier env eid json InvalidPduFormat db1)
               else process_chain handle env eid json (AList.delete auth_eid m) order (auth(ev_id pdu \<mapsto> pdu)) db1)
      | _ \<Rightarrow> process_chain handle env eid json (AList.delete auth_eid m) order auth db)"

definition max_inline_fetch :: nat where
  "max_inline_fetch = 5"

definition still_missing ::
  "'j outlier_env \<Rightarrow> event_id \<Rightarrow> 'j \<Rightarrow> event \<Rightarrow> (event_id \<rightharpoonup> event) \<Rightarrow> 'r room_db \<Rightarrow> unit outlier_res \<times> 'r room_db" where
  "still_missing env eid json pdu auth db =
     (let missing = filter (\<lambda>aid. auth aid = None) (ev_auth pdu)
      in case find (auth_event_poisons db) missing of
           Some aid \<Rightarrow> (Inl (DependsOnRejected aid), reject_outlier env eid json DependsOnRejectedAuthEvent db)
         | None \<Rightarrow>
             if missing \<noteq> []
             then (Inl (MissingAuthEvents missing), reject_outlier env eid json MissingAuthEvent db)
             else (Inr (), db))"

definition resolve_missing_outlier_auth_events ::
  "(event_id \<Rightarrow> 'j \<Rightarrow> 'r room_db \<Rightarrow> (event, 'r) outlier_run) \<Rightarrow> 'j outlier_env \<Rightarrow> 'v codec \<Rightarrow> event_id \<Rightarrow> 'j \<Rightarrow> event
   \<Rightarrow> auth_recovery_stage \<Rightarrow> event_id list \<Rightarrow> (event_id \<rightharpoonup> event) \<Rightarrow> 'r room_db \<Rightarrow> (event_id \<rightharpoonup> event, 'r) outlier_run" where
  "resolve_missing_outlier_auth_events handle env c eid json pdu stage missing auth db =
     (case find (auth_event_poisons db) missing of
        Some mid \<Rightarrow> Some (Inl (DependsOnRejected mid), reject_outlier env eid json DependsOnRejectedAuthEvent db)
      | None \<Rightarrow>
          if max_inline_fetch < length missing \<or> stage = BeforeStateIds
          then Some (Inl (MissingAuthEvents missing), reject_outlier env eid json MissingAuthEvent db)
          else
            let fetched = (case oe_event_auth env eid of
                             None \<Rightarrow> Some (Inr auth, db)
                           | Some response \<Rightarrow>
                               let m = chain_map env c (rd_room db) response
                               in case sorted_auth_chain m of
                                    None \<Rightarrow> None
                                  | Some order \<Rightarrow> process_chain handle env eid json m order auth db)
            in case fetched of
                 None \<Rightarrow> None
               | Some (Inl e, db1) \<Rightarrow> Some (Inl e, db1)
               | Some (Inr auth1, db1) \<Rightarrow>
                   (case still_missing env eid json pdu auth1 db1 of
                      (Inl e, db2) \<Rightarrow> Some (Inl e, db2)
                    | (Inr _, db2) \<Rightarrow> Some (Inr auth1, db2)))"

section \<open>The authorisation by the cited events\<close>

fun auth_events_by_key ::
  "'j outlier_env \<Rightarrow> 'v codec \<Rightarrow> event_id \<Rightarrow> 'j \<Rightarrow> (event_id \<rightharpoonup> event) \<Rightarrow> event_id list \<Rightarrow> (type_state_key \<rightharpoonup> event)
   \<Rightarrow> 'r room_db \<Rightarrow> (type_state_key \<rightharpoonup> event) outlier_res \<times> 'r room_db" where
  "auth_events_by_key env c eid json auth [] m db = (Inr m, db)"
| "auth_events_by_key env c eid json auth (aid # aids) m db =
     (if auth_event_poisons db aid
      then (Inl (DependsOnRejected aid), reject_outlier env eid json DependsOnRejectedAuthEvent db)
      else case auth aid of
             None \<Rightarrow> (Inl (MissingAuthEvents [aid]), reject_outlier env eid json MissingAuthEvent db)
           | Some auth_event \<Rightarrow>
               if \<not> check_room_id c (rd_room db) auth_event then (Inl WrongRoom, db)
               else (case ev_state_key auth_event of
                       None \<Rightarrow> (Inl AuthEventNotState, reject_outlier env eid json InvalidPduFormat db)
                     | Some sk \<Rightarrow>
                         if m (ev_kind auth_event, sk) \<noteq> None
                         then (Inl DuplicateAuthKey, reject_outlier env eid json DuplicateAuthEventKey db)
                         else auth_events_by_key env c eid json auth aids (m((ev_kind auth_event, sk) \<mapsto> auth_event)) db))"

definition with_create_event :: "event option \<Rightarrow> (type_state_key \<rightharpoonup> event) \<Rightarrow> (type_state_key \<rightharpoonup> event)" where
  "with_create_event create m = (case create of None \<Rightarrow> m | Some ev \<Rightarrow> m((RoomCreate, '''') \<mapsto> ev))"

definition finish_outlier ::
  "'j outlier_env \<Rightarrow> 'v codec \<Rightarrow> event option \<Rightarrow> event_id \<Rightarrow> 'j \<Rightarrow> event \<Rightarrow> room_version_id \<Rightarrow> (event_id \<rightharpoonup> event) \<Rightarrow> 'r room_db
   \<Rightarrow> event outlier_res \<times> 'r room_db" where
  "finish_outlier env c create eid json pdu version auth db =
     (case auth_events_by_key env c eid json auth (ev_auth pdu) Map.empty db of
        (Inl e, db1) \<Rightarrow> (Inl e, db1)
      | (Inr m, db1) \<Rightarrow>
          (case room_version_new version of
             Inl _ \<Rightarrow> (Inl UnsupportedVersionPanic, db1)
           | Inr rv \<Rightarrow>
               if ev_kind pdu \<noteq> RoomCreate \<and> \<not> room_ids_as_hashes rv \<and> m (RoomCreate, '''') = None
               then (Inl CreateNotCited, reject_outlier env eid json MissingCreateEvent db1)
               else if \<not> oe_auth env pdu (with_create_event create m) (state_res rv)
               then (Inl ClaimedAuthFailed, reject_outlier env eid json AuthCheckFailed db1)
               else (Inr pdu, unmark_rejected eid (add_pdu_outlier env eid json db1))))"

section \<open>The whole check\<close>

text \<open>
  An event that is stored already is returned when it has no rejection and refused when the rejection is
  final; otherwise it is tried again, under the mark of an event with missing auth events.
\<close>

datatype known = KnownResult "event outlier_res" | Unknown

definition known_outlier :: "'v codec \<Rightarrow> event_id \<Rightarrow> 'r room_db \<Rightarrow> known \<times> 'r room_db" where
  "known_outlier c eid db =
     (case rd_pdus db eid of
        None \<Rightarrow> (Unknown, db)
      | Some pdu \<Rightarrow>
          if room_id_or_hash c pdu \<noteq> Some (rd_room db) then (Unknown, db)
          else case rd_rejection db eid of
                 None \<Rightarrow> (KnownResult (Inr pdu), db)
               | Some code \<Rightarrow>
                   if is_retryable code
                   then (Unknown, mark_rejected eid MissingAuthEvent (unmark_rejected eid db))
                   else (KnownResult (Inl KnownRejected), db))"

definition outlier_version :: "'v codec \<Rightarrow> event option \<Rightarrow> room_version_id \<Rightarrow> room_version_id option" where
  "outlier_version c create room_version =
     (case create of
        None \<Rightarrow> Some room_version
      | Some ev \<Rightarrow> (case get_room_version_id c ev of Inl _ \<Rightarrow> None | Inr version \<Rightarrow> Some version))"

text \<open>From the verified JSON to the decision.\<close>

definition check_outlier ::
  "(event_id \<Rightarrow> 'j \<Rightarrow> 'r room_db \<Rightarrow> (event, 'r) outlier_run) \<Rightarrow> 'j outlier_env \<Rightarrow> 'v codec \<Rightarrow> event option \<Rightarrow> event_id
   \<Rightarrow> room_version_id \<Rightarrow> auth_recovery_stage \<Rightarrow> 'j \<Rightarrow> 'r room_db \<Rightarrow> (event, 'r) outlier_run" where
  "check_outlier handle env c create eid version stage json db =
     (case oe_parse env eid json of
        None \<Rightarrow> Some (Inl NotAPdu, mark_rejected eid InvalidPduFormat db)
      | Some pdu \<Rightarrow>
          if \<not> check_room_id c (rd_room db) pdu then Some (Inl WrongRoom, db)
          else case local_auth_events env c eid json (ev_auth pdu) Map.empty db of
                 (Inl e, db1) \<Rightarrow> Some (Inl e, db1)
               | (Inr auth, db1) \<Rightarrow>
                   let missing = filter (\<lambda>aid. auth aid = None) (ev_auth pdu);
                       resolved = (if missing = [] then Some (Inr auth, db1)
                                   else resolve_missing_outlier_auth_events handle env c eid json pdu stage missing auth db1)
                   in case resolved of
                        None \<Rightarrow> None
                      | Some (Inl e, db2) \<Rightarrow> Some (Inl e, db2)
                      | Some (Inr auth1, db2) \<Rightarrow> Some (finish_outlier env c create eid json pdu version auth1 db2))"

fun handle_outlier_pdu ::
  "nat \<Rightarrow> 'j outlier_env \<Rightarrow> 'v codec \<Rightarrow> event option \<Rightarrow> room_version_id \<Rightarrow> auth_recovery_stage \<Rightarrow> bool
   \<Rightarrow> event_id \<Rightarrow> 'j \<Rightarrow> 'r room_db \<Rightarrow> (event, 'r) outlier_run" where
  "handle_outlier_pdu 0 env c create room_version stage skip_sig_verify eid json db = None"
| "handle_outlier_pdu (Suc depth) env c create room_version stage skip_sig_verify eid json db =
     (case known_outlier c eid db of
        (KnownResult r, db1) \<Rightarrow> Some (r, db1)
      | (Unknown, db1) \<Rightarrow>
          if \<not> oe_fits env json
          then Some (Inl TooLarge, mark_rejected eid InvalidPduFormat (add_pdu_outlier env eid json db1))
          else case outlier_version c create room_version of
            None \<Rightarrow> Some (Inl NoRoomVersion, db1)
          | Some version \<Rightarrow>
              (case verify_incoming env c eid json skip_sig_verify version db1 of
                 (Inl e, db2) \<Rightarrow> Some (Inl e, db2)
               | (Inr (Inl known_pdu), db2) \<Rightarrow> Some (Inr known_pdu, db2)
               | (Inr (Inr json1), db2) \<Rightarrow>
                   check_outlier (handle_outlier_pdu depth env c create room_version stage False)
                     env c create eid version stage json1 db2))"

section \<open>Stored outliers have passed the check\<close>

text \<open>
  What the check establishes of an event: the authorisation rules allow it by exactly the
  events it cites, each under its own key, with the create event among them where the room version asks for it.
\<close>

definition keyed :: "(type_state_key \<rightharpoonup> event) \<Rightarrow> bool" where
  "keyed m \<longleftrightarrow> (\<forall>key ev. m key = Some ev \<longrightarrow> ev_kind ev = fst key \<and> ev_state_key ev = Some (snd key))"

definition vetted :: "'j outlier_env \<Rightarrow> event option \<Rightarrow> event \<Rightarrow> bool" where
  "vetted env create pdu \<longleftrightarrow>
     (\<exists>m (rv :: room_version). keyed m \<and> ev_id ` ran m = set (ev_auth pdu) \<and>
        (ev_kind pdu = RoomCreate \<or> room_ids_as_hashes rv \<or> m (RoomCreate, '''') \<noteq> None) \<and>
        oe_auth env pdu (with_create_event create m) (state_res rv))"

text \<open>Events are stored under their identifiers, with metadata, and an outlier without a rejection has been vetted.\<close>

definition outliers_ok :: "'j outlier_env \<Rightarrow> event option \<Rightarrow> 'r room_db \<Rightarrow> bool" where
  "outliers_ok env create db \<longleftrightarrow>
     (\<forall>eid pdu. rd_pdus db eid = Some pdu \<longrightarrow> ev_id pdu = eid \<and> rd_metadata db eid \<noteq> None \<and>
        (rd_metadata db eid = Some True \<and> rd_rejection db eid = None \<longrightarrow> vetted env create pdu))"

definition parse_ok :: "'j outlier_env \<Rightarrow> bool" where
  "parse_ok env \<longleftrightarrow> (\<forall>eid json pdu. oe_parse env eid json = Some pdu \<longrightarrow> ev_id pdu = eid)"

lemma mark_rejected_fields [simp]:
  "rd_pdus (mark_rejected eid code db) = rd_pdus db" "rd_metadata (mark_rejected eid code db) = rd_metadata db"
  "rd_rejection (mark_rejected eid code db) eid \<noteq> None"
  "e \<noteq> eid \<Longrightarrow> rd_rejection (mark_rejected eid code db) e = rd_rejection db e"
  by (auto simp: mark_rejected_def split: option.split)

lemma outliers_ok_mark: "outliers_ok env create db \<Longrightarrow> outliers_ok env create (mark_rejected eid code db)"
  unfolding outliers_ok_def by (metis mark_rejected_fields)

lemma outliers_ok_add:
  assumes "parse_ok env" and "outliers_ok env create db"
    and "rd_rejection db eid \<noteq> None \<or> rd_metadata db eid = Some False \<or> (\<forall>pdu. oe_parse env eid json = Some pdu \<longrightarrow> vetted env create pdu)"
  shows "outliers_ok env create (add_pdu_outlier env eid json db)"
  using assms unfolding outliers_ok_def parse_ok_def
  by (auto simp: add_pdu_outlier_def split: option.split)

lemma outliers_ok_reject:
  "parse_ok env \<Longrightarrow> outliers_ok env create db \<Longrightarrow> outliers_ok env create (reject_outlier env eid json code db)"
  by (simp add: reject_outlier_def outliers_ok_add outliers_ok_mark)

text \<open>The event may also be stored before it is marked.\<close>

lemma outliers_ok_store_mark:
  assumes "parse_ok env" and "outliers_ok env create db"
  shows "outliers_ok env create (mark_rejected eid code (add_pdu_outlier env eid json db))"
  unfolding outliers_ok_def
proof (intro allI impI)
  fix e pdu
  assume "rd_pdus (mark_rejected eid code (add_pdu_outlier env eid json db)) e = Some pdu"
  then show "ev_id pdu = e \<and> rd_metadata (mark_rejected eid code (add_pdu_outlier env eid json db)) e \<noteq> None \<and>
      (rd_metadata (mark_rejected eid code (add_pdu_outlier env eid json db)) e = Some True \<and>
       rd_rejection (mark_rejected eid code (add_pdu_outlier env eid json db)) e = None \<longrightarrow> vetted env create pdu)"
    using assms unfolding outliers_ok_def parse_ok_def
    by (cases "e = eid") (auto simp: add_pdu_outlier_def split: option.split_asm if_split_asm)
qed

lemma outliers_ok_unmark:
  assumes "outliers_ok env create db" and "\<And>pdu. rd_pdus db eid = Some pdu \<Longrightarrow> rd_metadata db eid = Some True \<Longrightarrow> vetted env create pdu"
  shows "outliers_ok env create (unmark_rejected eid db)"
  using assms unfolding outliers_ok_def by (simp add: unmark_rejected_def)

lemma known_outlier_ok:
  assumes "outliers_ok env create db" and "known_outlier c eid db = (k, db')"
  shows "outliers_ok env create db'"
proof -
  have "db' = db \<or> db' = mark_rejected eid MissingAuthEvent (unmark_rejected eid db)"
    using assms(2) by (auto simp: known_outlier_def split: option.split_asm if_split_asm)
  moreover have "outliers_ok env create (mark_rejected eid MissingAuthEvent (unmark_rejected eid db))"
    using assms(1) unfolding outliers_ok_def
    by (auto simp: mark_rejected_def unmark_rejected_def)
  ultimately show ?thesis
    using assms(1) by auto
qed

lemma verify_incoming_ok:
  assumes "parse_ok env" and "outliers_ok env create db"
    and "verify_incoming env c eid json skip version db = (r, db')"
  shows "outliers_ok env create db'"
proof -
  have redacted: "outliers_ok env create (snd (redacted_copy env eid json version db))"
    using assms(1,2) by (auto simp: redacted_copy_def outliers_ok_store_mark split: option.split)
  have "outliers_ok env create (snd (pristine_copy env eid json version db))"
    using assms(2) redacted by (auto simp: pristine_copy_def Let_def split: option.split)
  then show ?thesis
    using assms outliers_ok_store_mark [OF assms(1,2)]
    by (auto simp: verify_incoming_def split: verified.split_asm option.split_asm if_split_asm prod.split_asm sum.split_asm)
qed

text \<open>The cited events are collected under their identifiers.\<close>

definition auth_named :: "(event_id \<rightharpoonup> event) \<Rightarrow> bool" where
  "auth_named auth \<longleftrightarrow> (\<forall>aid ev. auth aid = Some ev \<longrightarrow> ev_id ev = aid)"

lemma local_auth_events_ok:
  assumes "parse_ok env" and "outliers_ok env create db" and "auth_named auth"
    and "local_auth_events env c eid json aids auth db = (r, db')"
  shows "outliers_ok env create db' \<and> (\<forall>auth'. r = Inr auth' \<longrightarrow> auth_named auth' \<and> db' = db)"
  using assms(3,4)
proof (induction aids arbitrary: auth)
  case Nil
  with assms(2) show ?case
    by auto
next
  case (Cons aid aids)
  have named: "auth_named (auth(aid \<mapsto> ev))" if "room_pdu c db aid = Some ev" for ev
    using Cons.prems(1) that assms(2)
    by (auto simp: auth_named_def room_pdu_def outliers_ok_def split: option.split_asm if_split_asm)
  show ?case
    using Cons.prems Cons.IH named outliers_ok_reject [OF assms(1,2)]
    by (auto split: if_split_asm option.split_asm)
qed

lemma process_chain_ok:
  assumes "parse_ok env" and "\<And>e j db r db'. outliers_ok env create db \<Longrightarrow> handle e j db = Some (r, db') \<Longrightarrow> outliers_ok env create db'"
    and "outliers_ok env create db" and "auth_named auth"
    and "process_chain handle env eid json m order auth db = Some (r, db')"
  shows "outliers_ok env create db' \<and> (\<forall>auth'. r = Inr auth' \<longrightarrow> auth_named auth')"
  using assms(3-5)
proof (induction order arbitrary: auth db m)
  case (Cons a order)
  show ?case
  proof (cases "\<exists>aj x. map_of m a = Some (aj, x) \<and> auth a = None")
    case False
    then have "process_chain handle env eid json (AList.delete a m) order auth db = Some (r, db')"
      using Cons.prems(3) by (auto split: option.split_asm)
    with Cons.IH [OF Cons.prems(1,2)] show ?thesis
      by blast
  next
    case True
    then obtain aj x r1 db1 where handled: "map_of m a = Some (aj, x)" "auth a = None" "handle a aj db = Some (r1, db1)"
      using Cons.prems(3) by (auto split: option.split_asm)
    have ok: "outliers_ok env create db1"
      by (rule assms(2) [OF Cons.prems(1) handled(3)])
    show ?thesis
    proof (cases r1)
      case (Inl e)
      with handled Cons.prems(3) have "process_chain handle env eid json (AList.delete a m) order auth db1 = Some (r, db')"
        by simp
      with Cons.IH [OF ok Cons.prems(2)] show ?thesis
        by blast
    next
      case (Inr pdu)
      have "auth_named (auth(ev_id pdu \<mapsto> pdu))"
        using Cons.prems(2) by (simp add: auth_named_def)
      note next_ok = Cons.IH [OF ok this]
      show ?thesis
      proof (cases "ev_state_key pdu")
        case None
        with handled Inr Cons.prems(3) outliers_ok_reject [OF assms(1) ok] show ?thesis
          by auto
      next
        case (Some sk)
        with handled Inr Cons.prems(3)
        have "process_chain handle env eid json (AList.delete a m) order (auth(ev_id pdu \<mapsto> pdu)) db1 = Some (r, db')"
          by simp
        with next_ok show ?thesis
          by blast
      qed
    qed
  qed
qed auto

lemma still_missing_ok:
  assumes "parse_ok env" and "outliers_ok env create db" and "still_missing env eid json pdu auth db = (r, db')"
  shows "outliers_ok env create db'"
  using assms outliers_ok_reject by (auto simp: still_missing_def Let_def split: option.split_asm if_split_asm)

lemma resolve_missing_ok:
  assumes "parse_ok env" and "\<And>e j db r db'. outliers_ok env create db \<Longrightarrow> handle e j db = Some (r, db') \<Longrightarrow> outliers_ok env create db'"
    and "outliers_ok env create db" and "auth_named auth"
    and "resolve_missing_outlier_auth_events handle env c eid json pdu stage missing auth db = Some (r, db')"
  shows "outliers_ok env create db' \<and> (\<forall>auth'. r = Inr auth' \<longrightarrow> auth_named auth')"
proof (cases "find (auth_event_poisons db) missing = None \<and> \<not> (max_inline_fetch < length missing \<or> stage = BeforeStateIds)")
  case False
  with assms(5) outliers_ok_reject [OF assms(1,3)] show ?thesis
    by (auto simp: resolve_missing_outlier_auth_events_def split: option.split_asm)
next
  case True
  define fetched where "fetched = (case oe_event_auth env eid of
       None \<Rightarrow> Some (Inr auth, db)
     | Some response \<Rightarrow>
         let m = chain_map env c (rd_room db) response
         in case sorted_auth_chain m of
              None \<Rightarrow> None
            | Some order \<Rightarrow> process_chain handle env eid json m order auth db)"
  have run: "Some (r, db') = (case fetched of
       None \<Rightarrow> None
     | Some (Inl e, db1) \<Rightarrow> Some (Inl e, db1)
     | Some (Inr auth1, db1) \<Rightarrow>
         (case still_missing env eid json pdu auth1 db1 of
            (Inl e, db2) \<Rightarrow> Some (Inl e, db2)
          | (Inr _, db2) \<Rightarrow> Some (Inr auth1, db2)))"
    using assms(5) True unfolding resolve_missing_outlier_auth_events_def fetched_def [symmetric]
    by (simp add: Let_def)
  obtain r1 db1 where fetched: "fetched = Some (r1, db1)"
    using run by (cases fetched) auto
  have ok: "outliers_ok env create db1 \<and> (\<forall>auth'. r1 = Inr auth' \<longrightarrow> auth_named auth')"
  proof (cases "oe_event_auth env eid")
    case None
    with fetched assms(3,4) show ?thesis
      by (auto simp: fetched_def)
  next
    case (Some response)
    with fetched obtain order where
      "process_chain handle env eid json (chain_map env c (rd_room db) response) order auth db = Some (r1, db1)"
      by (auto simp: fetched_def Let_def split: option.split_asm)
    from process_chain_ok [OF assms(1) _ assms(3,4) this] assms(2) show ?thesis
      by blast
  qed
  then show ?thesis
    using run fetched still_missing_ok [OF assms(1)]
    by (auto split: sum.split_asm prod.split_asm)
qed

lemma auth_events_by_key_ok:
  assumes "parse_ok env" and "outliers_ok env create db"
    and "auth_events_by_key env c eid json auth aids m db = (r, db')"
  shows "outliers_ok env create db'"
  using assms(3)
proof (induction aids arbitrary: m)
  case (Cons aid aids)
  then show ?case
    using assms(2) outliers_ok_reject [OF assms(1,2)] by (auto split: if_split_asm option.split_asm)
qed (use assms(2) in simp)

lemma auth_events_by_key_exact:
  assumes "auth_named auth" and "keyed m" and "auth_events_by_key env c eid json auth aids m db = (Inr m', db')"
  shows "keyed m' \<and> ev_id ` ran m' = ev_id ` ran m \<union> set aids"
  using assms(2,3)
proof (induction aids arbitrary: m)
  case (Cons aid aids)
  then obtain ev sk where step: "auth aid = Some ev" "ev_state_key ev = Some sk" "m (ev_kind ev, sk) = None"
    "auth_events_by_key env c eid json auth aids (m((ev_kind ev, sk) \<mapsto> ev)) db = (Inr m', db')"
    by (auto split: if_split_asm option.split_asm)
  have "keyed (m((ev_kind ev, sk) \<mapsto> ev))"
    using Cons.prems(1) step(2) by (auto simp: keyed_def)
  from Cons.IH [OF this step(4)] have "keyed m'" "ev_id ` ran m' = ev_id ` insert ev (ran m) \<union> set aids"
    using ran_map_upd [of m "(ev_kind ev, sk)" ev, OF step(3)] by (simp_all add: fun_upd_def)
  moreover have "ev_id ev = aid"
    using step(1) assms(1) by (simp add: auth_named_def)
  ultimately show ?case
    by auto
qed simp

lemma finish_outlier_ok:
  assumes "parse_ok env" and "outliers_ok env create db" and "auth_named auth" and "oe_parse env eid json = Some pdu"
    and "finish_outlier env c create eid json pdu version auth db = (r, db')"
  shows "outliers_ok env create db' \<and> (\<forall>pdu'. r = Inr pdu' \<longrightarrow> vetted env create pdu')"
proof -
  obtain r1 db1 where keys: "auth_events_by_key env c eid json auth (ev_auth pdu) Map.empty db = (r1, db1)"
    by (cases "auth_events_by_key env c eid json auth (ev_auth pdu) Map.empty db")
  have ok: "outliers_ok env create db1"
    by (rule auth_events_by_key_ok [OF assms(1,2) keys])
  show ?thesis
  proof (cases "\<exists>m rv. r1 = Inr m \<and> room_version_new version = Inr rv \<and>
      (ev_kind pdu = RoomCreate \<or> room_ids_as_hashes rv \<or> m (RoomCreate, '''') \<noteq> None) \<and>
      oe_auth env pdu (with_create_event create m) (state_res rv)")
    case True
    then obtain m rv where m: "r1 = Inr m" "room_version_new version = Inr rv"
      "ev_kind pdu = RoomCreate \<or> room_ids_as_hashes rv \<or> m (RoomCreate, '''') \<noteq> None"
      "oe_auth env pdu (with_create_event create m) (state_res rv)"
      by blast
    have "keyed m \<and> ev_id ` ran m = set (ev_auth pdu)"
      using auth_events_by_key_exact [OF assms(3) _ keys [unfolded m(1)]] by (simp add: keyed_def)
    with m(3,4) have vetted: "vetted env create pdu"
      unfolding vetted_def by blast
    have result: "r = Inr pdu" "db' = unmark_rejected eid (add_pdu_outlier env eid json db1)"
      using assms(5) keys m by (auto simp: finish_outlier_def)
    have "outliers_ok env create db'"
      unfolding result(2)
    proof (rule outliers_ok_unmark)
      show "outliers_ok env create (add_pdu_outlier env eid json db1)"
        using outliers_ok_add [OF assms(1) ok] vetted assms(4) by simp
      show "vetted env create pdu'" if "rd_pdus (add_pdu_outlier env eid json db1) eid = Some pdu'"
        "rd_metadata (add_pdu_outlier env eid json db1) eid = Some True" for pdu'
        using that vetted assms(4) by (auto simp: add_pdu_outlier_def split: if_split_asm)
    qed
    with result(1) vetted show ?thesis
      by simp
  next
    case False
    with assms(5) keys ok outliers_ok_reject [OF assms(1) ok] show ?thesis
      by (auto simp: finish_outlier_def split: sum.split_asm if_split_asm)
  qed
qed

lemma check_outlier_ok:
  assumes "parse_ok env" and "\<And>e j db r db'. outliers_ok env create db \<Longrightarrow> handle e j db = Some (r, db') \<Longrightarrow> outliers_ok env create db'"
    and "outliers_ok env create db" and "check_outlier handle env c create eid version stage json db = Some (r, db')"
  shows "outliers_ok env create db' \<and> (\<forall>pdu. r = Inr pdu \<longrightarrow> vetted env create pdu)"
proof (cases "\<exists>pdu auth db1. oe_parse env eid json = Some pdu \<and> check_room_id c (rd_room db) pdu \<and>
    local_auth_events env c eid json (ev_auth pdu) Map.empty db = (Inr auth, db1)")
  case False
  with assms(3,4) outliers_ok_mark [OF assms(3)] local_auth_events_ok [OF assms(1,3), of Map.empty c eid json] show ?thesis
    by (auto simp: check_outlier_def auth_named_def split: option.split_asm if_split_asm prod.split_asm sum.split_asm)
next
  case True
  then obtain pdu auth db1 where parsed: "oe_parse env eid json = Some pdu" "check_room_id c (rd_room db) pdu"
    and cited: "local_auth_events env c eid json (ev_auth pdu) Map.empty db = (Inr auth, db1)"
    by blast
  have auth: "auth_named auth" "db1 = db"
    using local_auth_events_ok [OF assms(1,3) _ cited] by (simp_all add: auth_named_def)
  define missing where "missing = filter (\<lambda>aid. auth aid = None) (ev_auth pdu)"
  define resolved where "resolved = (if missing = [] then Some (Inr auth, db)
      else resolve_missing_outlier_auth_events handle env c eid json pdu stage missing auth db)"
  have run: "Some (r, db') = (case resolved of
       None \<Rightarrow> None
     | Some (Inl e, db2) \<Rightarrow> Some (Inl e, db2)
     | Some (Inr auth1, db2) \<Rightarrow> Some (finish_outlier env c create eid json pdu version auth1 db2))"
    using assms(4) parsed cited auth(2) unfolding resolved_def missing_def
    by (simp add: check_outlier_def Let_def split del: if_split)
  obtain r1 db2 where resolved: "resolved = Some (r1, db2)"
    using run by (cases resolved) auto
  have ok: "outliers_ok env create db2 \<and> (\<forall>auth'. r1 = Inr auth' \<longrightarrow> auth_named auth')"
  proof (cases "missing = []")
    case True
    with resolved assms(3) auth(1) show ?thesis
      by (auto simp: resolved_def)
  next
    case False
    then have "resolve_missing_outlier_auth_events handle env c eid json pdu stage missing auth db = Some (r1, db2)"
      using resolved by (simp add: resolved_def)
    from resolve_missing_ok [OF assms(1) _ assms(3) auth(1) this] assms(2) show ?thesis
      by blast
  qed
  show ?thesis
  proof (cases r1)
    case (Inl e)
    with run resolved ok show ?thesis
      by simp
  next
    case (Inr auth1)
    then have "finish_outlier env c create eid json pdu version auth1 db2 = (r, db')"
      using run resolved by simp
    from finish_outlier_ok [OF assms(1) _ _ parsed(1) this] ok Inr show ?thesis
      by simp
  qed
qed


section \<open>A sample environment\<close>

text \<open>The JSON of an event is the event itself; a member may send, and joins are open.\<close>

definition sample_outlier_env ::
  "(event_id \<Rightarrow> (event_id \<times> event) list option) \<Rightarrow> (bool \<Rightarrow> event_id \<Rightarrow> (event_id \<times> event) option) \<Rightarrow> event outlier_env" where
  "sample_outlier_env chain refetch =
     \<lparr>oe_fits = (\<lambda>j. True),
      oe_verify = (\<lambda>j v. if ev_content j = ''tampered'' then VerifiedSignatures else if ev_content j = ''forged'' then VerifyFailed else VerifiedAll),
      oe_bypassed = (\<lambda>eid. False), oe_refetch = refetch,
      oe_redact = (\<lambda>j v. Some (j\<lparr>ev_content := ''{}''\<rparr>)), oe_parse = (\<lambda>eid j. Some (j\<lparr>ev_id := eid\<rparr>)),
      oe_event_auth = chain,
      oe_auth = (\<lambda>pdu m v. ev_kind pdu = RoomCreate \<or> ev_kind pdu = RoomMember \<or> m (RoomMember, ev_sender pdu) \<noteq> None)\<rparr>"

definition outlier_join :: event where
  "outlier_join = sample_event ''$b'' ''@b:x'' RoomMember (Some ''@b:x'') ''join'' [''$create:x'']"

definition outlier_topic :: event where
  "outlier_topic = sample_event ''$t'' ''@b:x'' (OtherType ''topic'') (Some '''') ''text'' [''$create:x'', ''$b'']"

text \<open>The membership that the topic cites comes from the other server.\<close>

definition fetching_env :: "event outlier_env" where
  "fetching_env = sample_outlier_env [''$t'' \<mapsto> [(''$b'', outlier_join)]] (\<lambda>second eid. None)"

lemma sample_parse_ok: "parse_ok (sample_outlier_env chain refetch)"
  by (auto simp: parse_ok_def sample_outlier_env_def)

lemma live_outliers_ok: "outliers_ok env create live_room"
  by (auto simp: outliers_ok_def live_room_def sample_create_def sample_event_def split: if_split_asm)

lemma outlier_topic_fetched:
  "map_option (\<lambda>(r, db). (r, rd_metadata db ''$b'', rd_rejection db ''$b'', rd_metadata db ''$t'', rd_rejection db ''$t''))
     (handle_outlier_pdu 2 fetching_env sample_codec (Some sample_create) V10 AfterStateIds False ''$t'' outlier_topic live_room) =
   Some (Inr outlier_topic, Some True, None, Some True, None)"
  by code_simp


end
