(* ===== verification/Outlier_Safety.thy ===== *)
theory Outlier_Safety
  imports Outliers
begin

text \<open>
  What the check of events from other servers guarantees and what it does not: a final rejection reaches the events that cite
  it, the order in which a fetched auth chain is handled, the depth of the recursion, and two ways to have an event accepted
  without the checks.
\<close>

section \<open>Rejections spread\<close>

lemma mark_rejected_final:
  "\<not> is_retryable code \<Longrightarrow> \<exists>final. rd_rejection (mark_rejected eid code db) eid = Some final \<and> \<not> is_retryable final"
  by (auto simp: mark_rejected_def split: option.split)

lemma add_pdu_outlier_rejection [simp]: "rd_rejection (add_pdu_outlier env eid json db) = rd_rejection db"
  by (simp add: add_pdu_outlier_def split: option.split)

lemma reject_outlier_final:
  "\<not> is_retryable code \<Longrightarrow> \<exists>final. rd_rejection (reject_outlier env eid json code db) eid = Some final \<and> \<not> is_retryable final"
  by (simp add: reject_outlier_def mark_rejected_final)

lemma local_auth_events_poisoned:
  assumes "aid \<in> set aids" and "auth_event_poisons db aid"
  shows "\<exists>e db' final. local_auth_events env c eid json aids auth db = (Inl e, db') \<and>
    rd_rejection db' eid = Some final \<and> \<not> is_retryable final"
  using assms(1)
proof (induction aids arbitrary: auth)
  case (Cons a aids)
  note final = reject_outlier_final [of DependsOnRejectedAuthEvent env eid json db]
    reject_outlier_final [of InvalidPduFormat env eid json db]
  show ?case
  proof (cases "aid \<in> set aids")
    case True
    show ?thesis
      using Cons.IH [OF True] final by (auto simp: fun_upd_def split: option.split)
  next
    case False
    with Cons.prems assms(2) final show ?thesis
      by auto
  qed
qed simp


definition banned_room :: "type_state_key short_state room_db" where
  "banned_room = live_room\<lparr>rd_rejection := [''$b'' \<mapsto> AuthCheckFailed]\<rparr>"


section \<open>The depth of fetched auth chains\<close>

text \<open>Before the state of the room has been requested nothing is fetched, so one level is enough.\<close>

lemma resolve_missing_before_state_ids:
  "\<exists>out. resolve_missing_outlier_auth_events handle env c eid json pdu BeforeStateIds missing auth db = Some out"
  by (simp add: resolve_missing_outlier_auth_events_def split: option.split)

lemma check_outlier_before_state_ids:
  "\<exists>out. check_outlier handle env c create eid version BeforeStateIds json db = Some out"
proof -
  have "\<exists>out. (case resolve_missing_outlier_auth_events handle env c eid json pdu BeforeStateIds missing auth db1 of
       None \<Rightarrow> None
     | Some (Inl e, db2) \<Rightarrow> Some (Inl e, db2)
     | Some (Inr auth1, db2) \<Rightarrow> Some (finish_outlier env c create eid json pdu version auth1 db2)) = Some out" for pdu missing auth db1
    using resolve_missing_before_state_ids [of handle env c eid json pdu missing auth db1]
    by (auto split: sum.split)
  then show ?thesis
    by (auto simp: check_outlier_def Let_def split: option.split sum.split prod.split)
qed

lemma before_state_ids_returns:
  "\<exists>r db'. handle_outlier_pdu (Suc depth) env c create room_version BeforeStateIds skip eid json db = Some (r, db')"
  using check_outlier_before_state_ids
  by (auto split: prod.split known.split option.split sum.split)

text \<open>A server that answers with one more event whose auth events are missing, again and again, \<open>n\<close> times.\<close>

definition link_id :: "nat \<Rightarrow> event_id" where
  "link_id k = CHR ''$'' # replicate k CHR ''l''"

definition link :: "nat \<Rightarrow> event" where
  "link k = sample_event (link_id k) ''@b:x'' RoomMember (Some ''@b:x'') ''join'' [link_id (Suc k)]"

definition long_chain :: "nat \<Rightarrow> event_id \<Rightarrow> (event_id \<times> event) list option" where
  "long_chain n eid =
     (if length eid \<le> n \<and> eid = link_id (length eid - 1) then Some [(link_id (length eid), link (length eid))] else None)"

definition long_chain_env :: "nat \<Rightarrow> event outlier_env" where
  "long_chain_env n = sample_outlier_env (long_chain n) (\<lambda>second eid. None)"

lemma link_id_inj [simp]: "link_id j = link_id k \<longleftrightarrow> j = k"
  by (simp add: link_id_def)

lemma link_id_fresh [simp]: "link_id k \<noteq> ''$a''" "link_id k \<noteq> ''$create:x''"
  by (cases k; simp add: link_id_def)+

lemma link_sorted: "sorted_auth_chain [(link_id k, link k, link k)] = Some [link_id k]"
proof -
  have "sort_chain [(link_id k, link k, link k)] deg [] [link_id k] = Some [link_id k]" for deg
    by (simp add: sort_chain.simps)
  then have "sort_chain [(link_id k, link k, link k)] deg [link_id k] [] = Some [link_id k]" for deg
    by (subst sort_chain.simps) (simp add: relax_chain_def link_def sample_event_def)
  then show ?thesis
    by (simp add: sorted_auth_chain_def chain_degree_def link_def sample_event_def)
qed

lemma link_exceeds:
  assumes "k + depth \<le> n" and "rd_room db = ''!r:x''" and "\<And>k. rd_pdus db (link_id k) = None" and "\<And>k. rd_rejection db (link_id k) = None"
  shows "handle_outlier_pdu depth (long_chain_env n) sample_codec (Some sample_create) V10 AfterStateIds False (link_id k) (link k) db = None"
  using assms(1)
proof (induction depth arbitrary: k)
  case (Suc depth)
  have version: "outlier_version sample_codec (Some sample_create) V10 = Some V10"
    by code_simp
  have room: "check_room_id sample_codec ''!r:x'' (link k)" for k
    by (simp add: check_room_id_def room_id_or_hash_def link_def sample_event_def)
  have parse: "oe_parse (long_chain_env n) (link_id k) (link k) = Some (link k)" for k
    by (simp add: long_chain_env_def sample_outlier_env_def link_def sample_event_def)
  have fits: "oe_fits (long_chain_env n) json" for json
    by (simp add: long_chain_env_def sample_outlier_env_def)
  have verify: "oe_verify (long_chain_env n) (link k) V10 = VerifiedAll"
    by (simp add: long_chain_env_def sample_outlier_env_def link_def sample_event_def)
  have cites: "ev_auth (link k) = [link_id (Suc k)]"
    by (simp add: link_def sample_event_def)
  have answer: "oe_event_auth (long_chain_env n) (link_id k) = Some [(link_id (Suc k), link (Suc k))]"
    using Suc.prems by (simp add: long_chain_env_def sample_outlier_env_def long_chain_def link_id_def)
  have no_poison: "auth_event_poisons db (link_id k) = False" for k
    by (simp add: auth_event_poisons_def assms(4))
  have no_pdu: "room_pdu sample_codec db (link_id k) = None" for k
    by (simp add: room_pdu_def stored_pdu_def assms(3))
  have chain: "chain_map (long_chain_env n) sample_codec ''!r:x'' [(link_id (Suc k), link (Suc k))] =
      [(link_id (Suc k), link (Suc k), link (Suc k))]"
    by (simp add: chain_map_def parse room)
  have "handle_outlier_pdu depth (long_chain_env n) sample_codec (Some sample_create) V10 AfterStateIds False
      (link_id (Suc k)) (link (Suc k)) db = None"
    using Suc by simp
  then show ?case
    by (simp add: known_outlier_def assms(2-4) version verify_incoming_def verify check_outlier_def parse room cites no_poison no_pdu
        resolve_missing_outlier_auth_events_def max_inline_fetch_def answer chain link_sorted fits)
qed simp

text \<open>The depth of the recursion is not bounded. For every depth there is a server, with finitely many answers of a single
  event each, for which the handling of one event goes deeper, although every event on the way cites one event only.\<close>

lemma auth_fetch_depth_unbounded:
  "\<exists>(env :: event outlier_env) (json :: event). parse_ok env \<and> finite {eid. oe_event_auth env eid \<noteq> None} \<and>
     (\<forall>eid. length (case oe_event_auth env eid of None \<Rightarrow> [] | Some chain \<Rightarrow> chain) \<le> 1) \<and>
     length (ev_auth json) = 1 \<and>
     handle_outlier_pdu depth env sample_codec (Some sample_create) V10 AfterStateIds False (ev_id json) json live_room = None"
proof (rule exI [of _ "long_chain_env depth"], rule exI [of _ "link 0"], intro conjI)
  show "parse_ok (long_chain_env depth)"
    by (simp add: long_chain_env_def sample_parse_ok)
  have "{eid. oe_event_auth (long_chain_env depth) eid \<noteq> None} \<subseteq> link_id ` {..depth}"
    by (auto simp: long_chain_env_def sample_outlier_env_def long_chain_def)
  then show "finite {eid. oe_event_auth (long_chain_env depth) eid \<noteq> None}"
    by (rule finite_subset) simp
  show "\<forall>eid. length (case oe_event_auth (long_chain_env depth) eid of None \<Rightarrow> [] | Some chain \<Rightarrow> chain) \<le> 1"
    by (simp add: long_chain_env_def sample_outlier_env_def long_chain_def)
  show "length (ev_auth (link 0)) = 1"
    by (simp add: link_def sample_event_def)
  have "rd_room live_room = ''!r:x''" "rd_pdus live_room (link_id k) = None" "rd_rejection live_room (link_id k) = None" for k
    by (simp_all add: live_room_def sample_room_db_def)
  then show "handle_outlier_pdu depth (long_chain_env depth) sample_codec (Some sample_create) V10 AfterStateIds False (ev_id (link 0)) (link 0) live_room = None"
    using link_exceeds [of 0 depth depth live_room] by (simp add: link_def sample_event_def)
qed

section \<open>Two ways around the checks\<close>

definition strict_env :: "event outlier_env" where
  "strict_env = (sample_outlier_env (\<lambda>eid. None) (\<lambda>second eid. None))\<lparr>oe_auth := (\<lambda>pdu m v. False)\<rparr>"

definition waiting_room :: "type_state_key short_state room_db" where
  "waiting_room = live_room\<lparr>rd_pdus := (rd_pdus live_room)(''$s'' \<mapsto> stranger_message),
     rd_metadata := (rd_metadata live_room)(''$s'' \<mapsto> True), rd_rejection := [''$s'' \<mapsto> MissingAuthEvent]\<rparr>"


definition swapping_env :: "event outlier_env" where
  "swapping_env = sample_outlier_env (\<lambda>eid. None)
     (\<lambda>second eid. if second then Some (''$other'', live_topic\<lparr>ev_content := ''forged''\<rparr>) else Some (''$t'', live_topic))"


section \<open>The order of a fetched auth chain\<close>

definition cited_in_chain :: "(event_id \<times> 'j \<times> event) list \<Rightarrow> event_id \<Rightarrow> event_id set" where
  "cited_in_chain m x = (case map_of m x of None \<Rightarrow> {} | Some (_, pdu) \<Rightarrow> set (ev_auth pdu) \<inter> fst ` set m)"

definition chain_sorted :: "(event_id \<times> 'j \<times> event) list \<Rightarrow> event_id list \<Rightarrow> bool" where
  "chain_sorted m order \<longleftrightarrow> (\<forall>i < length order. cited_in_chain m (order ! i) \<subseteq> set (take i order))"

lemma chain_sorted_snoc:
  "chain_sorted m (order @ [x]) \<longleftrightarrow> chain_sorted m order \<and> cited_in_chain m x \<subseteq> set order"
  by (auto simp: chain_sorted_def nth_append less_Suc_eq)

lemma finite_cited [simp]: "finite (cited_in_chain m x)"
  by (auto simp: cited_in_chain_def split: option.split)

lemma relax_chain_exact:
  assumes "distinct (map fst m)"
  shows "relax_chain m eid (deg, queue) =
    (\<lambda>x. case map_of m x of Some (_, pdu) \<Rightarrow> if eid \<in> set (ev_auth pdu) then deg x - 1 else deg x | None \<Rightarrow> deg x,
     queue @ map fst (filter (\<lambda>(x, _, pdu). eid \<in> set (ev_auth pdu) \<and> deg x - 1 = 0) m))"
  using assms
proof (induction m arbitrary: deg queue)
  case (Cons entry m)
  obtain x j pdu where entry: "entry = (x, j, pdu)"
    by (cases entry)
  have fresh: "x \<notin> fst ` set m" "map_of m x = None" "distinct (map fst m)"
    using Cons.prems entry by (auto simp: map_of_eq_None_iff)
  have neq: "y \<noteq> x" if "(y, z) \<in> set m" for y z
    using fresh(1) that by force
  have same: "filter (\<lambda>(y, _, pdu). eid \<in> set (ev_auth pdu) \<and> (deg(x := d)) y - 1 = 0) m =
      filter (\<lambda>(y, _, pdu). eid \<in> set (ev_auth pdu) \<and> deg y - 1 = 0) m" for d
    using neq by (intro filter_cong) auto
  have step: "relax_chain (entry # m) eid (deg, queue) =
      (if eid \<in> set (ev_auth pdu)
       then relax_chain m eid (deg(x := deg x - 1), if deg x - 1 = 0 then queue @ [x] else queue)
       else relax_chain m eid (deg, queue))"
    by (simp add: relax_chain_def entry Let_def)
  show ?case
    unfolding step Cons.IH [OF fresh(3)] same
    by (auto simp: entry fresh fun_eq_iff split: option.split)
qed (simp add: relax_chain_def)

text \<open>
  The events that have left the queue are in order; those that were queued are the ones with a count of zero; and no
  count is smaller than the number of cited events still to come, which it is exactly if no event cites another one twice.
\<close>

definition chain_simple :: "(event_id \<times> 'j \<times> event) list \<Rightarrow> bool" where
  "chain_simple m \<longleftrightarrow> (\<forall>(x, j, pdu) \<in> set m. distinct (ev_auth pdu))"

definition chain_inv ::
  "(event_id \<times> 'j \<times> event) list \<Rightarrow> (event_id \<Rightarrow> nat) \<Rightarrow> event_id list \<Rightarrow> event_id list \<Rightarrow> bool" where
  "chain_inv m deg queue out \<longleftrightarrow>
     distinct (out @ queue) \<and> set (out @ queue) = {x \<in> fst ` set m. deg x = 0} \<and>
     (\<forall>x \<in> fst ` set m. card (cited_in_chain m x - set out) \<le> deg x) \<and> chain_sorted m out \<and>
     (chain_simple m \<longrightarrow> (\<forall>x \<in> fst ` set m. deg x = card (cited_in_chain m x - set out)))"

lemma map_of_key: "distinct (map fst m) \<Longrightarrow> x \<in> fst ` set m \<Longrightarrow> \<exists>j pdu. map_of m x = Some (j, pdu) \<and> (x, j, pdu) \<in> set m"
  by (metis (no_types, opaque_lifting) imageE map_of_eq_Some_iff prod.collapse)

lemma cites_iff:
  assumes "distinct (map fst m)" and "(x, j, pdu) \<in> set m" and "eid \<in> fst ` set m"
  shows "eid \<in> set (ev_auth pdu) \<longleftrightarrow> eid \<in> cited_in_chain m x"
  using assms by (auto simp: cited_in_chain_def)

lemma relax_chain_inv:
  assumes "distinct (map fst m)" and inv: "chain_inv m deg (queue @ [e]) out" and "relax_chain m e (deg, queue) = (deg', queue')"
  shows "chain_inv m deg' queue' (out @ [e])"
proof -
  have e: "e \<in> fst ` set m" "deg e = 0" "e \<notin> set out" "e \<notin> set queue"
    using inv by (auto simp: chain_inv_def)
  define new where "new = map fst (filter (\<lambda>(x, _, pdu). e \<in> set (ev_auth pdu) \<and> deg x - 1 = 0) m)"
  have deg': "deg' x = (if e \<in> cited_in_chain m x then deg x - 1 else deg x)" if "x \<in> fst ` set m" for x
    using assms(3) map_of_key [OF assms(1) that] cites_iff [OF assms(1) _ e(1)]
    by (auto simp: relax_chain_exact [OF assms(1)])
  have queue': "queue' = queue @ new"
    using assms(3) by (simp add: relax_chain_exact [OF assms(1)] new_def)
  have new: "set new = {x \<in> fst ` set m. e \<in> cited_in_chain m x \<and> deg x - 1 = 0}"
    using cites_iff [OF assms(1) _ e(1)] by (force simp: new_def)
  have pos: "0 < deg x" if "x \<in> fst ` set m" "e \<in> cited_in_chain m x" for x
  proof -
    have "0 < card (cited_in_chain m x - set out)"
      using that(2) e(3) by (auto simp: card_gt_0_iff)
    with inv that(1) show ?thesis
      unfolding chain_inv_def by (metis less_le_trans)
  qed
  define K where "K = fst ` set m"
  have "set (out @ [e] @ queue') = {x \<in> K. deg x = 0} \<union> {x \<in> K. e \<in> cited_in_chain m x \<and> deg x - 1 = 0}"
  proof -
    have "set (out @ queue @ [e]) = {x \<in> K. deg x = 0}"
      using inv by (simp add: chain_inv_def K_def)
    then show ?thesis
      unfolding queue' set_append new [folded K_def] by blast
  qed
  also have "\<dots> = {x \<in> K. deg' x = 0}"
    using deg' [folded K_def] by (auto split: if_split_asm)
  finally have keys: "set (out @ [e] @ queue') = {x \<in> fst ` set m. deg' x = 0}"
    by (simp add: K_def)
  have "distinct new"
    using assms(1) by (simp add: new_def distinct_map_filter)
  moreover have "set new \<inter> set (out @ [e] @ queue) = {}"
    using inv new pos by (fastforce simp: chain_inv_def)
  ultimately have distinct: "distinct (out @ [e] @ queue')"
    using inv by (auto simp: chain_inv_def queue')
  have degrees: "card (cited_in_chain m x - set (out @ [e])) \<le> deg' x" if "x \<in> fst ` set m" for x
  proof -
    have "card (cited_in_chain m x - set out) \<le> deg x"
      using inv that unfolding chain_inv_def by blast
    moreover have "cited_in_chain m x - set (out @ [e]) = cited_in_chain m x - set out - {e}"
      by auto
    ultimately show ?thesis
      using that e(3) by (auto simp: deg' card_Diff_singleton_if intro: diff_le_mono)
  qed
  have exact: "deg' x = card (cited_in_chain m x - set (out @ [e]))" if "chain_simple m" "x \<in> fst ` set m" for x
  proof -
    have "deg x = card (cited_in_chain m x - set out)"
      using inv that unfolding chain_inv_def by blast
    moreover have "cited_in_chain m x - set (out @ [e]) = cited_in_chain m x - set out - {e}"
      by auto
    ultimately show ?thesis
      using that e(3) by (simp add: deg' card_Diff_singleton_if)
  qed
  have "card (cited_in_chain m e - set out) = 0"
    using inv e(1,2) unfolding chain_inv_def by (metis le_zero_eq)
  then have "chain_sorted m (out @ [e])"
    using inv by (simp add: chain_inv_def chain_sorted_snoc)
  with keys distinct degrees exact show ?thesis
    unfolding chain_inv_def by simp
qed

lemma chain_inv_length: "chain_inv m deg queue out \<Longrightarrow> length out + length queue \<le> length m"
proof -
  assume inv: "chain_inv m deg queue out"
  then have "length (out @ queue) = card {x \<in> fst ` set m. deg x = 0}"
    unfolding chain_inv_def by (metis distinct_card)
  also have "\<dots> \<le> card (fst ` set m)"
    by (intro card_mono) auto
  also have "\<dots> \<le> length m"
    by (metis card_image_le card_length finite_set le_trans)
  finally show ?thesis
    by simp
qed

lemma sort_chain_inv:
  assumes "distinct (map fst m)" and "chain_inv m deg queue out"
  shows "\<exists>deg' order. sort_chain m deg queue out = Some order \<and> chain_inv m deg' [] order"
  using assms(2)
proof (induction "length m - length out" arbitrary: deg queue out rule: less_induct)
  case less
  show ?case
  proof (cases queue rule: rev_cases)
    case Nil
    with less.prems show ?thesis
      by (auto simp: sort_chain.simps)
  next
    case (snoc queue1 e)
    obtain deg1 queue2 where relax: "relax_chain m e (deg, queue1) = (deg1, queue2)"
      by (cases "relax_chain m e (deg, queue1)")
    have "chain_inv m deg1 queue2 (out @ [e])"
      using relax_chain_inv [OF assms(1) less.prems [unfolded snoc] relax] .
    moreover have "length out < length m"
      using chain_inv_length [OF less.prems] snoc by simp
    ultimately have "\<exists>deg' order. sort_chain m deg1 queue2 (out @ [e]) = Some order \<and> chain_inv m deg' [] order"
      using less.hyps [of "out @ [e]" deg1 queue2] by simp
    moreover have "sort_chain m deg queue out = sort_chain m deg1 queue2 (out @ [e])"
      by (subst sort_chain.simps) (simp add: snoc relax)
    ultimately show ?thesis
      by simp
  qed
qed

lemma chain_map_distinct: "distinct (map fst (chain_map env c room response))"
proof -
  have "distinct (map fst (fold (\<lambda>(eid, json) m.
       case oe_parse env eid json of
         Some parsed \<Rightarrow> if check_room_id c room parsed then AList.update eid (json, parsed) m else m
       | None \<Rightarrow> m) response m))" if "distinct (map fst m)" for m
    using that by (induction response arbitrary: m) (auto simp: distinct_update split: option.split)
  then show ?thesis
    by (simp add: chain_map_def)
qed

lemma card_le_length_filter: "card (set xs \<inter> K) \<le> length (filter (\<lambda>x. x \<in> K) xs)"
  by (metis Int_commute card_length inter_set_filter)

lemma chain_inv_init:
  fixes m :: "(event_id \<times> 'j \<times> event) list"
  assumes "distinct (map fst m)"
  defines "deg \<equiv> \<lambda>eid. case map_of m eid of Some (_, pdu) \<Rightarrow> chain_degree m pdu | None \<Rightarrow> 0"
  shows "chain_inv m deg (filter (\<lambda>eid. deg eid = 0) (map fst m)) []"
proof -
  have "card (cited_in_chain m x) \<le> deg x" if "x \<in> fst ` set m" for x
    using map_of_key [OF assms(1) that] card_le_length_filter
    by (auto simp: deg_def cited_in_chain_def chain_degree_def)
  moreover have "deg x = card (cited_in_chain m x)" if "chain_simple m" "x \<in> fst ` set m" for x
    using map_of_key [OF assms(1) that(2)] that(1)
    by (fastforce simp: deg_def cited_in_chain_def chain_degree_def chain_simple_def distinct_length_filter Int_commute)
  ultimately show ?thesis
    using assms(1) by (auto simp: chain_inv_def chain_sorted_def)
qed

definition chain_acyclic :: "(event_id \<times> 'j \<times> event) list \<Rightarrow> bool" where
  "chain_acyclic m \<longleftrightarrow> acyclic {(a, x). x \<in> fst ` set m \<and> a \<in> cited_in_chain m x}"

lemma chain_complete:
  assumes "chain_inv m deg [] order" and "chain_simple m" and "chain_acyclic m"
  shows "set order = fst ` set m"
proof -
  let ?R = "{(a, x). x \<in> fst ` set m \<and> a \<in> cited_in_chain m x}"
  have order: "set order = {x \<in> fst ` set m. deg x = 0}" "\<And>x. x \<in> fst ` set m \<Longrightarrow> deg x = card (cited_in_chain m x - set order)"
    using assms(1,2) unfolding chain_inv_def by auto
  have "?R \<subseteq> (fst ` set m) \<times> (fst ` set m)"
    by (auto simp: cited_in_chain_def split: option.split_asm)
  then have "wf ?R"
    using assms(3) unfolding chain_acyclic_def
    by (intro finite_acyclic_wf) (meson List.finite_set finite_SigmaI finite_imageI finite_subset)
  then have "x \<in> fst ` set m \<Longrightarrow> x \<in> set order" for x
  proof (induction x rule: wf_induct_rule)
    case (less x)
    have "cited_in_chain m x \<subseteq> fst ` set m"
      by (auto simp: cited_in_chain_def split: option.split)
    with less have "cited_in_chain m x \<subseteq> set order"
      by blast
    then have "cited_in_chain m x - set order = {}"
      by blast
    with less.prems order show ?case
      by simp
  qed
  with order(1) show ?thesis
    by auto
qed

text \<open>C38: A fetched auth chain is handled in order. Whatever another server answers, the order of its events is found in
  finitely many steps, each event appears in it at most once and after all events of the answer that it cites, and if the
  citations have no cycle and no event cites another one twice, no event of the answer is left out.\<close>

theorem fetched_chain_in_order:
  "\<exists>order. sorted_auth_chain (chain_map env c room response) = Some order \<and> distinct order \<and>
     chain_sorted (chain_map env c room response) order \<and> set order \<subseteq> fst ` set (chain_map env c room response) \<and>
     (chain_simple (chain_map env c room response) \<and> chain_acyclic (chain_map env c room response) \<longrightarrow>
        set order = fst ` set (chain_map env c room response))"
proof -
  let ?m = "chain_map env c room response"
  obtain deg order where "sorted_auth_chain ?m = Some order" "chain_inv ?m deg [] order"
    using sort_chain_inv [OF chain_map_distinct chain_inv_init [OF chain_map_distinct], of env c room response]
    unfolding sorted_auth_chain_def Let_def by blast
  moreover from this(2) have "distinct order" "chain_sorted ?m order" "set order \<subseteq> fst ` set ?m"
    unfolding chain_inv_def by auto
  ultimately show ?thesis
    using chain_complete by blast
qed

lemma sample_chain_map:
  "chain_map fetching_env sample_codec ''!r:x'' [(''$b'', outlier_join), (''$create:x'', sample_create)] =
     [(''$b'', outlier_join, outlier_join), (''$create:x'', sample_create, sample_create)]"
  by code_simp

lemma sample_chain_clean:
  "chain_simple [(''$b'', j, outlier_join), (''$create:x'', k, sample_create)]"
  "chain_acyclic [(''$b'', j, outlier_join), (''$create:x'', k, sample_create)]"
proof -
  let ?m = "[(''$b'', j, outlier_join), (''$create:x'', k, sample_create)]"
  have "{(a, x). x \<in> fst ` set ?m \<and> a \<in> cited_in_chain ?m x} = {(''$create:x'', ''$b'')}"
    by (auto simp: cited_in_chain_def outlier_join_def sample_create_def sample_event_def)
  then show "chain_acyclic ?m"
    unfolding chain_acyclic_def by (simp add: acyclic_def trancl_insert)
qed (simp add: chain_simple_def outlier_join_def sample_create_def sample_event_def)

theorem fetched_chain_in_order_witness:
  "\<exists>order. sorted_auth_chain (chain_map fetching_env sample_codec ''!r:x'' [(''$b'', outlier_join), (''$create:x'', sample_create)]) = Some order \<and>
     set order = {''$b'', ''$create:x''}"
  using fetched_chain_in_order [of fetching_env sample_codec "''!r:x''" "[(''$b'', outlier_join), (''$create:x'', sample_create)]"]
  by (auto simp: sample_chain_map sample_chain_clean)

text \<open>An event that cites another one of the answer twice is counted twice and released once: it is not handled at all.\<close>

lemma repeated_citation_is_dropped:
  "\<exists>(m :: (event_id \<times> unit \<times> event) list) order. sorted_auth_chain m = Some order \<and> chain_acyclic m \<and> ''$b'' \<in> fst ` set m \<and> ''$b'' \<notin> set order"
proof -
  let ?m = "[(''$b'', (), outlier_join\<lparr>ev_auth := [''$create:x'', ''$create:x'']\<rparr>), (''$create:x'', (), sample_create)]"
  have "sorted_auth_chain ?m = Some [''$create:x'']"
    by code_simp
  moreover have "{(a, x). x \<in> fst ` set ?m \<and> a \<in> cited_in_chain ?m x} = {(''$create:x'', ''$b'')}"
    by (auto simp: cited_in_chain_def sample_create_def sample_event_def)
  then have "chain_acyclic ?m"
    unfolding chain_acyclic_def by (simp add: acyclic_def trancl_insert)
  moreover have "''$b'' \<in> fst ` set ?m" "''$b'' \<notin> set [''$create:x'']"
    by simp_all
  ultimately show ?thesis
    by blast
qed

end
