(* ===== verification/Spec2Isabelle.thy ===== *)
theory Spec2Isabelle
  imports Kahn Auth_Safety Determinism Timeline_Order Short_Ids Visibility Auth_Chain_Closure Reconcile_Worker Reachability Extremities Incoming_Safety Outlier_Safety
begin

text \<open>
  A verification development of a Matrix homeserver (a continuation of conduwuit). The server
  keeps, for every room, a directed acyclic graph of signed events; the state of the room after
  an event is computed from that graph. Servers that hold the same events have to agree on the
  state without talking to each other, so the algorithms that authorise, order and resolve
  events are the core of the program. This development models them, the identifiers and keys
  under which their results are stored, and the decisions about who may see the events.

  \<^bold>\<open>Parts and theories.\<close> Paths are below \<^verbatim>\<open>src/src\<close>.

  \<^item> \<^verbatim>\<open>Prelude\<close>: the result type, the containers of the standard library that the sources use
    (heaps, ordered sets and maps, hash maps, binary search) and their contracts as the locales
    \<^verbatim>\<open>min_worklist\<close> and \<^verbatim>\<open>hash_map\<close>, interpreted on the models of the containers.
  \<^item> \<^verbatim>\<open>Kahn\<close> (\<^verbatim>\<open>core/utils/kahns_sort.rs\<close>): the topological sort with its tables; the abstract
    specification \<^verbatim>\<open>topo_run\<close> / \<^verbatim>\<open>topo_sorted\<close>, which has exactly one solution for distinct keys;
    refinement, permutation, order and determinism.
  \<^item> \<^verbatim>\<open>Timeline_Order\<close> (\<^verbatim>\<open>core/matrix/dag.rs\<close>, \<^verbatim>\<open>core/utils/timeline_sorter.rs\<close>): the second
    implementation of the sort over ordered maps, shown to agree with the first, and the sort of
    timeline entries, shown to be the one list that satisfies the specification.
  \<^item> \<^verbatim>\<open>Room_Version\<close>, \<^verbatim>\<open>Event_Model\<close>, \<^verbatim>\<open>Power_Levels\<close>, \<^verbatim>\<open>Text_Num\<close> (\<^verbatim>\<open>core/matrix/state_res\<close>,
    \<^verbatim>\<open>core/matrix/event\<close>): room versions, events, contents and power levels.
  \<^item> \<^verbatim>\<open>Event_Auth\<close> (\<^verbatim>\<open>state_res/event_auth.rs\<close>): the authorisation rules, one definition per rule,
    composed to \<^verbatim>\<open>auth_check\<close>. \<^verbatim>\<open>Auth_Errors\<close> and \<^verbatim>\<open>Auth_Safety\<close> show which errors it can return
    and what an allowed event implies: no escalation of power levels, no join of a banned user,
    membership of the sender, the level the event type requires.
  \<^item> \<^verbatim>\<open>State_Sets\<close>, \<^verbatim>\<open>Auth_Graph\<close>, \<^verbatim>\<open>Power_Sort\<close>, \<^verbatim>\<open>Mainline\<close>, \<^verbatim>\<open>Iterative_Auth\<close>, \<^verbatim>\<open>Resolve\<close>
    (\<^verbatim>\<open>state_res/mod.rs\<close>): the stages of state resolution in the order of \<^verbatim>\<open>resolve\<close>: splitting the
    forks, the difference of the auth chains, the conflicted subgraph, the order of power events,
    the mainline order, the iterative check, and their composition. \<^verbatim>\<open>Determinism\<close> shows that
    two servers with the same events compute the same state.
  \<^item> \<^verbatim>\<open>Byte_Order\<close>, \<^verbatim>\<open>Pdu_Count\<close> (\<^verbatim>\<open>core/matrix/pdu\<close>): positions in the timeline at 64 bits, the keys
    under which the database sorts them, and the tokens handed to clients.
  \<^item> \<^verbatim>\<open>Short_Ids\<close> (\<^verbatim>\<open>mtxdb/src/shortids.rs\<close>, \<^verbatim>\<open>service/rooms/short/mod.rs\<close>): the allocation of short
    identifiers as a step relation over calls, cache evictions and restarts.
  \<^item> \<^verbatim>\<open>Auth_Chain\<close>, \<^verbatim>\<open>Auth_Chain_Closure\<close> (\<^verbatim>\<open>service/rooms/auth_chain\<close>): the walk over auth edges with its
    two-level cache; it computes the transitive closure whatever the cache has forgotten, and
    caches only complete closures.
  \<^item> \<^verbatim>\<open>Reachability\<close>, \<^verbatim>\<open>Extremities\<close> (\<^verbatim>\<open>service/rooms/timeline/reachability.rs\<close>, \<^verbatim>\<open>extremities.rs\<close>): whether
    one event is an ancestor of another, and the tips of the accepted history.
  \<^item> \<^verbatim>\<open>Reconcile_Queue\<close>, \<^verbatim>\<open>Reconcile_Worker\<close> (\<^verbatim>\<open>service/rooms/reconcile\<close>): the queue of room and peer
    pairs to reconcile as a state machine, with its limits, its fairness and that no trigger is
    lost.
  \<^item> \<^verbatim>\<open>Verdicts\<close> (\<^verbatim>\<open>mtxdb/src/verdicts.rs\<close>, \<^verbatim>\<open>service/rooms/pdu_metadata\<close>): rejections and soft failures of
    events. The record of an event is updated in an optimistic transaction; what other writers
    do between its steps is an argument, and an update is shown to be atomic. The locale
    \<^verbatim>\<open>verdict_table\<close> is the contract of the store for the operations of the service.
  \<^item> \<^verbatim>\<open>Lean_Events\<close> (\<^verbatim>\<open>service/rooms/event_handler/resolve_state.rs\<close>): how events with their verdicts reach
    the live state resolution through a cache; final rejections stick, and the cache agrees
    with the store except where the theorems say so.
  \<^item> \<^verbatim>\<open>State_At_Event\<close> (\<^verbatim>\<open>service/rooms/event_handler/state_at_incoming.rs\<close>, \<^verbatim>\<open>resolve_state.rs\<close>): the state before an
    incoming event from its predecessors, and the new state of the room as a change of its
    tree, shown to hold exactly the resolved state; where the walk through rejected events does
    not end and where a predecessor is lost.
  \<^item> \<^verbatim>\<open>Incoming_Events\<close>, \<^verbatim>\<open>Incoming_Safety\<close> (\<^verbatim>\<open>event_handler/upgrade_outlier_pdu.rs\<close>, \<^verbatim>\<open>event_handler/extremities.rs\<close>,
    \<^verbatim>\<open>timeline/append.rs\<close>, \<^verbatim>\<open>state/mod.rs\<close>): how an event enters the timeline. The record \<^verbatim>\<open>room_db\<close> is what the
    server stores of a room; the pipeline runs in two halves, before and under the lock of the
    room, with what other tasks do between them as an argument. It keeps the room well-formed,
    accepts only authorised events, and hides soft-failed ones.
  \<^item> \<^verbatim>\<open>Outliers\<close>, \<^verbatim>\<open>Outlier_Safety\<close> (\<^verbatim>\<open>event_handler/handle_outlier_pdu.rs\<close>, \<^verbatim>\<open>outlier/mod.rs\<close>): the checks of an event from another
    server before the upgrade: signature and hash, the cited events, which are fetched where they are
    missing, and the rules on them. What is stored without a rejection has passed them; two ways
    around the checks are shown, and that the depth of the fetching is not bounded.
  \<^item> \<^verbatim>\<open>Visibility\<close> (\<^verbatim>\<open>service/rooms/state_accessor\<close>): who may see and redact an event.

  \<^bold>\<open>How the code is represented.\<close> Functions that can fail return \<^verbatim>\<open>Inl\<close> of an error or \<^verbatim>\<open>Inr\<close> of a value;
  a panic is an error value of its own. A hash map is an association list whose lookups alone
  are used in theorems, so that they hold for every iteration order; the determinism theorems
  state this as equality of results. Events are fetched from a finite store. Loops are total
  functions with a measure, except the walk along the mainline and the walk back through rejected
  events, which do not end on a cycle and are partial functions with the value \<open>None\<close> there. The recursion into
  fetched auth chains, which has no bound in the code, counts down a depth; theorems about its results hold for every depth.
  Integers whose width matters (counts, keys, short identifiers) are 64-bit words; timestamps,
  depths and degrees, which are only compared or bounded by memory, are natural numbers.

  \<^bold>\<open>Code outside the repository.\<close> The JSON codec and the identifier types (record \<^verbatim>\<open>codec\<close>), the hash
  functions of the storage engine (records \<^verbatim>\<open>engine\<close> and \<^verbatim>\<open>verdict_engine\<close>), the least-recently-used cache and the bitmap
  format of the auth chains (record \<^verbatim>\<open>chain_lib\<close>), the state trees and the resolution used for live
  state (record \<^verbatim>\<open>state_lib\<close>), other servers (record \<^verbatim>\<open>incoming_env\<close>) and the lookups of other services (records \<^verbatim>\<open>view\<close>
  and \<^verbatim>\<open>chain_env\<close>) are arguments of the definitions. What theorems need of them are named hypotheses:
  sorted members of parsed objects, hash functions without collisions, a cache that returns what
  was inserted or nothing, trees that hold what was written to them. \<^verbatim>\<open>Sample_Codec\<close> holds a
  concrete codec on which the witnesses run.

  \<^bold>\<open>Not modelled.\<close> The database engine and its column families, configuration, the HTTP layers for
  clients, federation and administration, the sending queues, synchronisation, media, accounts
  and devices, end-to-end encryption keys, application services, push, presence and typing. They
  move data between the network, the database and the parts above; most of their behaviour
  is input and output or belongs to other packages. Of the room services, the requests for missing
  events, backfill, the nodes of the state trees and the membership
  caches are left out; in the append of an event, failures of the storage engine, notifications,
  receipts, relations and the search index are.
\<close>

end
